(* ===== verification/Go_Prelude.thy ===== *)
theory Go_Prelude
  imports Main "HOL-Library.Word"
begin

text \<open>
  Go values shared by every component: bytes and byte strings, 64-bit integers, the panics of the
  Go runtime, sub-slices, and the decimal printing of \<^verbatim>\<open>strconv\<close>. The lemmas are the ones the component
  theories use over and over; those about positions in a buffer are collected in
  \<open>slice_simps\<close>, those about decimal digits in \<open>digit_simps\<close>.
\<close>

section \<open>Bytes, strings, integers, panics\<close>

text \<open>
  A Go \<^verbatim>\<open>byte\<close> is an 8-bit value: HOL's \<open>char\<close> (256 values, \<open>of_char\<close> reads it as a number).
  Go strings and byte slices are both sequences of bytes; a slice that may be \<^verbatim>\<open>nil\<close> has type
  \<open>bytes option\<close> where the code tells \<^verbatim>\<open>nil\<close> from empty. \<^verbatim>\<open>int\<close> and \<^verbatim>\<open>int64\<close> are both 64 bits wide
  and wrap around.
\<close>

type_synonym byte = char
type_synonym bytes = "byte list"
type_synonym int64 = "64 word"

abbreviation CR :: byte where "CR \<equiv> CHR 0x0D"
abbreviation LF :: byte where "LF \<equiv> CHR 0x0A"
abbreviation TAB :: byte where "TAB \<equiv> CHR 0x09"
abbreviation SP :: byte where "SP \<equiv> CHR '' ''"
abbreviation BACKSLASH :: byte where "BACKSLASH \<equiv> CHR 0x5C"
abbreviation DQUOTE :: byte where "DQUOTE \<equiv> CHR 0x22"
abbreviation SQUOTE :: byte where "SQUOTE \<equiv> CHR 0x27"
abbreviation CRLF :: bytes where "CRLF \<equiv> [CR, LF]"

text \<open>
  The run-time panics the modelled code can raise; an operation that may panic returns a sum. A panic
  in a method of the user is named by a number.
\<close>

datatype go_panic =
    Index_out_of_range
  | Slice_bounds_out_of_range
  | Makeslice_cap_out_of_range
  | Nil_dereference
  | Send_on_closed_channel
  | Close_of_closed_channel
  | Assignment_to_nil_map
  | Zero_reflect_value
  | User_panic nat

type_synonym 'a go = "go_panic + 'a"

named_theorems slice_simps
named_theorems digit_simps

section \<open>64-bit integers\<close>

lemma sint64_range: "- (2 ^ 63) \<le> sint (n :: int64)" "sint (n :: int64) < 2 ^ 63"
  using sint_ge [of n] sint_lt [of n] by simp_all

lemma sint_of_int64 [simp]:
  "- (2 ^ 63) \<le> k \<Longrightarrow> k < 2 ^ 63 \<Longrightarrow> sint (word_of_int k :: int64) = k"
  by (simp add: int_word_sint)

lemma sint_of_nat64 [simp]: "k < 2 ^ 63 \<Longrightarrow> sint (word_of_nat k :: int64) = int k"
  using sint_of_int64 [of "int k"] by simp

lemma uint_eq_sint64: "0 \<le> sint (n :: int64) \<Longrightarrow> uint n = sint n"
  using sint64_range [of n] by (simp add: uint_sint take_bit_int_eq_self)

lemma unat_eq_sint64: "0 \<le> sint (n :: int64) \<Longrightarrow> unat n = nat (sint n)"
  by (metis uint_eq_sint64 unat_eq_nat_uint)

lemma sint_of_nat64_neg:
  "2 ^ 63 \<le> k \<Longrightarrow> k < 2 ^ 64 \<Longrightarrow> sint (word_of_nat k :: int64) = int k - 2 ^ 64"
proof -
  assume k: "2 ^ 63 \<le> k" "k < 2 ^ 64"
  have "(int k + 2 ^ 63) mod 2 ^ 64 = (int k - 2 ^ 63 + 2 ^ 64) mod 2 ^ 64" by (simp add: add.commute)
  also have "\<dots> = int k - 2 ^ 63" using k by (subst mod_add_self2) simp
  finally show "sint (word_of_nat k :: int64) = int k - 2 ^ 64"
    using int_word_sint [of "int k", where 'a = 64] by simp
qed

lemma unat_of_nat64: "k < 2 ^ 63 \<Longrightarrow> unat (word_of_nat k :: int64) = k"
  using unat_eq_sint64 [of "word_of_nat k"] sint_of_nat64 [of k] by (simp del: sint_of_nat64)

lemma sint_eq_unat64: "unat (n :: int64) < 2 ^ 63 \<Longrightarrow> sint n = int (unat n)"
  using sint_of_nat64 [of "unat n"] by simp

lemma sint_pos_unat64: "0 < sint (n :: int64) \<Longrightarrow> 0 < unat n"
  using unat_eq_sint64 [of n] by simp

lemma sint_eq_iff64: "sint (n :: int64) = k \<Longrightarrow> n = word_of_int k"
  by auto

lemma sint_uminus64: "sint (n :: int64) \<noteq> - (2 ^ 63) \<Longrightarrow> sint (- n) = - sint n"
  using sint_of_int64 [of "- sint n"] sint64_range [of n] by simp

lemma unat_lt_2p63: "0 \<le> sint (n :: int64) \<Longrightarrow> unat n < 2 ^ 63"
  using sint64_range [of n] by (simp add: unat_eq_sint64)

section \<open>Sub-slices of a buffer\<close>

text \<open>\<^verbatim>\<open>buf[lo:hi]\<close> for \<open>lo \<le> hi \<le> len(buf)\<close>; the callers' bounds are lemmas of the callers.\<close>

definition sub :: "'a list \<Rightarrow> nat \<Rightarrow> nat \<Rightarrow> 'a list" where
  "sub buf lo hi = take (hi - lo) (drop lo buf)"

lemma length_sub [slice_simps]: "hi \<le> length buf \<Longrightarrow> length (sub buf lo hi) = hi - lo"
  by (simp add: sub_def)

lemma sub_append [slice_simps]:
  "lo = length xs \<Longrightarrow> hi = length xs + length ys \<Longrightarrow> sub (xs @ ys @ zs) lo hi = ys"
  by (simp add: sub_def)

lemma sub_prefix [slice_simps]: "hi \<le> length buf \<Longrightarrow> sub (buf @ more) lo hi = sub buf lo hi"
  by (simp add: sub_def diff_le_mono)

lemma sub_Nil [simp]: "sub buf lo lo = []"
  by (simp add: sub_def)

lemma set_sub_subset: "set (sub buf lo hi) \<subseteq> set buf"
  unfolding sub_def by (meson dual_order.trans set_drop_subset set_take_subset)

lemma sub_sub: "b \<le> hi - lo \<Longrightarrow> sub (sub buf lo hi) a b = sub buf (lo + a) (lo + b)"
  by (simp add: sub_def drop_take min_def add.commute)

lemma nth_append_mid [slice_simps]: "i = length xs \<Longrightarrow> (xs @ y # ys) ! i = y"
  by simp

lemma drop_eq_ConsD: "drop n xs = y # ys \<Longrightarrow> n < length xs \<and> xs ! n = y \<and> drop (Suc n) xs = ys"
  by (metis Cons_nth_drop_Suc drop_all leI list.discI list.inject)

lemma distinct_concat_keyed:
  assumes "distinct (map key xs)"
    and "\<And>x. x \<in> set xs \<Longrightarrow> distinct (f x) \<and> (\<forall>y \<in> set (f x). key' y = key x)"
  shows "distinct (concat (map f xs))"
  using assms
proof (induction xs)
  case (Cons x xs)
  have "y \<notin> set (f z)" if "y \<in> set (f x)" "z \<in> set xs" for y z
  proof
    assume "y \<in> set (f z)"
    with that Cons.prems(2) [of x] Cons.prems(2) [of z] have "key x = key z" by (metis list.set_intros)
    with that Cons.prems(1) show False by auto
  qed
  with Cons show ?case by auto
qed simp

section \<open>Decimal numbers\<close>

definition is_digit :: "byte \<Rightarrow> bool" where
  "is_digit c \<longleftrightarrow> 48 \<le> (of_char c :: nat) \<and> (of_char c :: nat) \<le> 57"

definition digit_val :: "byte \<Rightarrow> nat" where
  "digit_val c = of_char c - 48"

definition digit_byte :: "nat \<Rightarrow> byte" where
  "digit_byte d = char_of (48 + d)"

text \<open>The value of a string of digits, and its printing: \<^verbatim>\<open>strconv.AppendUint(nil, n, 10)\<close>.\<close>

definition decimal_val :: "bytes \<Rightarrow> nat" where
  "decimal_val ds = foldl (\<lambda>n c. n * 10 + digit_val c) 0 ds"

fun formatUint :: "nat \<Rightarrow> bytes" where
  "formatUint n =
     (if n < 10 then [digit_byte n] else formatUint (n div 10) @ [digit_byte (n mod 10)])"

declare formatUint.simps [simp del]

text \<open>\<^verbatim>\<open>strconv.AppendInt(nil, n, 10)\<close>.\<close>

definition formatInt :: "int64 \<Rightarrow> bytes" where
  "formatInt n =
     (if sint n < 0 then CHR ''-'' # formatUint (nat (- sint n)) else formatUint (nat (sint n)))"

lemma digit_byte_literals [digit_simps]:
  "digit_byte 0 = CHR ''0''" "digit_byte 1 = CHR ''1''" "digit_byte (Suc 0) = CHR ''1''"
  "digit_byte 2 = CHR ''2''" "digit_byte 3 = CHR ''3''" "digit_byte 4 = CHR ''4''"
  "digit_byte 5 = CHR ''5''" "digit_byte 6 = CHR ''6''" "digit_byte 7 = CHR ''7''"
  "digit_byte 8 = CHR ''8''" "digit_byte 9 = CHR ''9''"
  by code_simp+

lemma of_char_digit_byte [digit_simps]: "d < 10 \<Longrightarrow> of_char (digit_byte d) = 48 + d"
  by (simp add: digit_byte_def)

lemma digit_byte_0 [simp]: "digit_byte 0 = CHR ''0''"
  by code_simp

lemma is_digit_byte [digit_simps]: "d < 10 \<Longrightarrow> is_digit (digit_byte d)"
  by (simp add: is_digit_def of_char_digit_byte)

lemma digit_val_byte [digit_simps]: "d < 10 \<Longrightarrow> digit_val (digit_byte d) = d"
  by (simp add: digit_val_def of_char_digit_byte)

lemma is_digit_bound: "is_digit c \<Longrightarrow> digit_val c < 10"
  by (auto simp: is_digit_def digit_val_def)

lemma digit_byte_val: "is_digit c \<Longrightarrow> digit_byte (digit_val c) = c"
  by (simp add: is_digit_def digit_val_def digit_byte_def)

lemma not_digit_sign [simp]: "\<not> is_digit (CHR ''-'')" "\<not> is_digit (CHR ''+'')"
  by (simp_all add: is_digit_def)

lemma not_digit_CR [simp]: "\<not> is_digit CR" "\<not> is_digit LF"
  by (simp_all add: is_digit_def)

lemma decimal_val_Nil [simp]: "decimal_val [] = 0"
  by (simp add: decimal_val_def)

lemma decimal_val_snoc [digit_simps]: "decimal_val (ds @ [d]) = decimal_val ds * 10 + digit_val d"
  by (simp add: decimal_val_def)

lemma formatUint_nonempty [simp]: "formatUint n \<noteq> []"
  by (subst formatUint.simps) simp

lemma formatUint_digits: "\<forall>c \<in> set (formatUint n). is_digit c"
proof (induction n rule: formatUint.induct)
  case (1 n)
  then show ?case
    by (subst formatUint.simps) (auto simp: digit_simps)
qed

lemma decimal_val_formatUint [digit_simps]: "decimal_val (formatUint n) = n"
proof (induction n rule: formatUint.induct)
  case (1 n)
  show ?case
  proof (cases "n < 10")
    case True
    then show ?thesis
      by (subst formatUint.simps) (simp add: decimal_val_def digit_simps)
  next
    case False
    with 1 have "decimal_val (formatUint (n div 10)) = n div 10" by simp
    with False show ?thesis
      by (subst formatUint.simps) (simp add: digit_simps)
  qed
qed

lemma formatUint_small: "n < 10 \<Longrightarrow> formatUint n = [digit_byte n]"
  by (subst formatUint.simps) simp

lemma length_formatUint: "n < 10 ^ Suc k \<Longrightarrow> length (formatUint n) \<le> Suc k"
proof (induction k arbitrary: n)
  case 0
  then show ?case by (simp add: formatUint_small)
next
  case (Suc k)
  then have "length (formatUint (n div 10)) \<le> Suc k" by simp
  then show ?case by (subst formatUint.simps) simp
qed

lemma formatUint_hd_digit: "is_digit (hd (formatUint n))"
  using formatUint_digits [of n] formatUint_nonempty [of n] by (meson hd_in_set)

lemma length_formatInt: "length (formatInt n) \<le> 20"
proof -
  have len: "length (formatUint (nat k)) \<le> 19" if "k \<le> 2 ^ 63" for k :: int
    using length_formatUint [of "nat k" 18] that by simp
  show ?thesis
    using len [of "sint n"] len [of "- sint n"] sint64_range [of n] by (auto simp: formatInt_def)
qed

lemma formatInt_no_crlf: "CR \<notin> set (formatInt n)" "LF \<notin> set (formatInt n)"
  using formatUint_digits [of "nat (sint n)"] formatUint_digits [of "nat (- sint n)"]
  by (auto simp: formatInt_def dest: bspec)

section \<open>Sums over the entries of a table\<close>

lemma sum_list_update_add:
  fixes f :: "'a \<Rightarrow> 'b::comm_monoid_add"
  shows "i < length xs \<Longrightarrow> sum_list (map f (xs[i := x])) + f (xs ! i) = sum_list (map f xs) + f x"
proof (induction xs arbitrary: i)
  case (Cons y ys)
  then show ?case by (cases i) (auto simp: ac_simps)
qed simp

end
