(* ===== verification/Resp_Value.thy ===== *)
theory Resp_Value
  imports Go_Prelude
begin

text \<open>
  \<^verbatim>\<open>internal/protocol/types.go\<close>: the RESP value, its constructors, equality, and the extraction of a
  command name and of raw arguments from a request. The value type is polymorphic in what a bulk
  string holds: the parser produces values whose bulk strings are views into its input buffer, the
  rest of the program works on values whose bulk strings are bytes of their own (type \<open>rvalue\<close>).
  Lemmas: equality is an equivalence on values of known types, the printing of integers agrees with
  \<^verbatim>\<open>strconv\<close> (and where it does not), the two-pass lower-casing equals \<^verbatim>\<open>strings.ToLower\<close>.
\<close>

section \<open>Types and values\<close>

abbreviation TypeSimpleString :: byte where "TypeSimpleString \<equiv> CHR ''+''"
abbreviation TypeError :: byte where "TypeError \<equiv> CHR ''-''"
abbreviation TypeInteger :: byte where "TypeInteger \<equiv> CHR '':''"
abbreviation TypeBulkString :: byte where "TypeBulkString \<equiv> CHR ''$''"
abbreviation TypeArray :: byte where "TypeArray \<equiv> CHR ''*''"
abbreviation TypeNull :: byte where "TypeNull \<equiv> CHR 0x00"

text \<open>The Go struct with its five fields; \<open>None\<close> is the nil slice.\<close>

datatype 'b resp_value =
  RespValue (vType: byte) (vStr: bytes) (vInt: int64) (vBulk: "'b option")
    (vArray: "'b resp_value list option")

type_synonym rvalue = "bytes resp_value"

text \<open>Reading a slice that may be nil: \<^verbatim>\<open>len\<close> of nil is 0 and a range over nil runs no iteration.\<close>

definition opt_list :: "'a list option \<Rightarrow> 'a list" where
  "opt_list a = (case a of None \<Rightarrow> [] | Some xs \<Rightarrow> xs)"

lemma opt_list_simps [simp]: "opt_list None = []" "opt_list (Some xs) = xs"
  by (simp_all add: opt_list_def)

definition SimpleString :: "bytes \<Rightarrow> 'b resp_value" where
  "SimpleString s = RespValue TypeSimpleString s 0 None None"

definition Error :: "bytes \<Rightarrow> 'b resp_value" where
  "Error msg = RespValue TypeError msg 0 None None"

definition Integer :: "int64 \<Rightarrow> 'b resp_value" where
  "Integer n = RespValue TypeInteger [] n None None"

definition BulkBytes :: "'b option \<Rightarrow> 'b resp_value" where
  "BulkBytes b = RespValue TypeBulkString [] 0 b None"

text \<open>\<^verbatim>\<open>[]byte(s)\<close> is never nil, also for the empty string.\<close>

definition BulkFromString :: "bytes \<Rightarrow> rvalue" where
  "BulkFromString s = RespValue TypeBulkString [] 0 (Some s) None"

definition Null :: "'b resp_value" where
  "Null = RespValue TypeNull [] 0 None None"

text \<open>A variadic call with no argument passes a nil slice.\<close>

definition ArrayOf :: "'b resp_value list \<Rightarrow> 'b resp_value" where
  "ArrayOf vs = RespValue TypeArray [] 0 None (if vs = [] then None else Some vs)"

lemmas value_constructors =
  SimpleString_def Error_def Integer_def BulkBytes_def BulkFromString_def Null_def ArrayOf_def

definition IsNull :: "'b resp_value \<Rightarrow> bool" where
  "IsNull v \<longleftrightarrow> vType v = TypeNull \<or> (vType v = TypeBulkString \<and> vBulk v = None)"

text \<open>Induction on a value: the hypothesis holds for its elements.\<close>

lemma size_elems [simp]: "size_list size (opt_list a) \<le> size_option (size_list size) a"
  by (cases a) auto

lemma size_elem: "v \<in> set (opt_list a) \<Longrightarrow> size v < size (RespValue t s n b a)"
  using size_list_estimation' [of v "opt_list a" "size v" size] size_elems [of a]
  by (simp add: less_Suc_eq_le trans_le_add2 del: size_elems)

lemma value_induct [case_names RespValue]:
  assumes "\<And>t s n b a. (\<And>v. v \<in> set (opt_list a) \<Longrightarrow> P v) \<Longrightarrow> P (RespValue t s n b a)"
  shows "P v"
proof (induction v rule: measure_induct_rule [of size])
  case (less v)
  then show ?case
    by (cases v) (metis assms size_elem)
qed

section \<open>Equality of values\<close>

text \<open>
  \<^verbatim>\<open>Equal\<close> and its loop over the elements, entered when both arrays have the same length.
  \<^verbatim>\<open>bytes.Equal\<close> does not tell nil from empty.
\<close>

function (sequential) Equal :: "rvalue \<Rightarrow> rvalue \<Rightarrow> bool"
  and Equal_loop :: "rvalue list \<Rightarrow> rvalue list \<Rightarrow> bool" where
  "Equal (RespValue t s n b a) (RespValue t' s' n' b' a') =
     (if t \<noteq> t' then False
      else if t = TypeSimpleString \<or> t = TypeError then s = s'
      else if t = TypeInteger then n = n'
      else if t = TypeBulkString then opt_list b = opt_list b'
      else if t = TypeArray then
        (if length (opt_list a) \<noteq> length (opt_list a') then False
         else Equal_loop (opt_list a) (opt_list a'))
      else if t = TypeNull then True
      else False)"
| "Equal_loop (v # vs) (w # ws) = (if \<not> Equal v w then False else Equal_loop vs ws)"
| "Equal_loop _ _ = True"
  by pat_completeness auto
termination
  by (relation "measure (\<lambda>x. case x of Inl (v, _) \<Rightarrow> size v | Inr (vs, _) \<Rightarrow> size_list size vs)")
    (auto simp: less_Suc_eq_le intro: trans_le_add2)

text \<open>The types \<^verbatim>\<open>Equal\<close> knows; a value of another type is not even equal to itself.\<close>

definition known_type :: "byte \<Rightarrow> bool" where
  "known_type t \<longleftrightarrow>
     t \<in> {TypeSimpleString, TypeError, TypeInteger, TypeBulkString, TypeArray, TypeNull}"

function known_types :: "'b resp_value \<Rightarrow> bool" where
  "known_types (RespValue t s n b a) \<longleftrightarrow>
     known_type t \<and> (t = TypeArray \<longrightarrow> (\<forall>v \<in> set (opt_list a). known_types v))"
  by pat_completeness auto
termination
  by (relation "measure size") (auto dest: size_elem simp del: resp_value.size)

lemma Equal_loop_list_all2: "length vs = length ws \<Longrightarrow> Equal_loop vs ws \<longleftrightarrow> list_all2 Equal vs ws"
  by (induction vs ws rule: list_induct2) auto

lemma Equal_array:
  "Equal (RespValue TypeArray s n b a) (RespValue TypeArray s' n' b' a') \<longleftrightarrow>
     list_all2 Equal (opt_list a) (opt_list a')"
  by (auto simp: Equal_loop_list_all2 dest: list_all2_lengthD)

lemma Equal_known_type: "Equal v w \<Longrightarrow> vType v = vType w \<and> known_type (vType v)"
  by (cases v; cases w) (auto simp: known_type_def split: if_splits)

lemma Equal_refl_iff: "Equal v v \<longleftrightarrow> known_types v"
proof (induction v rule: value_induct)
  case (RespValue t s n b a)
  then have "list_all2 Equal (opt_list a) (opt_list a) \<longleftrightarrow> (\<forall>v \<in> set (opt_list a). known_types v)"
    by (auto simp: list.rel_refl_strong list_all2_same)
  then show ?case
    by (auto simp: known_type_def Equal_loop_list_all2)
qed

lemma Equal_sym: "Equal v w \<Longrightarrow> Equal w v"
proof (induction v arbitrary: w rule: value_induct)
  case (RespValue t s n b a)
  obtain t' s' n' b' a' where w: "w = RespValue t' s' n' b' a'" by (cases w)
  have "list_all2 Equal (opt_list a) (opt_list a') \<Longrightarrow> list_all2 Equal (opt_list a') (opt_list a)"
    using RespValue.IH by (auto simp: list_all2_conv_all_nth)
  with RespValue.prems w show ?case
    by (auto simp: Equal_loop_list_all2 split: if_splits)
qed

lemma Equal_trans: "Equal u v \<Longrightarrow> Equal v w \<Longrightarrow> Equal u w"
proof (induction u arbitrary: v w rule: value_induct)
  case (RespValue t s n b a)
  obtain t' s' n' b' a' where v: "v = RespValue t' s' n' b' a'" by (cases v)
  obtain t'' s'' n'' b'' a'' where w: "w = RespValue t'' s'' n'' b'' a''" by (cases w)
  have "list_all2 Equal (opt_list a) (opt_list a') \<Longrightarrow>
      list_all2 Equal (opt_list a') (opt_list a'') \<Longrightarrow> list_all2 Equal (opt_list a) (opt_list a'')"
    using RespValue.IH by (auto simp: list_all2_conv_all_nth)
  with RespValue.prems v w show ?case
    by (auto simp: Equal_loop_list_all2 split: if_splits)
qed

section \<open>Integers as bytes\<close>

text \<open>
  The digit loop writes into a 20-byte array from its end; the model keeps the part written so far,
  \<^verbatim>\<open>buf[i:]\<close>. \<^verbatim>\<open>n = -n\<close> wraps around for the least 64-bit integer, and the loop condition
  \<^verbatim>\<open>n > 0\<close> is signed.
\<close>

function int64_digits :: "int64 \<Rightarrow> bytes \<Rightarrow> bytes" where
  "int64_digits n buf =
     (if 0 < sint n then int64_digits (n div 10) (digit_byte (unat (n mod 10)) # buf) else buf)"
  by pat_completeness auto
termination
  by (relation "measure (\<lambda>(n, buf). unat n)") (auto simp: unat_div dest: sint_pos_unat64)

declare int64_digits.simps [simp del]

definition int64ToBytes :: "int64 \<Rightarrow> bytes" where
  "int64ToBytes n =
     (if n = 0 then ''0''
      else
        let neg = sint n < 0;
            m = (if neg then - n else n);
            buf = int64_digits m []
        in if neg then CHR ''-'' # buf else buf)"

lemma int64_digits_formatUint:
  "0 < sint n \<Longrightarrow> int64_digits n buf = formatUint (nat (sint n)) @ buf"
proof (induction n buf rule: int64_digits.induct)
  case (1 n buf)
  let ?m = "nat (sint n)"
  have u: "unat n = ?m"
    using 1(2) by (simp add: unat_eq_sint64)
  have d: "sint (n div 10) = int (?m div 10)"
  proof -
    have "unat (n div 10) = ?m div 10"
      by (simp add: unat_div u)
    moreover have "?m div 10 < 2 ^ 63"
      using unat_lt_2p63 [of n] 1(2) u by simp
    ultimately show ?thesis
      by (simp add: sint_eq_unat64)
  qed
  have m: "unat (n mod 10) = ?m mod 10"
    by (simp add: unat_mod u)
  show ?case
  proof (cases "?m < 10")
    case True
    then show ?thesis
      using 1(2) d m by (simp add: int64_digits.simps [of n] int64_digits.simps [of "n div 10"]
          formatUint_small)
  next
    case False
    then have "0 < sint (n div 10)" using d by simp
    with 1 have "int64_digits (n div 10) (digit_byte (unat (n mod 10)) # buf) =
        formatUint (?m div 10) @ digit_byte (unat (n mod 10)) # buf"
      using d by simp
    with False 1(2) m show ?thesis
      by (simp add: int64_digits.simps [of n] formatUint.simps [of ?m])
  qed
qed

lemma int64ToBytes_formatInt:
  assumes "sint n \<noteq> - (2 ^ 63)"
  shows "int64ToBytes n = formatInt n"
proof (cases "n = 0")
  case True
  then show ?thesis
    by (simp add: int64ToBytes_def formatInt_def formatUint_small)
next
  case False
  then have "sint n \<noteq> 0" using sint_eq_iff64 [of n 0] by auto
  then consider "sint n < 0" | "0 < sint n" by linarith
  then show ?thesis
  proof cases
    case 1
    with assms have "int64_digits (- n) [] = formatUint (nat (- sint n))"
      using int64_digits_formatUint [of "- n" "[]"] sint_uminus64 [of n] by simp
    with 1 False show ?thesis by (simp add: int64ToBytes_def formatInt_def)
  next
    case 2
    with False show ?thesis
      by (simp add: int64ToBytes_def formatInt_def int64_digits_formatUint)
  qed
qed

lemma int64ToBytes_min: "int64ToBytes (word_of_int (- (2 ^ 63))) = ''-''"
  by (simp add: int64ToBytes_def int64_digits.simps)

lemma length_int64ToBytes: "length (int64ToBytes n) \<le> 20"
proof (cases "sint n = - (2 ^ 63)")
  case True
  then have "int64ToBytes n = ''-''"
    by (simp only: sint_eq_iff64 [OF True] int64ToBytes_min)
  then show ?thesis by simp
next
  case False
  then show ?thesis by (simp add: int64ToBytes_formatInt length_formatInt)
qed

section \<open>Command names\<close>

text \<open>
  \<^verbatim>\<open>strings.ToLower\<close> of the standard library lower-cases an ASCII string byte by byte; on other
  strings it maps every code point through the Unicode tables, which is the parameter \<open>uni\<close>
  (the tables are not under \<^verbatim>\<open>src/\<close>). Nothing is assumed of \<open>uni\<close>.
\<close>

definition is_ascii :: "byte \<Rightarrow> bool" where
  "is_ascii c \<longleftrightarrow> (of_char c :: nat) < 128"

definition is_upper :: "byte \<Rightarrow> bool" where
  "is_upper c \<longleftrightarrow> 65 \<le> (of_char c :: nat) \<and> (of_char c :: nat) \<le> 90"

definition lower_byte :: "byte \<Rightarrow> byte" where
  "lower_byte c = (if is_upper c then char_of ((of_char c :: nat) + 32) else c)"

definition strings_ToLower :: "(bytes \<Rightarrow> bytes) \<Rightarrow> bytes \<Rightarrow> bytes" where
  "strings_ToLower uni s = (if list_all is_ascii s then map lower_byte s else uni s)"

text \<open>
  The code's own two loops: the outer one looks for the first byte that is not ASCII or is an
  upper-case letter (\<open>pre\<close> is \<^verbatim>\<open>raw[:i]\<close>), the inner one fills \<^verbatim>\<open>buf\<close> from there and gives up
  (\<open>None\<close>) at a byte that is not ASCII.
\<close>

fun normalize_fill :: "bytes \<Rightarrow> bytes \<Rightarrow> bytes option" where
  "normalize_fill [] buf = Some buf"
| "normalize_fill (c # cs) buf =
     (if \<not> is_ascii c then None
      else if is_upper c then normalize_fill cs (buf @ [char_of ((of_char c :: nat) + 32)])
      else normalize_fill cs (buf @ [c]))"

fun normalize_scan :: "(bytes \<Rightarrow> bytes) \<Rightarrow> bytes \<Rightarrow> bytes \<Rightarrow> bytes \<Rightarrow> bytes" where
  "normalize_scan uni raw pre [] = raw"
| "normalize_scan uni raw pre (b # rest) =
     (if \<not> is_ascii b then strings_ToLower uni raw
      else if is_upper b then
        (case normalize_fill rest (pre @ [char_of ((of_char b :: nat) + 32)]) of
           None \<Rightarrow> strings_ToLower uni raw
         | Some buf \<Rightarrow> buf)
      else normalize_scan uni raw (pre @ [b]) rest)"

definition NormalizeCommandNameBytes :: "(bytes \<Rightarrow> bytes) \<Rightarrow> bytes \<Rightarrow> bytes" where
  "NormalizeCommandNameBytes uni raw = (if length raw = 0 then [] else normalize_scan uni raw [] raw)"

definition NormalizeCommandNameString :: "(bytes \<Rightarrow> bytes) \<Rightarrow> bytes \<Rightarrow> bytes" where
  "NormalizeCommandNameString uni s = (if s = [] then [] else normalize_scan uni s [] s)"

lemma normalize_fill_eq:
  "normalize_fill cs buf = (if list_all is_ascii cs then Some (buf @ map lower_byte cs) else None)"
  by (induction cs arbitrary: buf) (auto simp: lower_byte_def)

lemma normalize_scan_eq:
  "raw = pre @ rest \<Longrightarrow> list_all is_ascii pre \<Longrightarrow> map lower_byte pre = pre \<Longrightarrow>
    normalize_scan uni raw pre rest = strings_ToLower uni raw"
  by (induction rest arbitrary: pre)
    (auto simp: normalize_fill_eq strings_ToLower_def lower_byte_def)

lemma NormalizeCommandNameBytes_eq: "NormalizeCommandNameBytes uni raw = strings_ToLower uni raw"
  by (simp add: NormalizeCommandNameBytes_def normalize_scan_eq) (simp add: strings_ToLower_def)

lemma NormalizeCommandNameString_eq: "NormalizeCommandNameString uni s = strings_ToLower uni s"
  by (simp add: NormalizeCommandNameString_def normalize_scan_eq) (simp add: strings_ToLower_def)

lemma not_upper_shift: "is_upper c \<Longrightarrow> \<not> is_upper (char_of ((of_char c :: nat) + 32))"
  by (simp add: is_upper_def)

lemma lower_byte_idem [simp]: "lower_byte (lower_byte c) = lower_byte c"
  by (simp add: lower_byte_def not_upper_shift)

lemma is_ascii_lower_byte [simp]: "is_ascii c \<Longrightarrow> is_ascii (lower_byte c)"
  by (auto simp: is_ascii_def lower_byte_def is_upper_def)

lemma strings_ToLower_ascii_idem:
  "list_all is_ascii s \<Longrightarrow> strings_ToLower uni (strings_ToLower uni' s) = strings_ToLower uni' s"
  by (auto simp: strings_ToLower_def list_all_iff)

definition CommandName :: "(bytes \<Rightarrow> bytes) \<Rightarrow> rvalue \<Rightarrow> bytes" where
  "CommandName uni v =
     (case opt_list (vArray v) of
        [] \<Rightarrow> []
      | first # _ \<Rightarrow>
          (if vType v \<noteq> TypeArray then []
           else if vType first = TypeBulkString then
             NormalizeCommandNameBytes uni (opt_list (vBulk first))
           else if vType first = TypeSimpleString then
             NormalizeCommandNameString uni (vStr first)
           else []))"

section \<open>Command arguments\<close>

text \<open>
  One argument per element after the first; an argument may be a nil slice (a null bulk string, or
  a nested array or null, whose \<^verbatim>\<open>Bulk\<close> field is nil). The result is nil exactly when it is empty.
\<close>

definition arg_bytes :: "rvalue \<Rightarrow> bytes option" where
  "arg_bytes elem =
     (if vType elem = TypeBulkString then vBulk elem
      else if vType elem = TypeSimpleString \<or> vType elem = TypeError then Some (vStr elem)
      else if vType elem = TypeInteger then Some (int64ToBytes (vInt elem))
      else vBulk elem)"

definition CommandArgs :: "rvalue \<Rightarrow> bytes option list" where
  "CommandArgs v =
     (if vType v \<noteq> TypeArray \<or> length (opt_list (vArray v)) \<le> 1 then []
      else map arg_bytes (drop 1 (opt_list (vArray v))))"

lemma length_CommandArgs:
  "vType v = TypeArray \<Longrightarrow> length (CommandArgs v) = length (opt_list (vArray v)) - 1"
  by (auto simp: CommandArgs_def)

section \<open>Properties\<close>

text \<open>
  \<^verbatim>\<open>Equal\<close> is symmetric and transitive, and reflexive exactly on the values whose types are all
  known: a value of another type is not equal to itself.
\<close>

theorem Equal_equivalence:
  "(Equal v v \<longleftrightarrow> known_types v) \<and> (Equal v w \<longleftrightarrow> Equal w v) \<and> (Equal u v \<longrightarrow> Equal v w \<longrightarrow> Equal u w)"
  using Equal_refl_iff Equal_sym Equal_trans by blast

theorem Equal_equivalence_witness:
  "Equal (ArrayOf [BulkBytes None]) (ArrayOf [BulkBytes (Some [])]) \<and>
    Equal (ArrayOf [BulkBytes (Some [])]) (ArrayOf [BulkBytes None])"
  using Equal_equivalence [of "ArrayOf [BulkBytes None]" "ArrayOf [BulkBytes (Some [])]" "ArrayOf [BulkBytes None]"]
  by (simp add: value_constructors)

text \<open>
  An integer argument reaches a command as the digits \<^verbatim>\<open>strconv\<close> prints, but for the least
  64-bit integer, which becomes a lone minus sign.
\<close>

theorem integer_argument_bytes:
  "arg_bytes (Integer n) = Some (if sint n = - (2 ^ 63) then ''-'' else formatInt n)"
proof (cases "sint n = - (2 ^ 63)")
  case True
  then have "int64ToBytes n = ''-''" by (simp only: sint_eq_iff64 [OF True] int64ToBytes_min)
  with True show ?thesis by (simp add: arg_bytes_def value_constructors)
next
  case False
  then show ?thesis by (simp add: arg_bytes_def value_constructors int64ToBytes_formatInt)
qed

text \<open>
  The name of a command is lower-cased as by \<^verbatim>\<open>strings.ToLower\<close>, on the byte path and on the string
  path, whatever the bytes and whatever the Unicode tables say.
\<close>

theorem command_name_lowercase:
  "CommandName uni (ArrayOf (BulkFromString raw # vs)) = strings_ToLower uni raw \<and>
    CommandName uni (ArrayOf (SimpleString raw # vs)) = strings_ToLower uni raw"
  by (simp add: CommandName_def value_constructors NormalizeCommandNameBytes_eq
      NormalizeCommandNameString_eq)

end
