(* ===== verification/Inline_Args.thy ===== *)
theory Inline_Args
  imports Resp_Value
begin

text \<open>
  The inline (telnet) argument parser of \<^verbatim>\<open>internal/protocol/parser.go\<close>, \<^verbatim>\<open>parseInlineArgs\<close>, and the
  slices a zero-copy parser returns: a view of its input buffer, or memory of its own. The reference
  is a grammar of tokens (plain words and quoted strings); the lemmas show that the two nested loops
  recover the words of a rendered token list, escapes included.
\<close>

section \<open>Slices\<close>

datatype slice = View nat nat | Fresh bytes

fun deref :: "bytes \<Rightarrow> slice \<Rightarrow> bytes" where
  "deref buf (View lo hi) = sub buf lo hi"
| "deref buf (Fresh bs) = bs"

section \<open>The two loops\<close>

text \<open>
  The variables that live across the outer loop; \<open>il_args = []\<close> is the nil slice (an append never
  leaves it empty).
\<close>

record inline_state =
  il_args :: "slice list"
  il_quote :: bool
  il_quotech :: byte
  il_escape :: bool

text \<open>
  How the inner loop is left: \<^verbatim>\<open>return nil\<close>; \<^verbatim>\<open>continue outer\<close> with the line advanced by so many
  bytes; or at the end of the line, with the bytes of \<^verbatim>\<open>nline\<close>.
\<close>

datatype inline_exit =
    Return_nil
  | Continue_outer nat inline_state
  | End_of_line bytes inline_state

definition unescape :: "byte \<Rightarrow> byte" where
  "unescape c =
     (if c = CHR ''n'' then LF else if c = CHR ''r'' then CR else if c = CHR ''t'' then TAB else c)"

fun inline_inner :: "inline_state \<Rightarrow> nat \<Rightarrow> bytes \<Rightarrow> bytes \<Rightarrow> inline_exit" where
  "inline_inner st i nline [] = End_of_line nline st"
| "inline_inner st i nline (c # rest) =
     (if \<not> il_quote st then
        (if c = SP then
           Continue_outer (Suc i)
             (if 0 < length nline then st\<lparr>il_args := il_args st @ [Fresh nline]\<rparr> else st)
         else if c = DQUOTE \<or> c = SQUOTE then
           (if i \<noteq> 0 then Return_nil
            else Continue_outer (Suc i) (st\<lparr>il_quotech := c, il_quote := True\<rparr>))
         else inline_inner st (Suc i) (nline @ [c]) rest)
      else if il_escape st then
        inline_inner (st\<lparr>il_escape := False\<rparr>) (Suc i) (nline @ [unescape c]) rest
      else if c = il_quotech st then
        (if rest \<noteq> [] \<and> hd rest \<noteq> SP then Return_nil
         else Continue_outer (Suc i)
           (st\<lparr>il_quote := False, il_quotech := CHR 0x00, il_args := il_args st @ [Fresh nline]\<rparr>))
      else if c = BACKSLASH then inline_inner (st\<lparr>il_escape := True\<rparr>) (Suc i) nline rest
      else inline_inner st (Suc i) (nline @ [c]) rest)"

lemma inline_inner_advance:
  "inline_inner st i nline rest = Continue_outer k st' \<Longrightarrow> i < k \<and> k \<le> i + length rest"
  by (induction st i nline rest rule: inline_inner.induct) (auto split: if_splits)

text \<open>
  The outer loop; \<open>off\<close> is where \<^verbatim>\<open>line\<close> starts in the buffer. The last word of a line is appended as
  \<^verbatim>\<open>line\<close> itself, a view, not as \<^verbatim>\<open>nline\<close>.
\<close>

function inline_outer :: "inline_state \<Rightarrow> nat \<Rightarrow> bytes \<Rightarrow> slice list" where
  "inline_outer st off line =
     (if length line = 0 then il_args st
      else case inline_inner st 0 [] line of
        Return_nil \<Rightarrow> []
      | Continue_outer k st' \<Rightarrow> inline_outer st' (off + k) (drop k line)
      | End_of_line nline st' \<Rightarrow>
          (if il_quote st' then []
           else if 0 < length line then il_args st' @ [View off (off + length line)]
           else il_args st'))"
  by pat_completeness auto
termination
  by (relation "measure (\<lambda>(st, off, line). length line)") (auto dest: inline_inner_advance)

declare inline_outer.simps [simp del]

definition inline_init :: inline_state where
  "inline_init = \<lparr>il_args = [], il_quote = False, il_quotech = CHR 0x00, il_escape = False\<rparr>"

definition parseInlineArgs :: "nat \<Rightarrow> bytes \<Rightarrow> slice list" where
  "parseInlineArgs off line = inline_outer inline_init off line"

section \<open>Views stay inside the line\<close>

fun slice_within :: "nat \<Rightarrow> nat \<Rightarrow> slice \<Rightarrow> bool" where
  "slice_within lo hi (View a b) \<longleftrightarrow> lo \<le> a \<and> a \<le> b \<and> b \<le> hi"
| "slice_within lo hi (Fresh bs) \<longleftrightarrow> True"

lemma slice_within_mono: "slice_within lo hi s \<Longrightarrow> lo' \<le> lo \<Longrightarrow> hi \<le> hi' \<Longrightarrow> slice_within lo' hi' s"
  by (cases s) auto

lemma deref_prefix: "slice_within lo hi s \<Longrightarrow> hi \<le> length buf \<Longrightarrow> deref (buf @ suf) s = deref buf s"
  by (cases s) (auto simp: slice_simps)

lemma inline_inner_within:
  "inline_inner st i nline rest = Continue_outer k st' \<Longrightarrow> list_all (slice_within lo hi) (il_args st) \<Longrightarrow>
    list_all (slice_within lo hi) (il_args st')"
  "inline_inner st i nline rest = End_of_line nl st' \<Longrightarrow> il_args st' = il_args st"
  by (induction st i nline rest rule: inline_inner.induct) (auto split: if_splits)

lemma inline_outer_within:
  "list_all (slice_within lo (off + length line)) (il_args st) \<Longrightarrow> lo \<le> off \<Longrightarrow>
    list_all (slice_within lo (off + length line)) (inline_outer st off line)"
proof (induction st off line rule: inline_outer.induct)
  case (1 st off line)
  show ?case
  proof (cases "inline_inner st 0 [] line")
    case (Continue_outer k st')
    then have "k \<le> length line" using inline_inner_advance by fastforce
    with 1 Continue_outer inline_inner_within(1) [OF Continue_outer] show ?thesis
      by (subst inline_outer.simps) auto
  qed (use 1 inline_inner_within(2) in \<open>subst inline_outer.simps, auto\<close>)+
qed

lemma parseInlineArgs_within:
  "list_all (slice_within off (off + length line)) (parseInlineArgs off line)"
  unfolding parseInlineArgs_def by (rule inline_outer_within) (auto simp: inline_init_def)

section \<open>A grammar of inline lines\<close>

datatype token = Plain bytes | Quoted byte bytes

definition escape_byte :: "byte \<Rightarrow> byte \<Rightarrow> bytes" where
  "escape_byte q c =
     (if c = q \<or> c = BACKSLASH then [BACKSLASH, c]
      else if c = LF then [BACKSLASH, CHR ''n'']
      else if c = CR then [BACKSLASH, CHR ''r'']
      else if c = TAB then [BACKSLASH, CHR ''t'']
      else [c])"

fun render_token :: "token \<Rightarrow> bytes" where
  "render_token (Plain w) = w"
| "render_token (Quoted q w) = q # concat (map (escape_byte q) w) @ [q]"

fun token_ok :: "token \<Rightarrow> bool" where
  "token_ok (Plain w) \<longleftrightarrow> w \<noteq> [] \<and> list_all (\<lambda>c. c \<notin> {SP, DQUOTE, SQUOTE}) w"
| "token_ok (Quoted q w) \<longleftrightarrow> q \<in> {DQUOTE, SQUOTE}"

fun token_val :: "token \<Rightarrow> bytes" where
  "token_val (Plain w) = w"
| "token_val (Quoted q w) = w"

text \<open>A line: each token after so many spaces, one space between tokens, \<open>k\<close> spaces at the end.\<close>

fun render_line :: "(nat \<times> token) list \<Rightarrow> nat \<Rightarrow> bytes" where
  "render_line [] k = replicate k SP"
| "render_line ((n, t) # ts) k =
     replicate n SP @ render_token t @
     (if ts = [] then replicate k SP else SP # render_line ts k)"

text \<open>The state between two words.\<close>

definition clean :: "slice list \<Rightarrow> inline_state" where
  "clean args = \<lparr>il_args = args, il_quote = False, il_quotech = CHR 0x00, il_escape = False\<rparr>"

definition in_quote :: "slice list \<Rightarrow> byte \<Rightarrow> inline_state" where
  "in_quote args q = \<lparr>il_args = args, il_quote = True, il_quotech = q, il_escape = False\<rparr>"

lemma inline_outer_Nil [simp]: "inline_outer (clean args) off [] = args"
  by (simp add: inline_outer.simps clean_def)

lemma inline_outer_spaces:
  "inline_outer (clean args) off (replicate n SP @ line) = inline_outer (clean args) (off + n) line"
  by (induction n arbitrary: off) (simp_all add: inline_outer.simps [of _ _ "SP # _"] clean_def)

lemma inline_inner_plain:
  "list_all (\<lambda>c. c \<notin> {SP, DQUOTE, SQUOTE}) w \<Longrightarrow>
    inline_inner (clean args) i nline (w @ rest) =
      inline_inner (clean args) (i + length w) (nline @ w) rest"
  by (induction w arbitrary: i nline) (auto simp: clean_def)

lemma inline_outer_plain:
  assumes "token_ok (Plain w)"
  shows "inline_outer (clean args) off (w @ SP # rest) =
      inline_outer (clean (args @ [Fresh w])) (off + length w + 1) rest"
    and "inline_outer (clean args) off w = args @ [View off (off + length w)]"
proof -
  have inner: "inline_inner (clean args) 0 [] (w @ r) = inline_inner (clean args) (length w) w r" for r
    using assms inline_inner_plain [of w args 0 "[]" r] by simp
  show "inline_outer (clean args) off (w @ SP # rest) =
      inline_outer (clean (args @ [Fresh w])) (off + length w + 1) rest"
    using assms by (simp add: inline_outer.simps [of _ _ "w @ SP # rest"] inner)
      (simp add: clean_def inline_outer.simps [of _ _ "[]"])
  show "inline_outer (clean args) off w = args @ [View off (off + length w)]"
    using assms inner [of "[]"] by (simp add: inline_outer.simps [of _ _ w]) (simp add: clean_def)
qed

lemma inline_inner_escaped:
  assumes "q \<in> {DQUOTE, SQUOTE}"
  shows "inline_inner (in_quote args q) i nline (concat (map (escape_byte q) w) @ rest) =
    inline_inner (in_quote args q) (i + length (concat (map (escape_byte q) w))) (nline @ w) rest"
proof (induction w arbitrary: i nline)
  case (Cons c w)
  have "inline_inner (in_quote args q) i nline (escape_byte q c @ rest') =
      inline_inner (in_quote args q) (i + length (escape_byte q c)) (nline @ [c]) rest'" for rest'
    using assms by (auto simp: in_quote_def escape_byte_def unescape_def)
  with Cons show ?case by (simp add: add.assoc)
qed simp

lemma inline_outer_quoted:
  assumes q: "q \<in> {DQUOTE, SQUOTE}" and rest: "rest = [] \<or> hd rest = SP"
  shows "inline_outer (clean args) off (render_token (Quoted q w) @ rest) =
    inline_outer (clean (args @ [Fresh w])) (off + length (render_token (Quoted q w))) rest"
proof -
  let ?e = "concat (map (escape_byte q) w)"
  have "inline_outer (clean args) off (q # ?e @ q # rest) =
      inline_outer (in_quote args q) (Suc off) (?e @ q # rest)"
    using q by (auto simp: inline_outer.simps [of _ _ "q # _"] clean_def in_quote_def)
  also have "\<dots> = inline_outer (clean (args @ [Fresh w])) (Suc off + Suc (length ?e)) rest"
  proof -
    have "inline_inner (in_quote args q) 0 [] (?e @ q # rest) =
        Continue_outer (Suc (length ?e)) (clean (args @ [Fresh w]))"
      using inline_inner_escaped [OF q, of args 0 "[]" w "q # rest"] rest
      by (auto simp: in_quote_def clean_def)
    then show ?thesis by (simp add: inline_outer.simps [of _ _ "?e @ q # rest"])
  qed
  finally show ?thesis by simp
qed

text \<open>The outer loop over a rendered line, at its place in a buffer.\<close>

lemma inline_outer_render:
  assumes "list_all (token_ok \<circ> snd) ts"
  shows "map (deref (pre @ render_line ts k @ post))
      (inline_outer (clean args) (length pre) (render_line ts k)) =
    map (deref (pre @ render_line ts k @ post)) args @ map (token_val \<circ> snd) ts"
  using assms
proof (induction ts k arbitrary: pre args rule: render_line.induct)
  case (1 k)
  then show ?case
    using inline_outer_spaces [of args "length pre" k "[]"] by simp
next
  case (2 n t ts k)
  let ?tail = "if ts = [] then replicate k SP else SP # render_line ts k"
  let ?sp = "replicate n SP"
  define buf where "buf = pre @ render_line ((n, t) # ts) k @ post"
  have skip: "inline_outer (clean args) (length pre) (render_line ((n, t) # ts) k) =
      inline_outer (clean args) (length pre + n) (render_token t @ ?tail)"
    using inline_outer_spaces [of args "length pre" n] by simp
  have word: "map (deref buf) (inline_outer (clean args') (length pre + n + length (render_token t))
      ?tail) = map (deref buf) args' @ map (token_val \<circ> snd) ts" for args'
  proof (cases "ts = []")
    case True
    then show ?thesis
      using inline_outer_spaces [of args' "length pre + n + length (render_token t)" k "[]"] by simp
  next
    case False
    then have "inline_outer (clean args') (length pre + n + length (render_token t)) ?tail =
        inline_outer (clean args') (length pre + n + length (render_token t) + 1) (render_line ts k)"
      using inline_outer_spaces [of args' "length pre + n + length (render_token t)" 1] by simp
    then show ?thesis
      using 2 False "2.IH" [OF False, of "pre @ ?sp @ render_token t @ [SP]" args']
      by (simp add: buf_def add.assoc)
  qed
  show ?case
  proof (cases t)
    case (Quoted q w)
    have "?tail = [] \<or> hd ?tail = SP" by (cases k) auto
    with Quoted 2 have "inline_outer (clean args) (length pre + n) (render_token t @ ?tail) =
        inline_outer (clean (args @ [Fresh w])) (length pre + n + length (render_token t)) ?tail"
      using inline_outer_quoted [of q ?tail args "length pre + n" w] by simp
    then show ?thesis
      using Quoted skip word [of "args @ [Fresh w]"] by (simp add: buf_def del: render_line.simps)
  next
    case (Plain w)
    with 2 have ok: "token_ok (Plain w)" by simp
    show ?thesis
    proof (cases "?tail")
      case Nil
      then have "ts = []" "k = 0" by (auto split: if_splits)
      then show ?thesis
        using Plain skip inline_outer_plain(2) [OF ok, of args "length pre + n"]
        by (simp add: slice_simps)
          (metis append.assoc length_append length_replicate sub_append)
    next
      case (Cons c rest)
      then have c: "c = SP" by (cases k) (auto split: if_splits)
      have "inline_outer (clean args') (length pre + n + length w) (SP # rest) =
          inline_outer (clean args') (length pre + n + length w + 1) rest" for args'
        using inline_outer_spaces [of args' _ 1 rest] by simp
      with Plain c Cons have "inline_outer (clean args) (length pre + n) (render_token t @ ?tail) =
          inline_outer (clean (args @ [Fresh w])) (length pre + n + length (render_token t)) ?tail"
        using inline_outer_plain(1) [OF ok, of args "length pre + n" rest] by simp
      then show ?thesis
        using Plain skip word [of "args @ [Fresh w]"] by (simp add: buf_def del: render_line.simps)
    qed
  qed
qed

section \<open>Properties\<close>

text \<open>
  C27: An inline command line made of words and quoted strings, separated and surrounded by spaces,
  splits into exactly the words and the unescaped contents of the quotes, wherever the line lies in
  the buffer.
\<close>

theorem inline_args_round_trip:
  assumes "list_all (token_ok \<circ> snd) ts"
  shows "map (deref (pre @ render_line ts k @ post)) (parseInlineArgs (length pre) (render_line ts k)) =
    map (token_val \<circ> snd) ts"
  using inline_outer_render [OF assms, of pre k post "[]"]
  by (simp add: parseInlineArgs_def inline_init_def clean_def)

theorem inline_args_round_trip_witness:
  "map (deref (''xy'' @ render_line [(1, Plain ''SET''), (0, Quoted DQUOTE ''a b'')] 2 @ CRLF))
      (parseInlineArgs (length ''xy'') (render_line [(1, Plain ''SET''), (0, Quoted DQUOTE ''a b'')] 2)) =
    [''SET'', ''a b'']"
  using inline_args_round_trip [of "[(1, Plain ''SET''), (0, Quoted DQUOTE ''a b'')]" "''xy''" 2 CRLF]
  by simp

text \<open>A quote that opens at the end of the line is dropped without a trace.\<close>

lemma lone_quote_dropped:
  "parseInlineArgs off (''PING '' @ [DQUOTE]) = parseInlineArgs off ''PING ''"
  by (simp add: parseInlineArgs_def inline_init_def inline_outer.simps)

end
