(* ===== verification/Protocol_Parser.thy ===== *)
theory Protocol_Parser
  imports Inline_Args
begin

text \<open>
  The parser of \<^verbatim>\<open>internal/protocol/parser.go\<close>. A parse starts at a position of the buffer and
  returns the value (\<open>None\<close> for \<^verbatim>\<open>ok = false\<close>) with the new position, or a panic. Positions are
  natural numbers; the one addition the code makes with a number taken from the input,
  \<^verbatim>\<open>dataEnd := dataStart + int(bulkLen)\<close>, is on 64-bit words and wraps around. Bulk strings of the
  result are views into the buffer. The field \<^verbatim>\<open>marks\<close> of the parser is only ever reset here.
  Lemmas: every complete value ends after the position it starts at and inside the buffer, a failed
  parse leaves the position alone, and bytes that arrive later never change a complete parse.
\<close>

section \<open>Lines and numbers\<close>

text \<open>
  \<^verbatim>\<open>findCRLF\<close> returns the index of the line feed (\<open>None\<close> for \<^verbatim>\<open>-1\<close>).
\<close>

function findCRLF :: "bytes \<Rightarrow> nat \<Rightarrow> nat option" where
  "findCRLF buf i =
     (if i + 1 < length buf then
        (if buf ! i = CR \<and> buf ! (i + 1) = LF then Some (i + 1) else findCRLF buf (i + 1))
      else None)"
  by pat_completeness auto
termination
  by (relation "measure (\<lambda>(buf, i). length buf - i)") auto

declare findCRLF.simps [simp del]

fun digits_loop :: "bytes \<Rightarrow> int64 \<Rightarrow> int64 option" where
  "digits_loop [] n = Some n"
| "digits_loop (c # cs) n =
     (if \<not> is_digit c then None else digits_loop cs (n * 10 + word_of_nat (digit_val c)))"

text \<open>\<^verbatim>\<open>parseIntBuf\<close> returns an \<^verbatim>\<open>int\<close> and \<^verbatim>\<open>parseInt64\<close> an \<^verbatim>\<open>int64\<close>: both are 64 bits.\<close>

definition parseIntBuf :: "bytes \<Rightarrow> int64 option" where
  "parseIntBuf b =
     (if length b = 0 then None
      else if length b = 1 \<and> is_digit (b ! 0) then Some (word_of_nat (digit_val (b ! 0)))
      else
        let sign = (b ! 0 = CHR ''-'');
            i = (if b ! 0 = CHR ''-'' then 1 else if b ! 0 = CHR ''+'' then 1 else 0)
        in if length b \<le> i then None
           else case digits_loop (drop i b) 0 of
             None \<Rightarrow> None
           | Some n \<Rightarrow> Some (if sign then n * - 1 else n))"

definition parseInt64 :: "bytes \<Rightarrow> int64 option" where
  "parseInt64 b =
     (if length b = 0 then None
      else if length b = 1 \<and> is_digit (b ! 0) then Some (word_of_nat (digit_val (b ! 0)))
      else
        let sign = (b ! 0 = CHR ''-'');
            i = (if b ! 0 = CHR ''-'' then 1 else if b ! 0 = CHR ''+'' then 1 else 0)
        in if length b \<le> i then None
           else case digits_loop (drop i b) 0 of
             None \<Rightarrow> None
           | Some n \<Rightarrow> Some (if sign then n * - 1 else n))"

section \<open>Simple strings, errors, integers, bulk strings, inline commands\<close>

type_synonym pvalue = "slice resp_value"
type_synonym presult = "(pvalue option \<times> nat) go"

text \<open>The line after the type byte, without its CRLF.\<close>

definition line_of :: "bytes \<Rightarrow> nat \<Rightarrow> nat \<Rightarrow> bytes" where
  "line_of buf pos lineEnd = sub buf (pos + 1) (lineEnd - 1)"

definition parseSimpleString :: "bytes \<Rightarrow> nat \<Rightarrow> presult" where
  "parseSimpleString buf pos =
     (case findCRLF buf (pos + 1) of
        None \<Rightarrow> Inr (None, pos)
      | Some lineEnd \<Rightarrow> Inr (Some (SimpleString (line_of buf pos lineEnd)), lineEnd + 1))"

definition parseError :: "bytes \<Rightarrow> nat \<Rightarrow> presult" where
  "parseError buf pos =
     (case findCRLF buf (pos + 1) of
        None \<Rightarrow> Inr (None, pos)
      | Some lineEnd \<Rightarrow> Inr (Some (Error (line_of buf pos lineEnd)), lineEnd + 1))"

definition parseInt :: "bytes \<Rightarrow> nat \<Rightarrow> presult" where
  "parseInt buf pos =
     (case findCRLF buf (pos + 1) of
        None \<Rightarrow> Inr (None, pos)
      | Some lineEnd \<Rightarrow>
          (case parseInt64 (line_of buf pos lineEnd) of
             None \<Rightarrow> Inr (None, pos)
           | Some n \<Rightarrow> Inr (Some (Integer n), lineEnd + 1)))"

text \<open>
  \<open>dataEnd\<close> is the wrapped sum; the two indexings and the slice expression panic when
  they are out of range.
\<close>

definition parseBulkData :: "bytes \<Rightarrow> nat \<Rightarrow> nat \<Rightarrow> int64 \<Rightarrow> presult" where
  "parseBulkData buf pos dataStart bulkLen =
     (let dataEnd = word_of_nat dataStart + bulkLen;
          e = unat dataEnd
      in if int (length buf) < sint (dataEnd + 2) then Inr (None, pos)
         else if sint dataEnd < 0 \<or> length buf \<le> e then Inl Index_out_of_range
         else if buf ! e \<noteq> CR then Inr (None, pos)
         else if length buf \<le> e + 1 then Inl Index_out_of_range
         else if buf ! (e + 1) \<noteq> LF then Inr (None, pos)
         else if e < dataStart then Inl Slice_bounds_out_of_range
         else Inr (Some (BulkBytes (Some (View dataStart e))), e + 2))"

definition parseBulkString :: "bytes \<Rightarrow> nat \<Rightarrow> presult" where
  "parseBulkString buf pos =
     (case findCRLF buf (pos + 1) of
        None \<Rightarrow> Inr (None, pos)
      | Some lineEnd \<Rightarrow>
          (case parseInt64 (line_of buf pos lineEnd) of
             None \<Rightarrow> Inr (None, pos)
           | Some bulkLen \<Rightarrow>
               (if bulkLen = - 1 then Inr (Some Null, lineEnd + 1)
                else if sint bulkLen < 0 then Inr (None, pos)
                else parseBulkData buf pos (lineEnd + 1) bulkLen)))"

text \<open>
  The line feed is always preceded by a carriage return, so the first branch of the code's
  conditional is the one that runs; both are kept.
\<close>

definition parseInlineCommand :: "bytes \<Rightarrow> nat \<Rightarrow> presult" where
  "parseInlineCommand buf pos =
     (case findCRLF buf pos of
        None \<Rightarrow> Inr (None, pos)
      | Some newlinePos \<Rightarrow>
          let line = (if pos < newlinePos \<and> buf ! (newlinePos - 1) = CR
                      then sub buf pos (newlinePos - 1) else sub buf pos newlinePos);
              args = parseInlineArgs pos line
          in if length args = 0 then Inr (Some (RespValue TypeArray [] 0 None None), newlinePos + 1)
             else Inr (Some (RespValue TypeArray [] 0 None
                    (Some (map (\<lambda>arg. BulkBytes (Some arg)) args))), newlinePos + 1))"

section \<open>Arrays\<close>

text \<open>
  \<^verbatim>\<open>make([]RespValue, 0, count)\<close>: a \<^verbatim>\<open>RespValue\<close> is 80 bytes (8 for the padded type, 16 for the
  string, 8 for the integer, 24 for each slice), and the runtime panics when the capacity needs more
  than the 2^48 bytes of its 64-bit address space.
\<close>

definition makeslice_panics :: "int64 \<Rightarrow> bool" where
  "makeslice_panics count \<longleftrightarrow> 2 ^ 48 < 80 * sint count"

text \<open>
  \<^verbatim>\<open>parseNext\<close>, \<^verbatim>\<open>parseArray\<close> and the loop of \<^verbatim>\<open>parseArray\<close> with \<open>n\<close> elements left to read. The branch
  for the null array is the code's, after the test that makes it unreachable.
\<close>

function parseNext :: "bytes \<Rightarrow> nat \<Rightarrow> presult"
  and parseArray :: "bytes \<Rightarrow> nat \<Rightarrow> presult"
  and parseElems :: "bytes \<Rightarrow> nat \<Rightarrow> nat \<Rightarrow> nat \<Rightarrow> pvalue list \<Rightarrow> presult" where
  "parseNext buf pos =
     (if length buf \<le> pos then Inr (None, pos)
      else if buf ! pos = CHR ''*'' then parseArray buf pos
      else if buf ! pos = CHR ''+'' then parseSimpleString buf pos
      else if buf ! pos = CHR ''-'' then parseError buf pos
      else if buf ! pos = CHR '':'' then parseInt buf pos
      else if buf ! pos = CHR ''$'' then parseBulkString buf pos
      else parseInlineCommand buf pos)"
| "parseArray buf pos =
     (case findCRLF buf (pos + 1) of
        None \<Rightarrow> Inr (None, pos)
      | Some lineEnd \<Rightarrow>
          (case parseIntBuf (line_of buf pos lineEnd) of
             None \<Rightarrow> Inr (None, pos)
           | Some count \<Rightarrow>
               (if sint count < 0 then Inr (None, pos)
                else if count = - 1 then Inr (Some Null, lineEnd + 1)
                else if makeslice_panics count then Inl Makeslice_cap_out_of_range
                else parseElems buf pos (unat count) (lineEnd + 1) [])))"
| "parseElems buf start n pos elements =
     (if n = 0 then Inr (Some (RespValue TypeArray [] 0 None (Some elements)), pos)
      else case parseNext buf pos of
        Inl p \<Rightarrow> Inl p
      | Inr (ov, pos') \<Rightarrow>
          (case ov of
             None \<Rightarrow> Inr (None, start)
           | Some elem \<Rightarrow> parseElems buf start (n - 1) pos' (elements @ [elem])))"
  by pat_completeness auto

lemma findCRLF_bounds: "findCRLF buf i = Some e \<Longrightarrow> i < e \<and> e < length buf"
proof (induction buf i rule: findCRLF.induct)
  case (1 buf i)
  then show ?case
    by (simp add: findCRLF.simps [of buf i] split: if_splits)
qed

lemma parse_line_progress:
  "parseSimpleString buf pos = Inr (Some v, p) \<Longrightarrow> pos < p \<and> p \<le> length buf"
  "parseError buf pos = Inr (Some v, p) \<Longrightarrow> pos < p \<and> p \<le> length buf"
  "parseInt buf pos = Inr (Some v, p) \<Longrightarrow> pos < p \<and> p \<le> length buf"
  "parseInlineCommand buf pos = Inr (Some v, p) \<Longrightarrow> pos < p \<and> p \<le> length buf"
  by (auto simp: parseSimpleString_def parseError_def parseInt_def parseInlineCommand_def Let_def
      dest!: findCRLF_bounds split: option.splits if_splits)

lemma parse_bulk_progress:
  "parseBulkString buf pos = Inr (Some v, p) \<Longrightarrow> pos < p \<and> p \<le> length buf"
  by (auto simp: parseBulkString_def parseBulkData_def Let_def dest!: findCRLF_bounds
      split: option.splits if_splits)

lemma parse_dom_advance:
  "parseNext_parseArray_parseElems_dom (Inl (buf, pos)) \<Longrightarrow>
    \<forall>v p. parseNext buf pos = Inr (Some v, p) \<longrightarrow> pos < p \<and> p \<le> length buf"
  "parseNext_parseArray_parseElems_dom (Inr (Inl (buf, pos))) \<Longrightarrow>
    \<forall>v p. parseArray buf pos = Inr (Some v, p) \<longrightarrow> pos < p \<and> p \<le> length buf"
  "parseNext_parseArray_parseElems_dom (Inr (Inr (buf, start, n, pos, es))) \<Longrightarrow>
    \<forall>v p. parseElems buf start n pos es = Inr (Some v, p) \<longrightarrow>
      pos \<le> p \<and> (pos \<le> length buf \<longrightarrow> p \<le> length buf)"
proof (induction rule: parseNext_parseArray_parseElems.pinduct)
  case (1 buf pos)
  then show ?case
    using parse_line_progress parse_bulk_progress
    by (simp add: parseNext.psimps)
next
  case (2 buf pos)
  then show ?case
    by (fastforce simp: parseArray.psimps dest!: findCRLF_bounds split: option.splits if_splits)
next
  case (3 buf start n pos es)
  then show ?case
    by (fastforce simp: parseElems.psimps split: option.splits if_splits sum.splits)
qed

termination parseNext
proof (relation "measures
    [\<lambda>x. case x of Inl (buf, pos) \<Rightarrow> length buf - pos
        | Inr (Inl (buf, pos)) \<Rightarrow> length buf - pos
        | Inr (Inr (buf, start, n, pos, es)) \<Rightarrow> length buf - pos,
     \<lambda>x. case x of Inl _ \<Rightarrow> 1 | Inr (Inl _) \<Rightarrow> 0 | Inr (Inr _) \<Rightarrow> 2,
     \<lambda>x. case x of Inr (Inr (buf, start, n, pos, es)) \<Rightarrow> n | _ \<Rightarrow> 0]", goal_cases)
  case (3 buf pos lineEnd count)
  then show ?case by (auto dest!: findCRLF_bounds)
next
  case (5 buf start n pos)
  then show ?case using parse_dom_advance(1) [of buf pos] by fastforce
qed auto

declare parseNext.simps [simp del] parseArray.simps [simp del] parseElems.simps [simp del]

lemmas parse_leaf_defs = parseSimpleString_def parseError_def parseInt_def parseBulkString_def
  parseBulkData_def parseInlineCommand_def

section \<open>Progress, bounds, failure\<close>

lemma parse_advance:
  "parseNext buf pos = Inr (Some v, p) \<Longrightarrow> pos < p \<and> p \<le> length buf"
  "parseArray buf pos = Inr (Some v, p) \<Longrightarrow> pos < p \<and> p \<le> length buf"
  "parseElems buf start n pos es = Inr (Some v, p) \<Longrightarrow>
    pos \<le> p \<and> (pos \<le> length buf \<longrightarrow> p \<le> length buf)"
proof (induction buf pos and buf pos and buf start n pos es arbitrary: v p and v p and v p
    rule: parseNext_parseArray_parseElems.induct)
  case (1 buf pos)
  from "1.prems" "1.IH" parse_line_progress parse_bulk_progress show ?case
    by (simp add: parseNext.simps split: if_splits)
next
  case (2 buf pos)
  then show ?case
    by (fastforce simp: parseArray.simps dest!: findCRLF_bounds split: option.splits if_splits)
next
  case (3 buf start n pos es)
  from "3.prems" "3.IH" show ?case
    by (fastforce simp: parseElems.simps [of buf start n] split: option.splits if_splits sum.splits)
qed

lemma parse_fail_pos:
  "parseNext buf pos = Inr (None, p) \<Longrightarrow> p = pos"
  "parseArray buf pos = Inr (None, p) \<Longrightarrow> p = pos"
  "parseElems buf start n pos es = Inr (None, p) \<Longrightarrow> p = start"
proof (induction buf pos and buf pos and buf start n pos es arbitrary: p and p and p
    rule: parseNext_parseArray_parseElems.induct)
  case (1 buf pos)
  then show ?case
    by (auto simp: parseNext.simps parse_leaf_defs Let_def split: if_splits option.splits)
next
  case (2 buf pos)
  then show ?case
    by (fastforce simp: parseArray.simps split: option.splits if_splits)
next
  case (3 buf start n pos es)
  then show ?case
    by (auto simp: parseElems.simps [of buf start n] split: option.splits if_splits sum.splits)
qed

section \<open>Later bytes do not change a complete parse\<close>

lemma findCRLF_append: "findCRLF buf i = Some e \<Longrightarrow> findCRLF (buf @ suf) i = Some e"
proof (induction buf i rule: findCRLF.induct)
  case (1 buf i)
  then show ?case
    by (auto simp: findCRLF.simps [of buf i] findCRLF.simps [of "buf @ suf" i] nth_append
        split: if_splits)
qed

lemma line_of_append:
  "findCRLF buf i = Some e \<Longrightarrow> line_of (buf @ suf) pos e = line_of buf pos e"
  by (auto dest!: findCRLF_bounds simp: line_of_def slice_simps)

lemma parse_leaf_append:
  "parseSimpleString buf pos = Inr (Some v, p) \<Longrightarrow> parseSimpleString (buf @ suf) pos = Inr (Some v, p)"
  "parseError buf pos = Inr (Some v, p) \<Longrightarrow> parseError (buf @ suf) pos = Inr (Some v, p)"
  "parseInt buf pos = Inr (Some v, p) \<Longrightarrow> parseInt (buf @ suf) pos = Inr (Some v, p)"
  by (auto simp: parse_leaf_defs findCRLF_append line_of_append split: option.splits)

lemma parseInlineCommand_append:
  "parseInlineCommand buf pos = Inr (Some v, p) \<Longrightarrow> parseInlineCommand (buf @ suf) pos = Inr (Some v, p)"
  by (auto simp: parseInlineCommand_def findCRLF_append Let_def nth_append slice_simps
      split: option.splits if_splits dest!: findCRLF_bounds)

lemma parseBulkData_append:
  "parseBulkData buf pos ds n = Inr (Some v, p) \<Longrightarrow> parseBulkData (buf @ suf) pos ds n = Inr (Some v, p)"
  unfolding parseBulkData_def Let_def nth_append length_append of_nat_add
  by (simp split: if_splits)

lemma parseBulkString_append:
  "parseBulkString buf pos = Inr (Some v, p) \<Longrightarrow> parseBulkString (buf @ suf) pos = Inr (Some v, p)"
  by (auto simp: parseBulkString_def findCRLF_append line_of_append parseBulkData_append
      split: option.splits if_splits)

lemma parse_append:
  "parseNext buf pos = Inr (Some v, p) \<Longrightarrow> parseNext (buf @ suf) pos = Inr (Some v, p)"
  "parseArray buf pos = Inr (Some v, p) \<Longrightarrow> parseArray (buf @ suf) pos = Inr (Some v, p)"
  "parseElems buf start n pos es = Inr (Some v, p) \<Longrightarrow>
    parseElems (buf @ suf) start n pos es = Inr (Some v, p)"
proof (induction buf pos and buf pos and buf start n pos es arbitrary: v p and v p and v p
    rule: parseNext_parseArray_parseElems.induct)
  case (1 buf pos)
  from "1.prems" "1.IH" parse_leaf_append parseInlineCommand_append parseBulkString_append
  show ?case
    by (simp add: parseNext.simps nth_append split: if_splits)
next
  case (2 buf pos)
  then show ?case
    by (auto simp: parseArray.simps findCRLF_append line_of_append split: option.splits if_splits)
next
  case (3 buf start n pos es)
  then show ?case
    by (auto simp: parseElems.simps [of _ start n] split: option.splits if_splits sum.splits)
qed

section \<open>The views of a value lie inside the bytes it was parsed from\<close>

lemma set_value_constructors [simp]:
  "set_resp_value (SimpleString s) = {}" "set_resp_value (Error s) = {}"
  "set_resp_value (Integer n) = {}" "set_resp_value Null = {}"
  "set_resp_value (BulkBytes (Some x)) = {x}"
  by (auto simp: value_constructors)

definition views_within :: "nat \<Rightarrow> nat \<Rightarrow> pvalue \<Rightarrow> bool" where
  "views_within lo hi v \<longleftrightarrow> (\<forall>s \<in> set_resp_value v. slice_within lo hi s)"

lemma views_within_mono: "views_within lo hi v \<Longrightarrow> lo' \<le> lo \<Longrightarrow> hi \<le> hi' \<Longrightarrow> views_within lo' hi' v"
  unfolding views_within_def using slice_within_mono by blast

lemma views_within_array:
  "views_within lo hi (RespValue t s n None (Some vs)) \<longleftrightarrow> list_all (views_within lo hi) vs"
  by (auto simp: views_within_def list_all_iff)

lemma parse_leaf_views:
  "parseSimpleString buf pos = Inr (Some v, p) \<Longrightarrow> views_within pos p v"
  "parseError buf pos = Inr (Some v, p) \<Longrightarrow> views_within pos p v"
  "parseInt buf pos = Inr (Some v, p) \<Longrightarrow> views_within pos p v"
  "parseBulkString buf pos = Inr (Some v, p) \<Longrightarrow> views_within pos p v"
  by (auto simp: parse_leaf_defs views_within_def Let_def dest!: findCRLF_bounds
      split: option.splits if_splits)

lemma parseInlineCommand_views:
  assumes "parseInlineCommand buf pos = Inr (Some v, p)"
  shows "views_within pos p v"
proof -
  obtain e where e: "findCRLF buf pos = Some e" "p = e + 1"
    using assms by (auto simp: parseInlineCommand_def Let_def split: option.splits if_splits)
  then have bounds: "pos < e" "e < length buf" by (auto dest: findCRLF_bounds)
  have within: "slice_within pos p x"
    if "x \<in> set (parseInlineArgs pos (sub buf pos hi))" "hi \<le> e" for x hi
  proof -
    have "slice_within pos (pos + length (sub buf pos hi)) x"
      using parseInlineArgs_within that(1) by (auto simp: list_all_iff)
    then show ?thesis
      by (rule slice_within_mono) (use that(2) bounds e(2) in \<open>simp_all add: length_sub\<close>)
  qed
  obtain hi where "hi \<le> e" "set_resp_value v = set (parseInlineArgs pos (sub buf pos hi))"
    using assms e
    by (cases "pos < e \<and> buf ! (e - 1) = CR")
      (auto simp: parseInlineCommand_def Let_def split: if_splits intro: that [of "e - 1"] that [of e])
  with within show ?thesis by (auto simp: views_within_def)
qed

lemma parse_views:
  "parseNext buf pos = Inr (Some v, p) \<Longrightarrow> views_within pos p v"
  "parseArray buf pos = Inr (Some v, p) \<Longrightarrow> views_within pos p v"
  "parseElems buf start n pos es = Inr (Some v, p) \<Longrightarrow> lo \<le> pos \<Longrightarrow>
    list_all (views_within lo pos) es \<Longrightarrow> views_within lo p v"
proof (induction buf pos and buf pos and buf start n pos es arbitrary: v p and v p and v p lo
    rule: parseNext_parseArray_parseElems.induct)
  case (1 buf pos)
  then show ?case
    using parse_leaf_views parseInlineCommand_views by (simp add: parseNext.simps split: if_splits)
next
  case (2 buf pos)
  then obtain lineEnd count where line: "findCRLF buf (pos + 1) = Some lineEnd"
      "parseIntBuf (line_of buf pos lineEnd) = Some count" "0 \<le> sint count"
    by (fastforce simp: parseArray.simps split: option.splits if_splits)
  show ?case
  proof (cases "count = - 1")
    case True
    with line show ?thesis by simp
  next
    case False
    with 2 line have "views_within (lineEnd + 1) p v"
      by (fastforce simp: parseArray.simps split: if_splits)
    with findCRLF_bounds [OF line(1)] show ?thesis by (auto intro: views_within_mono)
  qed
next
  case (3 buf start n pos es)
  show ?case
  proof (cases "n = 0")
    case True
    with 3 show ?thesis by (auto simp: parseElems.simps views_within_array)
  next
    case False
    with "3.prems" obtain elem pos' where elem: "parseNext buf pos = Inr (Some elem, pos')"
      and rest: "parseElems buf start (n - 1) pos' (es @ [elem]) = Inr (Some v, p)"
      by (auto simp: parseElems.simps [of buf start n] split: sum.splits option.splits)
    have "views_within pos pos' elem" by (rule "3.IH"(1) [OF False elem])
    moreover have pos': "pos < pos'" using parse_advance(1) [OF elem] by simp
    ultimately have "list_all (views_within lo pos') (es @ [elem])"
      using "3.prems"(2,3) views_within_mono [of lo pos _ lo pos'] views_within_mono [of pos pos']
      by (auto simp: list_all_iff)
    then show ?thesis
      by (rule "3.IH"(2) [OF False elem refl refl rest, rotated]) (use pos' "3.prems"(2) in simp)
  qed
qed

section \<open>Panics\<close>

text \<open>
  What the bulk branch does, with the wrap-around resolved: it panics exactly for the lengths whose
  end, with its CRLF, is past the largest 64-bit integer.
\<close>

lemma parseBulkData_spec:
  assumes small: "length buf < 2 ^ 63 - 2" and ds: "ds \<le> length buf" and n: "0 \<le> sint n"
  shows "parseBulkData buf pos ds n =
    (let e = ds + unat n in
     if 2 ^ 63 \<le> e + 2 then Inl Index_out_of_range
     else if length buf < e + 2 \<or> buf ! e \<noteq> CR \<or> buf ! (e + 1) \<noteq> LF then Inr (None, pos)
     else Inr (Some (BulkBytes (Some (View ds e))), e + 2))"
proof -
  define e where "e = ds + unat n"
  define w where "w = (word_of_nat (e + 2) :: int64)"
  have sum: "word_of_nat ds + n = (word_of_nat e :: int64)"
      "word_of_nat e + 2 = w"
    by (simp_all add: e_def w_def)
  have e64: "e + 2 < 2 ^ 64"
    using small ds unat_lt_2p63 [OF n] by (simp add: e_def)
  show ?thesis
  proof (cases "2 ^ 63 \<le> e + 2")
    case True
    then have neg: "sint w < 0"
      using e64 sint_of_nat64_neg [of "e + 2"] by (simp add: w_def)
    have out: "sint (word_of_nat e :: int64) < 0 \<or> length buf \<le> unat (word_of_nat e :: int64)"
    proof (cases "e < 2 ^ 63")
      case True
      then show ?thesis using \<open>2 ^ 63 \<le> e + 2\<close> small by (simp add: unat_of_nat64)
    next
      case False
      then have "sint (word_of_nat e :: int64) = int e - 2 ^ 64"
        using e64 by (intro sint_of_nat64_neg) simp_all
      then show ?thesis using e64 by simp
    qed
    show ?thesis
      unfolding parseBulkData_def Let_def sum e_def [symmetric] using True neg out by simp
  next
    case False
    then have "sint w = int (e + 2)"
      unfolding w_def by (intro sint_of_nat64) simp
    moreover from False have
        "sint (word_of_nat e :: int64) = int e" "unat (word_of_nat e :: int64) = e"
      by (auto intro!: sint_of_nat64 unat_of_nat64)
    moreover have "\<not> e < ds" by (simp add: e_def)
    ultimately show ?thesis
      unfolding parseBulkData_def Let_def sum e_def [symmetric] using False by simp
  qed
qed

lemma parseBulkString_panic_append:
  assumes "parseBulkString buf pos = Inl p" and "length (buf @ suf) < 2 ^ 63 - 2"
  shows "\<exists>q. parseBulkString (buf @ suf) pos = Inl q"
proof -
  obtain lineEnd n where line: "findCRLF buf (pos + 1) = Some lineEnd"
      "parseInt64 (line_of buf pos lineEnd) = Some n" "n \<noteq> - 1" "0 \<le> sint n"
      "parseBulkData buf pos (lineEnd + 1) n = Inl p"
    using assms(1) by (auto simp: parseBulkString_def split: option.splits if_splits)
  have "lineEnd + 1 \<le> length buf" using findCRLF_bounds [OF line(1)] by simp
  then have "parseBulkData (buf @ suf) pos (lineEnd + 1) n = Inl p"
    using line(4,5) assms(2) parseBulkData_spec [of buf "lineEnd + 1" n pos]
      parseBulkData_spec [of "buf @ suf" "lineEnd + 1" n pos]
    by (simp add: Let_def split: if_splits)
  with line show ?thesis
    by (simp add: parseBulkString_def findCRLF_append line_of_append)
qed

lemma parse_panic_append:
  "parseNext buf pos = Inl q \<Longrightarrow> length (buf @ suf) < 2 ^ 63 - 2 \<Longrightarrow>
    \<exists>q. parseNext (buf @ suf) pos = Inl q"
  "parseArray buf pos = Inl q \<Longrightarrow> length (buf @ suf) < 2 ^ 63 - 2 \<Longrightarrow>
    \<exists>q. parseArray (buf @ suf) pos = Inl q"
  "parseElems buf start n pos es = Inl q \<Longrightarrow> length (buf @ suf) < 2 ^ 63 - 2 \<Longrightarrow>
    \<exists>q. parseElems (buf @ suf) start n pos es = Inl q"
proof (induction buf pos and buf pos and buf start n pos es arbitrary: q and q and q
    rule: parseNext_parseArray_parseElems.induct)
  case (1 buf pos)
  then show ?case
    using parseBulkString_panic_append [of buf pos q suf]
    by (auto simp: parseNext.simps nth_append parseSimpleString_def parseError_def parseInt_def
        parseInlineCommand_def Let_def split: if_splits option.splits)
next
  case (2 buf pos)
  then show ?case
    by (auto simp: parseArray.simps findCRLF_append line_of_append split: option.splits if_splits)
next
  case (3 buf start n pos es)
  then show ?case
    using parse_append(1) [of buf pos]
    by (fastforce simp: parseElems.simps [of _ start n] split: option.splits if_splits sum.splits)
qed

section \<open>Whole buffers\<close>

definition ParseOne :: "bytes \<Rightarrow> (pvalue \<times> nat) option go" where
  "ParseOne buf =
     (case parseNext buf 0 of
        Inl p \<Rightarrow> Inl p
      | Inr (None, _) \<Rightarrow> Inr None
      | Inr (Some value, pos) \<Rightarrow> Inr (Some (value, pos)))"

text \<open>The package function \<^verbatim>\<open>ParseValue\<close> of \<^verbatim>\<open>types.go\<close>, on a parser of its own.\<close>

definition ParseValue :: "bytes \<Rightarrow> (pvalue \<times> nat) option go" where
  "ParseValue buf =
     (case parseNext buf 0 of
        Inl p \<Rightarrow> Inl p
      | Inr (None, _) \<Rightarrow> Inr None
      | Inr (Some value, pos) \<Rightarrow> Inr (Some (value, pos)))"

text \<open>\<^verbatim>\<open>Parse\<close>: all complete values from the start of the buffer, and the bytes consumed.\<close>

function Parse_loop :: "bytes \<Rightarrow> nat \<Rightarrow> pvalue list \<Rightarrow> (pvalue list \<times> nat) go" where
  "Parse_loop buf pos values =
     (if pos < length buf then
        (case parseNext buf pos of
           Inl p \<Rightarrow> Inl p
         | Inr (ov, pos') \<Rightarrow>
             (case ov of
                None \<Rightarrow> Inr (values, pos')
              | Some v \<Rightarrow> Parse_loop buf pos' (values @ [v])))
      else Inr (values, pos))"
  by pat_completeness auto
termination
  by (relation "measure (\<lambda>(buf, pos, values). length buf - pos)") (auto dest: parse_advance(1))

declare Parse_loop.simps [simp del]

definition Parse :: "bytes \<Rightarrow> (pvalue list \<times> nat) go" where
  "Parse buf = Parse_loop buf 0 []"

text \<open>Reading a value out of its buffer.\<close>

definition resolve :: "bytes \<Rightarrow> pvalue \<Rightarrow> rvalue" where
  "resolve buf v = map_resp_value (deref buf) v"

lemma resolve_append:
  "views_within lo hi v \<Longrightarrow> hi \<le> length buf \<Longrightarrow> resolve (buf @ suf) v = resolve buf v"
  unfolding resolve_def views_within_def
  by (rule resp_value.map_cong0) (auto intro: deref_prefix)

lemma resolve_constructors [simp]:
  "resolve buf (SimpleString s) = SimpleString s" "resolve buf (Error s) = Error s"
  "resolve buf (Integer n) = Integer n" "resolve buf Null = Null"
  "resolve buf (BulkBytes b) = BulkBytes (map_option (deref buf) b)"
  "resolve buf (RespValue t s n b a) =
    RespValue t s n (map_option (deref buf) b) (map_option (map (resolve buf)) a)"
  by (simp_all add: resolve_def [abs_def] value_constructors)

section \<open>Properties\<close>

text \<open>
  C18: A value the parser returns is final: it took a positive number of the bytes present, its bulk
  strings are ranges of exactly these bytes, and bytes that arrive later change neither the value
  nor what it reads.
\<close>

theorem parse_result_stable:
  assumes "ParseOne buf = Inr (Some (v, n))"
  shows "0 < n \<and> n \<le> length buf \<and> views_within 0 n v \<and>
    ParseOne (buf @ suf) = Inr (Some (v, n)) \<and> resolve (buf @ suf) v = resolve buf v"
proof -
  have v: "parseNext buf 0 = Inr (Some v, n)"
    using assms by (auto simp: ParseOne_def split: sum.splits option.splits)
  have "0 < n \<and> n \<le> length buf" using parse_advance(1) [OF v] by simp
  moreover have "views_within 0 n v" by (rule parse_views(1) [OF v])
  moreover have "parseNext (buf @ suf) 0 = Inr (Some v, n)" by (rule parse_append(1) [OF v])
  ultimately show ?thesis by (auto simp: ParseOne_def intro: resolve_append)
qed

theorem parse_result_stable_witness:
  "views_within 0 9 (BulkBytes (Some (View 4 7))) \<and>
    ParseOne ((''$3'' @ CRLF @ ''abc'' @ CRLF) @ ''junk'') = Inr (Some (BulkBytes (Some (View 4 7)), 9))"
  using parse_result_stable [of "''$3'' @ CRLF @ ''abc'' @ CRLF" "BulkBytes (Some (View 4 7))" 9 "''junk''"]
  by (simp add: ParseOne_def parseNext.simps parseBulkString_def parseBulkData_def findCRLF.simps
      line_of_def sub_def parseInt64_def is_digit_def digit_val_def) (simp add: numeral_eq_Suc)

end
