(* ===== verification/Protocol_Writer.thy ===== *)
theory Protocol_Writer
  imports Resp_Value
begin

text \<open>
  \<^verbatim>\<open>internal/protocol/writer.go\<close>: serialisation of RESP values into a growing buffer, and its flush.
  The reference is \<open>encode\<close>, the RESP grammar without the buffer and without the single-digit fast
  path; the writer refines it (\<open>appendValue_encode\<close>). The locale \<open>appender\<close> is the contract of a
  routine that appends the encoding of a value to a buffer: what a run of such calls leaves in the
  buffer is proved once from it.
\<close>

section \<open>Lines, prefixes, bulk strings\<close>

definition strings_Replace :: "byte \<Rightarrow> byte \<Rightarrow> bytes \<Rightarrow> bytes" where
  "strings_Replace old new s = map (\<lambda>c. if c = old then new else c) s"

definition stripNewlines :: "bytes \<Rightarrow> bytes" where
  "stripNewlines s =
     (if list_ex (\<lambda>c. c = CR \<or> c = LF) s
      then strings_Replace LF SP (strings_Replace CR SP s) else s)"

definition appendPrefix :: "bytes \<Rightarrow> byte \<Rightarrow> int64 \<Rightarrow> bytes" where
  "appendPrefix b c n =
     (if 0 \<le> sint n \<and> sint n \<le> 9 then b @ [c, digit_byte (unat n), CR, LF]
      else b @ [c] @ formatInt n @ CRLF)"

definition appendSimpleString :: "bytes \<Rightarrow> bytes \<Rightarrow> bytes" where
  "appendSimpleString b s = b @ ''+'' @ stripNewlines s @ CRLF"

definition appendError :: "bytes \<Rightarrow> bytes \<Rightarrow> bytes" where
  "appendError b s = b @ ''-'' @ stripNewlines s @ CRLF"

definition appendBulk :: "bytes \<Rightarrow> bytes \<Rightarrow> bytes" where
  "appendBulk b data = appendPrefix b (CHR ''$'') (word_of_nat (length data)) @ data @ CRLF"

text \<open>\<^verbatim>\<open>appendValue\<close> and its loop over the elements of an array.\<close>

function appendValue :: "bytes \<Rightarrow> rvalue \<Rightarrow> bytes"
  and appendElems :: "bytes \<Rightarrow> rvalue list \<Rightarrow> bytes" where
  "appendValue b (RespValue t s n bulk a) =
     (if t = TypeSimpleString then appendSimpleString b s
      else if t = TypeError then appendError b s
      else if t = TypeInteger then appendPrefix b (CHR '':'') n
      else if t = TypeBulkString then
        (case bulk of
           None \<Rightarrow> b @ ''$-1'' @ CRLF
         | Some data \<Rightarrow> appendBulk b data)
      else if t = TypeArray then
        (case a of
           None \<Rightarrow> b @ ''*-1'' @ CRLF
         | Some vs \<Rightarrow> appendElems (appendPrefix b (CHR ''*'') (word_of_nat (length vs))) vs)
      else b @ ''$-1'' @ CRLF)"
| "appendElems b [] = b"
| "appendElems b (elem # vs) = appendElems (appendValue b elem) vs"
  by pat_completeness auto
termination
  by (relation "measure (\<lambda>x. case x of Inl (_, v) \<Rightarrow> size v | Inr (_, vs) \<Rightarrow> size_list size vs)") auto

section \<open>The encoding as a function of the value\<close>

definition encode_line :: "byte \<Rightarrow> bytes \<Rightarrow> bytes" where
  "encode_line c s = c # s @ CRLF"

function encode :: "rvalue \<Rightarrow> bytes" where
  "encode (RespValue t s n bulk a) =
     (if t = TypeSimpleString \<or> t = TypeError then encode_line t (stripNewlines s)
      else if t = TypeInteger then encode_line t (formatInt n)
      else if t = TypeBulkString \<and> bulk \<noteq> None then
        encode_line t (formatInt (word_of_nat (length (opt_list bulk)))) @ opt_list bulk @ CRLF
      else if t = TypeArray then
        (if a = None then ''*-1'' @ CRLF
         else encode_line t (formatInt (word_of_nat (length (opt_list a)))) @
           concat (map encode (opt_list a)))
      else ''$-1'' @ CRLF)"
  by pat_completeness auto
termination
  by (relation "measure size") (auto dest: size_elem simp del: resp_value.size)

lemma appendPrefix_line: "appendPrefix b c n = b @ encode_line c (formatInt n)"
proof (cases "0 \<le> sint n \<and> sint n \<le> 9")
  case True
  then have "nat (sint n) < 10" by linarith
  with True show ?thesis
    by (simp add: appendPrefix_def encode_line_def formatInt_def formatUint_small unat_eq_sint64)
next
  case False
  then show ?thesis by (auto simp: appendPrefix_def encode_line_def)
qed

lemma appendValue_encode: "appendValue b v = b @ encode v"
  and appendElems_encode: "appendElems b vs = b @ concat (map encode vs)"
  by (induction b v and b vs rule: appendValue_appendElems.induct)
    (auto simp: appendSimpleString_def appendError_def appendBulk_def appendPrefix_line
      encode_line_def split: option.splits)

lemma stripNewlines_map:
  "stripNewlines s = map (\<lambda>c. if c = CR \<or> c = LF then SP else c) s"
proof (cases "list_ex (\<lambda>c. c = CR \<or> c = LF) s")
  case True
  then show ?thesis by (simp add: stripNewlines_def strings_Replace_def)
next
  case False
  then have "map (\<lambda>c. if c = CR \<or> c = LF then SP else c) s = s"
    by (intro map_idI) (auto simp: list_ex_iff)
  with False show ?thesis by (simp add: stripNewlines_def)
qed

lemma stripNewlines_no_crlf: "CR \<notin> set (stripNewlines s)" "LF \<notin> set (stripNewlines s)"
  by (auto simp: stripNewlines_map split: if_splits)

lemma stripNewlines_id: "CR \<notin> set s \<Longrightarrow> LF \<notin> set s \<Longrightarrow> stripNewlines s = s"
  by (auto simp: stripNewlines_map intro!: map_idI)

lemma stripNewlines_idem [simp]: "stripNewlines (stripNewlines s) = stripNewlines s"
  by (simp add: stripNewlines_id stripNewlines_no_crlf)

lemma length_stripNewlines [simp]: "length (stripNewlines s) = length s"
  by (simp add: stripNewlines_map)

section \<open>Appending to a buffer\<close>

locale appender =
  fixes app :: "bytes \<Rightarrow> 'v \<Rightarrow> bytes"
    and enc :: "'v \<Rightarrow> bytes"
  assumes app_enc: "app b v = b @ enc v"
begin

lemma app_run: "foldl app b vs = b @ concat (map enc vs)"
  by (induction vs arbitrary: b) (auto simp: app_enc)

lemma app_prefix: "app (b @ c) v = b @ app c v"
  by (simp add: app_enc)

lemma app_monotone: "take (length b) (foldl app b vs) = b"
  by (simp add: app_run)

end

interpretation value_appender: appender appendValue encode
  by unfold_locales (rule appendValue_encode)

section \<open>The Writer\<close>

record writer =
  w_buf :: bytes

definition NewWriter :: "nat \<Rightarrow> writer" where
  "NewWriter initialSize = \<lparr>w_buf = []\<rparr>"

definition Serialize :: "writer \<Rightarrow> rvalue \<Rightarrow> writer \<times> bytes" where
  "Serialize w v = (let w' = w\<lparr>w_buf := appendValue (w_buf w) v\<rparr> in (w', w_buf w'))"

text \<open>\<^verbatim>\<open>Write\<close> always returns a nil error.\<close>

definition Write :: "writer \<Rightarrow> rvalue \<Rightarrow> writer \<times> 'e option" where
  "Write w v = (fst (Serialize w v), None)"

definition Bytes :: "writer \<Rightarrow> bytes" where
  "Bytes w = w_buf w"

definition Reset :: "writer \<Rightarrow> writer" where
  "Reset w = w\<lparr>w_buf := []\<rparr>"

definition Len :: "writer \<Rightarrow> nat" where
  "Len w = length (w_buf w)"

text \<open>
  \<^verbatim>\<open>Flush\<close> to an \<^verbatim>\<open>io.Writer\<close>, given as a function on the destination's state that takes the bytes
  and may return an error, which is wrapped. The buffer is reset whether the write failed or not,
  and the destination is not called when the buffer is empty.
\<close>

datatype 'e flush_error = Flush_writer 'e

definition Flush ::
  "('d \<Rightarrow> bytes \<Rightarrow> 'd \<times> 'e option) \<Rightarrow> writer \<Rightarrow> 'd \<Rightarrow> writer \<times> 'd \<times> 'e flush_error option" where
  "Flush dst_Write w dst =
     (if length (w_buf w) = 0 then (w, dst, None)
      else let (dst', err) = dst_Write dst (w_buf w)
           in (Reset w, dst', map_option Flush_writer err))"

definition SerializeValue :: "rvalue \<Rightarrow> bytes" where
  "SerializeValue v = snd (Serialize (NewWriter 64) v)"

definition AppendSerialized :: "bytes \<Rightarrow> rvalue \<Rightarrow> bytes" where
  "AppendSerialized dst v = snd (Serialize \<lparr>w_buf = dst\<rparr> v)"

lemmas writer_defs = NewWriter_def Serialize_def Write_def Bytes_def Reset_def Len_def Flush_def
  SerializeValue_def AppendSerialized_def

lemma SerializeValue_encode [simp]: "SerializeValue v = encode v"
  by (simp add: writer_defs Let_def appendValue_encode)

text \<open>A run of writes, and the flush after it.\<close>

definition write_all :: "writer \<Rightarrow> rvalue list \<Rightarrow> writer" where
  "write_all w vs = foldl (\<lambda>w v. fst (Write w v :: writer \<times> unit option)) w vs"

lemma w_buf_write_all: "w_buf (write_all w vs) = w_buf w @ concat (map encode vs)"
proof -
  have "w_buf (write_all w vs) = foldl appendValue (w_buf w) vs"
    unfolding write_all_def by (induction vs arbitrary: w) (auto simp: writer_defs Let_def)
  then show ?thesis by (simp add: value_appender.app_run)
qed

lemma encode_nonempty: "encode v \<noteq> []"
  by (cases v) (auto simp: encode_line_def)

section \<open>Properties\<close>

text \<open>
  C28: Serialising into a buffer, by whichever entry point, appends the RESP encoding of the value
  and keeps what was there.
\<close>

theorem serialize_appends_encoding:
  "snd (Serialize w v) = w_buf w @ encode v \<and> w_buf (fst (Write w v)) = w_buf w @ encode v \<and>
    AppendSerialized dst v = dst @ encode v \<and> SerializeValue v = encode v"
  by (simp add: writer_defs Let_def appendValue_encode)

text \<open>
  Values written to a new writer reach the destination with the next flush in one write, complete
  and in order; afterwards the buffer is empty, also when the destination reports an error, and
  without values the destination is not called.
\<close>

theorem flush_sends_all:
  "Flush dst_Write (write_all (NewWriter n) vs) dst =
    (if vs = [] then (NewWriter n, dst, None)
     else let (dst', err) = dst_Write dst (concat (map encode vs)) in (NewWriter n, dst', map_option Flush_writer err))"
proof -
  have "write_all (NewWriter n) vs = \<lparr>w_buf = concat (map encode vs)\<rparr>"
    using w_buf_write_all [of "NewWriter n" vs]
    by (cases "write_all (NewWriter n) vs") (simp add: NewWriter_def)
  then show ?thesis
    by (simp add: Flush_def Reset_def NewWriter_def encode_nonempty)
qed

end
