(* ===== verification/Wire_Roundtrip.thy ===== *)
theory Wire_Roundtrip
  imports Protocol_Parser Protocol_Writer
begin

text \<open>
  Writer and parser against each other: the number parsers against the decimal value of their
  input (locale \<open>int_reader\<close>, interpreted on each copy of the routine), the encoding of a value
  against its parse at any place of any buffer, and the interface of a self-delimiting codec (locale
  \<open>wire_codec\<close>) from which pipelines of values and their reading from a buffer follow.
\<close>

section \<open>Numbers\<close>

text \<open>The integer a string of digits with an optional sign stands for.\<close>

definition decimal_int :: "bytes \<Rightarrow> int option" where
  "decimal_int b =
     (let neg = (b \<noteq> [] \<and> hd b = CHR ''-'');
          ds = (if b \<noteq> [] \<and> hd b \<in> {CHR ''-'', CHR ''+''} then tl b else b)
      in if ds \<noteq> [] \<and> list_all is_digit ds
         then Some (if neg then - int (decimal_val ds) else int (decimal_val ds)) else None)"

lemma digits_loop_foldl:
  "digits_loop ds (word_of_nat m) =
    (if list_all is_digit ds
     then Some (word_of_nat (foldl (\<lambda>n c. n * 10 + digit_val c) m ds)) else None)"
proof (induction ds arbitrary: m)
  case (Cons c ds)
  then show ?case using Cons [of "m * 10 + digit_val c"] by simp
qed simp

lemma digits_loop_decimal:
  "digits_loop ds 0 =
    (if list_all is_digit ds then Some (word_of_nat (decimal_val ds)) else None)"
  using digits_loop_foldl [of ds 0] by (simp add: decimal_val_def)

lemma parseInt64_decimal: "parseInt64 b = map_option word_of_int (decimal_int b)"
proof (cases b)
  case (Cons c cs)
  then show ?thesis
    by (cases cs) (auto simp: parseInt64_def decimal_int_def digits_loop_decimal Let_def
        decimal_val_def)
qed (simp add: parseInt64_def decimal_int_def)

lemma parseIntBuf_parseInt64: "parseIntBuf = parseInt64"
  by (simp add: fun_eq_iff parseIntBuf_def parseInt64_def)

lemma decimal_int_formatInt: "decimal_int (formatInt n) = Some (sint n)"
proof -
  have "list_all is_digit (formatUint k)" for k
    using formatUint_digits by (simp add: list_all_iff)
  moreover have "hd (formatUint k) \<noteq> CHR ''-''" "hd (formatUint k) \<noteq> CHR ''+''" for k
    using formatUint_hd_digit [of k] by auto
  ultimately show ?thesis
    by (auto simp: decimal_int_def formatInt_def digit_simps Let_def)
qed

locale int_reader =
  fixes rd :: "bytes \<Rightarrow> int64 option"
  assumes rd_decimal: "rd b = map_option word_of_int (decimal_int b)"
begin

lemma rd_formatInt: "rd (formatInt n) = Some n"
  by (simp add: rd_decimal decimal_int_formatInt)

lemma rd_modulo: "decimal_int b = Some k \<Longrightarrow> decimal_int b' = Some (k + 2 ^ 64) \<Longrightarrow> rd b' = rd b"
  by (simp add: rd_decimal)

lemma rd_reject: "decimal_int b = None \<Longrightarrow> rd b = None"
  by (simp add: rd_decimal)

end

interpretation int64_reader: int_reader parseInt64
  by unfold_locales (rule parseInt64_decimal)

interpretation intbuf_reader: int_reader parseIntBuf
  by unfold_locales (simp add: parseIntBuf_parseInt64 parseInt64_decimal)

section \<open>One value\<close>

text \<open>
  The values the writer can send: no nil array, arrays small enough for \<^verbatim>\<open>make\<close>, and everything
  within the type. What comes back is the normal form: newlines of lines replaced, a nil bulk
  string or a value of an unknown type read as null.
\<close>

function wire_ok :: "rvalue \<Rightarrow> bool" where
  "wire_ok (RespValue t s n b a) \<longleftrightarrow>
     (t = TypeArray \<longrightarrow>
        a \<noteq> None \<and> 80 * length (opt_list a) \<le> 2 ^ 48 \<and> (\<forall>v \<in> set (opt_list a). wire_ok v))"
  by pat_completeness auto
termination
  by (relation "measure size") (auto dest: size_elem simp del: resp_value.size)

function wire_norm :: "rvalue \<Rightarrow> rvalue" where
  "wire_norm (RespValue t s n b a) =
     (if t = TypeSimpleString then SimpleString (stripNewlines s)
      else if t = TypeError then Error (stripNewlines s)
      else if t = TypeInteger then Integer n
      else if t = TypeBulkString \<and> b \<noteq> None then BulkBytes b
      else if t = TypeArray then RespValue TypeArray [] 0 None (Some (map wire_norm (opt_list a)))
      else Null)"
  by pat_completeness auto
termination
  by (relation "measure size") (auto dest: size_elem simp del: resp_value.size)

lemma findCRLF_line:
  "CR \<notin> set s \<Longrightarrow> findCRLF (pre @ s @ CR # LF # post) (length pre) = Some (length pre + length s + 1)"
proof (induction s arbitrary: pre)
  case (Cons c s)
  then show ?case
    using Cons.IH [of "pre @ [c]"]
    by (auto simp: findCRLF.simps [of _ "length pre"] nth_append)
qed (simp add: findCRLF.simps nth_append)

lemma encoded_line:
  assumes "buf = pre @ encode_line c s @ post" and "CR \<notin> set s"
  shows "findCRLF buf (Suc (length pre)) = Some (length pre + length s + 2)"
    and "line_of buf (length pre) (length pre + length s + 2) = s"
    and "buf ! length pre = c" and "length pre < length buf"
    and "length (encode_line c s) = length s + 3"
  using assms findCRLF_line [of s "pre @ [c]" post]
  by (simp_all add: encode_line_def line_of_def sub_def)

text \<open>The statement of the round trip for one value, at a place of a buffer.\<close>

definition parses_back :: "rvalue \<Rightarrow> bool" where
  "parses_back v \<longleftrightarrow>
     (\<forall>pre post. length (pre @ encode v @ post) < 2 ^ 63 \<longrightarrow>
       (\<exists>pv. parseNext (pre @ encode v @ post) (length pre) =
            Inr (Some pv, length pre + length (encode v)) \<and>
          resolve (pre @ encode v @ post) pv = wire_norm v))"

lemma parses_backD:
  "parses_back v \<Longrightarrow> length (pre @ encode v @ post) < 2 ^ 63 \<Longrightarrow>
    \<exists>pv. parseNext (pre @ encode v @ post) (length pre) =
        Inr (Some pv, length pre + length (encode v)) \<and>
      resolve (pre @ encode v @ post) pv = wire_norm v"
  by (simp add: parses_back_def)

lemma parseBulkData_encoded:
  assumes "length (pre @ d @ CR # LF # post) < 2 ^ 63"
  shows "parseBulkData (pre @ d @ CR # LF # post) pos (length pre) (word_of_nat (length d)) =
    Inr (Some (BulkBytes (Some (View (length pre) (length pre + length d)))),
      length pre + length d + 2)"
proof -
  let ?e = "length pre + length d"
  have small: "?e + 2 < 2 ^ 63" using assms by simp
  have e: "(word_of_nat (length pre) + word_of_nat (length d) :: int64) = word_of_nat ?e"
    by simp
  have "word_of_nat ?e + 2 = (word_of_nat (?e + 2) :: int64)"
    by (simp add: add_ac)
  then have "sint (word_of_nat ?e + 2 :: int64) = int (?e + 2)"
    using small by (simp only: sint_of_nat64)
  moreover have "sint (word_of_nat ?e :: int64) = int ?e"
    using small by (intro sint_of_nat64) simp
  moreover have "unat (word_of_nat ?e :: int64) = ?e"
    using small by (intro unat_of_nat64) simp
  ultimately show ?thesis
    unfolding parseBulkData_def Let_def e by (simp add: nth_append)
qed

lemma parse_leaf_encoded:
  assumes "buf = pre @ encode_line c s @ post" and "CR \<notin> set s"
  shows "c = TypeSimpleString \<Longrightarrow>
      parseNext buf (length pre) = Inr (Some (SimpleString s), length pre + length s + 3)"
    and "c = TypeError \<Longrightarrow>
      parseNext buf (length pre) = Inr (Some (Error s), length pre + length s + 3)"
    and "c = TypeInteger \<Longrightarrow> s = formatInt n \<Longrightarrow>
      parseNext buf (length pre) = Inr (Some (Integer n), length pre + length s + 3)"
    and "c = TypeBulkString \<Longrightarrow> s = ''-1'' \<Longrightarrow>
      parseNext buf (length pre) = Inr (Some Null, length pre + length s + 3)"
  using encoded_line [OF assms]
  by (simp_all add: parseNext.simps parseSimpleString_def parseError_def parseInt_def
      parseBulkString_def int64_reader.rd_formatInt)
    (simp add: parseInt64_decimal decimal_int_def is_digit_def decimal_val_def digit_val_def)

lemma parse_bulk_encoded:
  assumes "length buf < 2 ^ 63"
    and "buf = pre @ encode_line (CHR ''$'') (formatInt (word_of_nat (length d))) @ d @ CR # LF # post"
  shows "\<exists>e. parseNext buf (length pre) = Inr (Some (BulkBytes (Some (View (e - length d) e))), e + 2) \<and>
    sub buf (e - length d) e = d \<and>
    e = length pre + length (formatInt (word_of_nat (length d))) + 3 + length d"
proof -
  let ?s = "formatInt (word_of_nat (length d))"
  let ?pre = "pre @ encode_line (CHR ''$'') ?s"
  have d: "length d < 2 ^ 63" using assms by simp
  then have n: "0 \<le> sint (word_of_nat (length d) :: int64)" by simp
  then have m1: "(word_of_nat (length d) :: int64) \<noteq> - 1" by (metis not_one_le_zero neg_0_le_iff_le sint_n1)
  note line = encoded_line [OF assms(2) formatInt_no_crlf(1)]
  have "parseBulkData buf (length pre) (length ?pre) (word_of_nat (length d)) =
      Inr (Some (BulkBytes (Some (View (length ?pre) (length ?pre + length d)))), length ?pre + length d + 2)"
    using parseBulkData_encoded [of ?pre d post "length pre"] assms by simp
  moreover have "sub buf (length ?pre) (length ?pre + length d) = d"
    using assms(2) sub_append [of _ ?pre _ d "CR # LF # post"] by simp
  moreover have "length pre + length ?s + 2 + 1 = length ?pre" using line(5) by simp
  then have "parseNext buf (length pre) = parseBulkData buf (length pre) (length ?pre) (word_of_nat (length d))"
    using line(1-4) n m1
    by (simp only: parseNext.simps parseBulkString_def option.case int64_reader.rd_formatInt
        Suc_eq_plus1) simp
  ultimately show ?thesis
    using line(5) by (intro exI [of _ "length ?pre + length d"]) simp
qed

lemma parse_elems_encoded:
  assumes "\<forall>v \<in> set vs. parses_back v"
    and "buf = pre @ concat (map encode vs) @ post" and "length buf < 2 ^ 63"
  shows "\<exists>pvs. parseElems buf start (length vs) (length pre) es =
      Inr (Some (RespValue TypeArray [] 0 None (Some (es @ pvs))),
        length pre + length (concat (map encode vs))) \<and>
    map (resolve buf) pvs = map wire_norm vs"
  using assms
proof (induction vs arbitrary: pre es)
  case Nil
  then show ?case by (intro exI [of _ "[]"]) (simp add: parseElems.simps)
next
  case (Cons v vs)
  have buf: "buf = pre @ encode v @ concat (map encode vs) @ post" using Cons.prems(2) by simp
  have "parses_back v" using Cons.prems(1) by simp
  then obtain pv where pv: "parseNext buf (length pre) =
        Inr (Some pv, length pre + length (encode v))" "resolve buf pv = wire_norm v"
    using Cons.prems(3) unfolding parses_back_def buf by blast
  obtain pvs where pvs: "parseElems buf start (length vs) (length (pre @ encode v)) (es @ [pv]) =
        Inr (Some (RespValue TypeArray [] 0 None (Some ((es @ [pv]) @ pvs))),
          length (pre @ encode v) + length (concat (map encode vs)))"
      "map (resolve buf) pvs = map wire_norm vs"
    using Cons.IH [of "pre @ encode v" "es @ [pv]"] Cons.prems by auto
  show ?case
    using pv pvs by (intro exI [of _ "pv # pvs"]) (simp add: parseElems.simps [of buf start "Suc _"] add.assoc)
qed

lemma parse_array_encoded:
  assumes "buf = pre @ encode_line (CHR ''*'') (formatInt (word_of_nat (length vs))) @
      concat (map encode vs) @ post"
    and "80 * length vs \<le> 2 ^ 48" and "\<forall>v \<in> set vs. parses_back v" and "length buf < 2 ^ 63"
  shows "\<exists>pvs. parseNext buf (length pre) = Inr (Some (RespValue TypeArray [] 0 None (Some pvs)),
        length pre + length (encode_line (CHR ''*'') (formatInt (word_of_nat (length vs)))) +
        length (concat (map encode vs))) \<and>
    map (resolve buf) pvs = map wire_norm vs"
proof -
  let ?n = "word_of_nat (length vs) :: int64"
  let ?hd = "encode_line (CHR ''*'') (formatInt ?n)"
  note head = encoded_line [OF assms(1) formatInt_no_crlf(1)]
  have "length vs < 2 ^ 63" using assms(2) by simp
  then have n: "sint ?n = int (length vs)" "unat ?n = length vs"
    by (simp_all add: unat_of_nat64)
  then have m1: "?n \<noteq> - 1" by (metis not_one_le_zero neg_0_le_iff_le sint_n1 of_nat_0_le_iff)
  have pos: "length pre + length (formatInt ?n) + 2 + 1 = length (pre @ ?hd)" using head(5) by simp
  obtain pvs where pvs: "parseElems buf (length pre) (length vs) (length (pre @ ?hd)) [] =
      Inr (Some (RespValue TypeArray [] 0 None (Some pvs)),
        length (pre @ ?hd) + length (concat (map encode vs)))"
    "map (resolve buf) pvs = map wire_norm vs"
    using parse_elems_encoded [of vs buf "pre @ ?hd" post "length pre" "[]"] assms by auto
  have "parseNext buf (length pre) = parseElems buf (length pre) (length vs) (length (pre @ ?hd)) []"
    unfolding pos [symmetric] using head n m1 assms(2)
    by (simp add: parseNext.simps parseArray.simps intbuf_reader.rd_formatInt makeslice_panics_def)
  with pvs show ?thesis by simp
qed

lemma parse_encode: "wire_ok v \<Longrightarrow> parses_back v"
proof (induction v rule: value_induct)
  case (RespValue t s n b a)
  show ?case
    unfolding parses_back_def
  proof (intro allI impI)
    fix pre post
    let ?v = "RespValue t s n b a"
    let ?buf = "pre @ encode ?v @ post"
    assume small: "length ?buf < 2 ^ 63"
    consider (line) "t = TypeSimpleString \<or> t = TypeError \<or> t = TypeInteger"
      | (bulk) "t = TypeBulkString" "b \<noteq> None"
      | (array) "t = TypeArray"
      | (null) "t \<notin> {TypeSimpleString, TypeError, TypeInteger, TypeArray}"
          "t = TypeBulkString \<longrightarrow> b = None"
      by (cases "t = TypeArray"; cases "t = TypeBulkString"; cases "b = None"; auto)
    then show "\<exists>pv. parseNext ?buf (length pre) = Inr (Some pv, length pre + length (encode ?v)) \<and>
        resolve ?buf pv = wire_norm ?v"
    proof cases
      case line
      then show ?thesis
        using parse_leaf_encoded(1) [of ?buf pre t "stripNewlines s" post]
          parse_leaf_encoded(2) [of ?buf pre t "stripNewlines s" post]
          parse_leaf_encoded(3) [of ?buf pre t "formatInt n" post n]
          stripNewlines_no_crlf formatInt_no_crlf
        by (auto simp: encode_line_def)
    next
      case bulk
      then obtain d where d: "b = Some d" by blast
      with bulk small obtain e where
        "parseNext ?buf (length pre) = Inr (Some (BulkBytes (Some (View (e - length d) e))), e + 2)"
        "sub ?buf (e - length d) e = d"
        "e = length pre + length (formatInt (word_of_nat (length d))) + 3 + length d"
        using parse_bulk_encoded [of ?buf pre d post] by fastforce
      with bulk d show ?thesis
        by (intro exI [of _ "BulkBytes (Some (View (e - length d) e))"]) (simp add: encode_line_def)
    next
      case array
      with RespValue.prems obtain vs where vs: "a = Some vs" "80 * length vs \<le> 2 ^ 48"
          "\<forall>v \<in> set vs. wire_ok v" by auto
      have "\<forall>v \<in> set vs. parses_back v" using RespValue.IH vs by auto
      then obtain pvs where "parseNext ?buf (length pre) =
            Inr (Some (RespValue TypeArray [] 0 None (Some pvs)), length pre + length (encode ?v))"
          "map (resolve ?buf) pvs = map wire_norm vs"
        using parse_array_encoded [of ?buf pre vs post] array vs small by auto
      with array vs show ?thesis
        by (intro exI [of _ "RespValue TypeArray [] 0 None (Some pvs)"]) simp
    next
      case null
      then have "encode ?v = encode_line (CHR ''$'') ''-1''" "wire_norm ?v = Null"
        by (auto simp: encode_line_def)
      then show ?thesis
        using parse_leaf_encoded(4) [of ?buf pre "CHR ''$''" "''-1''" post]
        by (intro exI [of _ Null]) (simp add: encode_line_def)
    qed
  qed
qed

section \<open>The interface of a self-delimiting codec\<close>

text \<open>
  What a reader of a byte stream needs of an encoder and a decoder that decodes at a position of a
  buffer. The bounds are those of a Go slice length (and, for panics, two bytes less).
\<close>

locale wire_codec =
  fixes enc :: "'v \<Rightarrow> bytes"
    and dec :: "bytes \<Rightarrow> nat \<Rightarrow> ('v option \<times> nat) go"
    and ok :: "'v \<Rightarrow> bool"
    and norm :: "'v \<Rightarrow> 'v"
  assumes dec_enc: "ok v \<Longrightarrow> length (pre @ enc v @ post) < 2 ^ 63 \<Longrightarrow>
      dec (pre @ enc v @ post) (length pre) = Inr (Some (norm v), length pre + length (enc v))"
    and dec_advance: "dec buf pos = Inr (Some v, p) \<Longrightarrow> pos < p \<and> p \<le> length buf"
    and dec_append: "dec buf pos = Inr (Some v, p) \<Longrightarrow> dec (buf @ suf) pos = Inr (Some v, p)"
    and dec_panic_append: "dec buf pos = Inl q \<Longrightarrow> length (buf @ suf) < 2 ^ 63 - 2 \<Longrightarrow>
      \<exists>q. dec (buf @ suf) pos = Inl q"
begin

lemma dec_head:
  "ok v \<Longrightarrow> length (enc v @ post) < 2 ^ 63 \<Longrightarrow> dec (enc v @ post) 0 = Inr (Some (norm v), length (enc v))"
  using dec_enc [of v "[]" post] by simp

lemma enc_nonempty: "ok v \<Longrightarrow> length (enc v) < 2 ^ 63 \<Longrightarrow> enc v \<noteq> []"
  using dec_head [of v "[]"] dec_advance [of "enc v" 0] by fastforce

text \<open>A decoder that is given a proper prefix asks for more: it neither completes nor panics.\<close>

lemma dec_prefix_waits_at:
  assumes "ok v" and "length (pre @ enc v) < 2 ^ 63 - 2" and "enc v = xs @ ys" and "ys \<noteq> []"
  shows "\<exists>p. dec (pre @ xs) (length pre) = Inr (None, p)"
proof (cases "dec (pre @ xs) (length pre)")
  case (Inl q)
  then obtain q' where "dec (pre @ enc v) (length pre) = Inl q'"
    using dec_panic_append [of "pre @ xs" "length pre" q ys] assms by auto
  then show ?thesis using dec_enc [of v pre "[]"] assms by simp
next
  case (Inr r)
  show ?thesis
  proof (cases "fst r")
    case None
    with Inr show ?thesis by (cases r) auto
  next
    case (Some w)
    with Inr have xs: "dec (pre @ xs) (length pre) = Inr (Some w, snd r)" by (cases r) auto
    then have "dec (pre @ enc v) (length pre) = Inr (Some w, snd r)"
      using dec_append [of "pre @ xs" _ _ _ ys] assms(3) by simp
    then have "snd r = length pre + length (enc v)" using dec_enc [of v pre "[]"] assms by simp
    moreover have "snd r \<le> length (pre @ xs)" using dec_advance [OF xs] by simp
    ultimately show ?thesis using assms(3,4) by simp
  qed
qed

lemma dec_prefix_waits:
  assumes "ok v" and "length (enc v) < 2 ^ 63 - 2" and "enc v = xs @ ys" and "ys \<noteq> []"
  shows "\<exists>p. dec xs 0 = Inr (None, p)"
  using dec_prefix_waits_at [of v "[]" xs ys] assms by simp

lemma enc_prefix_free:
  assumes "ok v" and "ok w" and eq: "enc v @ x = enc w @ y" and "length (enc v @ x) < 2 ^ 63"
  shows "norm v = norm w \<and> x = y"
proof -
  have "dec (enc v @ x) 0 = Inr (Some (norm v), length (enc v))"
    using assms by (intro dec_head)
  moreover have "dec (enc v @ x) 0 = Inr (Some (norm w), length (enc w))"
    unfolding eq using assms by (intro dec_head) simp_all
  ultimately show ?thesis using eq by auto
qed

lemma stream_uniquely_decodable:
  "list_all ok vs \<Longrightarrow> list_all ok ws \<Longrightarrow> concat (map enc vs) = concat (map enc ws) \<Longrightarrow>
    length (concat (map enc vs)) < 2 ^ 63 \<Longrightarrow> map norm vs = map norm ws"
proof (induction vs arbitrary: ws)
  case Nil
  then show ?case using enc_nonempty [of "hd ws"] by (cases ws) auto
next
  case (Cons v vs)
  have "length (enc v) < 2 ^ 63" using Cons.prems(4) by simp
  with Cons.prems(1) have v: "enc v \<noteq> []" by (intro enc_nonempty) auto
  with Cons.prems obtain w ws' where ws: "ws = w # ws'" by (cases ws) auto
  with Cons.prems have "norm v = norm w \<and> concat (map enc vs) = concat (map enc ws')"
    by (intro enc_prefix_free) auto
  with Cons ws show ?case by simp
qed

end

definition decode :: "bytes \<Rightarrow> nat \<Rightarrow> (rvalue option \<times> nat) go" where
  "decode buf pos =
     (case parseNext buf pos of
        Inl p \<Rightarrow> Inl p
      | Inr (ov, p) \<Rightarrow> Inr (map_option (resolve buf) ov, p))"

lemma decode_cases:
  "decode buf pos = Inl q \<longleftrightarrow> parseNext buf pos = Inl q"
  "decode buf pos = Inr (None, p) \<longleftrightarrow> parseNext buf pos = Inr (None, p)"
  "decode buf pos = Inr (Some v, p) \<longleftrightarrow> (\<exists>pv. parseNext buf pos = Inr (Some pv, p) \<and> resolve buf pv = v)"
  by (auto simp: decode_def split: sum.splits)

interpretation resp_codec: wire_codec encode decode wire_ok wire_norm
proof (unfold_locales, goal_cases)
  case (1 v pre post)
  then show ?case using parse_encode [of v] by (auto simp: decode_cases parses_back_def)
next
  case (2 buf pos v p)
  then show ?case using parse_advance(1) by (auto simp: decode_cases)
next
  case (3 buf pos v p suf)
  then show ?case
    using parse_append(1) [of buf pos _ p suf] parse_views(1) [of buf pos _ p] parse_advance(1)
      resolve_append [of pos p _ buf suf]
    by (fastforce simp: decode_cases)
next
  case (4 buf pos q suf)
  then show ?case using parse_panic_append(1) by (simp add: decode_cases)
qed

section \<open>Pipelines\<close>

lemma Parse_loop_pipeline:
  assumes "\<forall>v \<in> set vs. parses_back v" and "buf = pre @ concat (map encode vs) @ part"
    and "length buf < 2 ^ 63"
    and "part = [] \<or> (\<exists>p. parseNext buf (length buf - length part) = Inr (None, p))"
  shows "\<exists>pvs. Parse_loop buf (length pre) acc = Inr (acc @ pvs, length buf - length part) \<and>
    map (resolve buf) pvs = map wire_norm vs"
  using assms
proof (induction vs arbitrary: pre acc)
  case Nil
  then show ?case by (auto simp: Parse_loop.simps [of _ "length pre"] dest: parse_fail_pos(1))
next
  case (Cons v vs)
  have buf: "buf = pre @ encode v @ concat (map encode vs) @ part" using Cons.prems(2) by simp
  have "parses_back v" using Cons.prems(1) by simp
  then obtain pv where pv: "parseNext buf (length pre) =
        Inr (Some pv, length pre + length (encode v))" "resolve buf pv = wire_norm v"
    using Cons.prems(3) unfolding parses_back_def buf by blast
  then have "length pre < length buf" using parse_advance(1) [OF pv(1)] by linarith
  moreover obtain pvs where "Parse_loop buf (length (pre @ encode v)) (acc @ [pv]) =
      Inr ((acc @ [pv]) @ pvs, length buf - length part)" "map (resolve buf) pvs = map wire_norm vs"
    using Cons.IH [of "pre @ encode v" "acc @ [pv]"] Cons.prems by auto
  ultimately show ?case
    using pv by (intro exI [of _ "pv # pvs"]) (simp add: Parse_loop.simps [of buf "length pre"])
qed

lemma Parse_pipeline:
  assumes "list_all wire_ok vs" and "wire_ok w" and "encode w = part @ ys" and "ys \<noteq> []"
    and "length (concat (map encode vs) @ encode w) < 2 ^ 63 - 2"
  shows "\<exists>pvs. Parse (concat (map encode vs) @ part) = Inr (pvs, length (concat (map encode vs))) \<and>
    map (resolve (concat (map encode vs) @ part)) pvs = map wire_norm vs"
proof -
  have "\<exists>p. decode (concat (map encode vs) @ part) (length (concat (map encode vs))) = Inr (None, p)"
    using assms by (intro resp_codec.dec_prefix_waits_at) auto
  then show ?thesis
    using Parse_loop_pipeline [of vs "concat (map encode vs) @ part" "[]" part "[]"] assms parse_encode
    by (auto simp: Parse_def list_all_iff decode_cases)
qed

section \<open>Inputs that can never complete\<close>

text \<open>
  A header line that is complete and wrong is not told apart from one that is incomplete: whatever
  follows, the parse reports no value at the same place.
\<close>

definition stuck_header :: "bytes \<Rightarrow> nat \<Rightarrow> bool" where
  "stuck_header buf pos \<longleftrightarrow>
     pos < length buf \<and>
     (case findCRLF buf (pos + 1) of
        None \<Rightarrow> False
      | Some e \<Rightarrow>
          (case parseInt64 (line_of buf pos e) of
             None \<Rightarrow> buf ! pos \<in> {CHR ''*'', CHR '':'', CHR ''$''}
           | Some n \<Rightarrow> sint n < 0 \<and> (buf ! pos = CHR ''*'' \<or> (buf ! pos = CHR ''$'' \<and> n \<noteq> - 1))))"

lemma stuck_header_append: "stuck_header buf pos \<Longrightarrow> stuck_header (buf @ suf) pos"
  by (auto simp: stuck_header_def findCRLF_append line_of_append nth_append split: option.splits)

lemma stuck_header_parse: "stuck_header buf pos \<Longrightarrow> parseNext buf pos = Inr (None, pos)"
  by (auto simp: stuck_header_def parseNext.simps parseArray.simps parseInt_def parseBulkString_def
      parseIntBuf_parseInt64 split: option.splits)

section \<open>Properties\<close>

text \<open>
  C17: What the writer sends for a value, the parser reads back whole, and reads nothing of what
  follows; newlines in lines come back as spaces, a nil bulk string and an unknown type as null.
\<close>

theorem parse_of_serialize:
  assumes "wire_ok v" and "length (SerializeValue v @ rest) < 2 ^ 63"
  shows "\<exists>pv. ParseOne (SerializeValue v @ rest) = Inr (Some (pv, length (SerializeValue v))) \<and>
    resolve (SerializeValue v @ rest) pv = wire_norm v"
proof -
  obtain pv where "parseNext (encode v @ rest) 0 = Inr (Some pv, length (encode v))"
      "resolve (encode v @ rest) pv = wire_norm v"
    using parses_backD [OF parse_encode [OF assms(1)], of "[]" rest] assms(2) by auto
  then show ?thesis by (auto simp: ParseOne_def)
qed

theorem parse_of_serialize_witness:
  "\<exists>pv. ParseOne (SerializeValue (ArrayOf [BulkFromString ''GET'', Integer 7]) @ ''+O'') =
      Inr (Some (pv, length (SerializeValue (ArrayOf [BulkFromString ''GET'', Integer 7])))) \<and>
    resolve (SerializeValue (ArrayOf [BulkFromString ''GET'', Integer 7]) @ ''+O'') pv =
      wire_norm (ArrayOf [BulkFromString ''GET'', Integer 7])"
  by (rule parse_of_serialize)
    (simp_all add: value_constructors encode_line_def formatInt_def formatUint.simps)

text \<open>
  C24: A buffer that holds complete values and a proper part of one more: \<^verbatim>\<open>Parse\<close> returns exactly the
  complete ones and says how many bytes they took.
\<close>

theorem parse_complete_values:
  assumes "list_all wire_ok vs" and "wire_ok w" and "encode w = part @ ys" and "ys \<noteq> []"
    and "length (concat (map encode vs) @ encode w) < 2 ^ 63 - 2"
  shows "\<exists>pvs. Parse (concat (map encode vs) @ part) = Inr (pvs, length (concat (map encode vs))) \<and>
    map (resolve (concat (map encode vs) @ part)) pvs = map wire_norm vs"
  using assms by (rule Parse_pipeline)

theorem parse_complete_values_witness:
  "\<exists>pvs. Parse (concat (map encode [Integer 7, SimpleString ''OK'']) @ '':'') =
      Inr (pvs, length (concat (map encode [Integer 7, SimpleString ''OK'']))) \<and>
    map (resolve (concat (map encode [Integer 7, SimpleString ''OK'']) @ '':'')) pvs =
      map wire_norm [Integer 7, SimpleString ''OK'']"
  by (rule parse_complete_values [where w = "Integer 5" and ys = "''5'' @ CRLF"])
    (simp_all add: value_constructors encode_line_def formatInt_def formatUint.simps stripNewlines_def
      digit_simps)

text \<open>
  The wire format is uniquely decodable: two lists of values with the same bytes are the same
  list, up to the normal form the parser reads.
\<close>

theorem wire_format_unique:
  assumes "list_all wire_ok vs" and "list_all wire_ok ws"
    and "w_buf (write_all (NewWriter n) vs) = w_buf (write_all (NewWriter m) ws)"
    and "length (w_buf (write_all (NewWriter n) vs)) < 2 ^ 63"
  shows "map wire_norm vs = map wire_norm ws"
  using resp_codec.stream_uniquely_decodable [of vs ws] assms
  by (simp add: w_buf_write_all NewWriter_def)

theorem wire_format_unique_witness:
  "map wire_norm [SimpleString [LF], Integer 3] = map wire_norm [SimpleString '' '', Integer 3]"
  by (rule wire_format_unique [where n = 0 and m = 64])
    (simp_all add: w_buf_write_all NewWriter_def value_constructors encode_line_def formatInt_def
      formatUint.simps stripNewlines_map)

text \<open>
  C32: Both copies of the number reader read an optional sign and decimal digits modulo 2^64 as
  a signed 64-bit integer, and reject anything else: a number that does not fit wraps around silently.
\<close>

theorem number_readers_modulo:
  "parseInt64 b = map_option word_of_int (decimal_int b) \<and> parseIntBuf b = parseInt64 b"
  by (simp add: parseInt64_decimal parseIntBuf_parseInt64)

text \<open>
  A header \<^verbatim>\<open>$<n>\<close> whose data would end past the largest 64-bit position makes the parser
  panic, whatever follows it; for every smaller length it waits, rejects or returns the bytes.
\<close>

theorem bulk_header_panics:
  assumes "length buf < 2 ^ 63 - 2" and "dataStart \<le> length buf" and "0 \<le> sint n"
  shows "(\<exists>p. parseBulkData buf pos dataStart n = Inl p) \<longleftrightarrow> 2 ^ 63 \<le> dataStart + unat n + 2"
  using assms by (simp add: parseBulkData_spec Let_def)

theorem bulk_header_panics_witness:
  "\<exists>p. parseBulkData (''$9223372036854775807'' @ CRLF) 0 22 9223372036854775807 = Inl p"
  using bulk_header_panics [of "''$9223372036854775807'' @ CRLF" 22 9223372036854775807 0] by simp

text \<open>
  C36: The null array that the writer sends for a nil array is never read back: the parser treats it
  as incomplete, whatever follows.
\<close>

theorem null_array_never_parses:
  "encode (RespValue TypeArray s n b None) = ''*-1'' @ CRLF \<and>
    ParseOne (''*-1'' @ CRLF @ rest) = Inr None"
proof -
  have "stuck_header (''*-1'' @ CRLF) 0"
    by (simp add: stuck_header_def findCRLF.simps line_of_def sub_def parseInt64_def is_digit_def
        digit_val_def)
  then have "stuck_header ((''*-1'' @ CRLF) @ rest) 0" by (rule stuck_header_append)
  then show ?thesis by (simp add: ParseOne_def stuck_header_parse)
qed

end
