(* ===== verification/Resp_Parser.thy ===== *)
theory Resp_Parser
  imports Wire_Roundtrip
begin

text \<open>
  \<^verbatim>\<open>internal/resp/parser.go\<close>, the older parser, which returns the type, a view of the whole command and
  a list of argument slices instead of a value. It has copies of its own of the number reader, of
  \<^verbatim>\<open>findCRLF\<close> and of the inline argument parser. Lemmas: what it parses as an array of bulk strings the
  parser of \<^verbatim>\<open>internal/protocol\<close> parses to the same slices at the same position; an incomplete array
  leaves the position behind its header.
\<close>

section \<open>Results and helpers\<close>

record parse_result =
  pr_Type :: byte
  pr_Raw :: "slice option"
  pr_Args :: "slice list option"
  pr_Complete :: bool

definition incomplete :: parse_result where
  "incomplete = \<lparr>pr_Type = CHR 0x00, pr_Raw = None, pr_Args = None, pr_Complete = False\<rparr>"

type_synonym rresult = "(parse_result \<times> nat) go"

function resp_findCRLF :: "bytes \<Rightarrow> nat \<Rightarrow> nat option" where
  "resp_findCRLF buf i =
     (if i + 1 < length buf then
        (if buf ! i = CR \<and> buf ! (i + 1) = LF then Some (i + 1) else resp_findCRLF buf (i + 1))
      else None)"
  by pat_completeness auto
termination
  by (relation "measure (\<lambda>(buf, i). length buf - i)") auto

declare resp_findCRLF.simps [simp del]

definition resp_parseInt :: "bytes \<Rightarrow> int64 option" where
  "resp_parseInt b =
     (if length b = 0 then None
      else if length b = 1 \<and> is_digit (b ! 0) then Some (word_of_nat (digit_val (b ! 0)))
      else
        let sign = (b ! 0 = CHR ''-'');
            i = (if b ! 0 = CHR ''-'' then 1 else if b ! 0 = CHR ''+'' then 1 else 0)
        in if length b \<le> i then None
           else case digits_loop (drop i b) 0 of
             None \<Rightarrow> None
           | Some n \<Rightarrow> Some (if sign then n * - 1 else n))"

text \<open>The loops of \<^verbatim>\<open>parseInlineArgs\<close> are those of \<^verbatim>\<open>internal/protocol\<close>, statement by statement.\<close>

definition resp_parseInlineArgs :: "nat \<Rightarrow> bytes \<Rightarrow> slice list" where
  "resp_parseInlineArgs off line = inline_outer inline_init off line"

lemma resp_helpers [simp]:
  "resp_findCRLF = findCRLF" "resp_parseInt = parseInt64" "resp_parseInlineArgs = parseInlineArgs"
proof -
  have "resp_findCRLF buf i = findCRLF buf i" for buf i
    by (induction buf i rule: findCRLF.induct)
      (subst resp_findCRLF.simps, subst findCRLF.simps, simp)
  then show "resp_findCRLF = findCRLF" by (intro ext)
  show "resp_parseInt = parseInt64" by (intro ext) (simp only: resp_parseInt_def parseInt64_def)
  show "resp_parseInlineArgs = parseInlineArgs"
    by (intro ext) (simp add: resp_parseInlineArgs_def parseInlineArgs_def)
qed

interpretation resp_int_reader: int_reader resp_parseInt
  by unfold_locales (simp add: parseInt64_decimal)

section \<open>The parser\<close>

definition simple_result :: "byte \<Rightarrow> nat \<Rightarrow> nat \<Rightarrow> parse_result" where
  "simple_result t start lineEnd =
     \<lparr>pr_Type = t, pr_Raw = Some (View start (lineEnd + 1)),
      pr_Args = Some [View (start + 1) (lineEnd - 1)], pr_Complete = True\<rparr>"

definition resp_parseSimpleString :: "bytes \<Rightarrow> nat \<Rightarrow> rresult" where
  "resp_parseSimpleString buf pos =
     (case resp_findCRLF buf (pos + 1) of
        None \<Rightarrow> Inr (incomplete, pos)
      | Some lineEnd \<Rightarrow> Inr (simple_result (CHR ''+'') pos lineEnd, lineEnd + 1))"

definition resp_parseError :: "bytes \<Rightarrow> nat \<Rightarrow> rresult" where
  "resp_parseError buf pos =
     (case resp_findCRLF buf (pos + 1) of
        None \<Rightarrow> Inr (incomplete, pos)
      | Some lineEnd \<Rightarrow> Inr (simple_result (CHR ''-'') pos lineEnd, lineEnd + 1))"

text \<open>The digits of an integer are not looked at.\<close>

definition resp_parseIntLine :: "bytes \<Rightarrow> nat \<Rightarrow> rresult" where
  "resp_parseIntLine buf pos =
     (case resp_findCRLF buf (pos + 1) of
        None \<Rightarrow> Inr (incomplete, pos)
      | Some lineEnd \<Rightarrow> Inr (simple_result (CHR '':'') pos lineEnd, lineEnd + 1))"

text \<open>
  The check of the data of a bulk string: \<open>Inr None\<close> when it is not complete or not followed by CRLF,
  and the end of the data otherwise. The sum wraps around; the indexings may panic.
\<close>

definition bulk_data_end :: "bytes \<Rightarrow> nat \<Rightarrow> int64 \<Rightarrow> nat option go" where
  "bulk_data_end buf dataStart bulkLen =
     (let dataEnd = word_of_nat dataStart + bulkLen;
          e = unat dataEnd
      in if int (length buf) < sint (dataEnd + 2) then Inr None
         else if sint dataEnd < 0 \<or> length buf \<le> e then Inl Index_out_of_range
         else if buf ! e \<noteq> CR then Inr None
         else if length buf \<le> e + 1 then Inl Index_out_of_range
         else if buf ! (e + 1) \<noteq> LF then Inr None
         else Inr (Some e))"

definition resp_parseBulkString :: "bytes \<Rightarrow> nat \<Rightarrow> rresult" where
  "resp_parseBulkString buf pos =
     (case resp_findCRLF buf (pos + 1) of
        None \<Rightarrow> Inr (incomplete, pos)
      | Some lineEnd \<Rightarrow>
          (case resp_parseInt (line_of buf pos lineEnd) of
             None \<Rightarrow> Inr (incomplete, pos)
           | Some bulkLen \<Rightarrow>
               (if bulkLen = - 1 then
                  Inr (\<lparr>pr_Type = CHR ''$'', pr_Raw = Some (View pos (lineEnd + 1)), pr_Args = None,
                        pr_Complete = True\<rparr>, lineEnd + 1)
                else if sint bulkLen < 0 then Inr (incomplete, pos)
                else case bulk_data_end buf (lineEnd + 1) bulkLen of
                  Inl p \<Rightarrow> Inl p
                | Inr None \<Rightarrow> Inr (incomplete, pos)
                | Inr (Some e) \<Rightarrow>
                    (if e < lineEnd + 1 then Inl Slice_bounds_out_of_range
                     else Inr (\<lparr>pr_Type = CHR ''$'', pr_Raw = Some (View pos (e + 2)),
                         pr_Args = Some [View (lineEnd + 1) e], pr_Complete = True\<rparr>, e + 2)))))"

text \<open>
  The loop of \<^verbatim>\<open>parseArray\<close> with \<open>n\<close> elements to go; \<open>marks\<close> holds the pairs of positions. Leaving it
  early returns the position it has reached. The slices are built at the end.
\<close>

fun resp_array_loop :: "bytes \<Rightarrow> nat \<Rightarrow> nat \<Rightarrow> nat \<Rightarrow> (nat \<times> nat) list \<Rightarrow> rresult" where
  "resp_array_loop buf start n pos marks =
     (if n = 0 then
        (if list_ex (\<lambda>(lo, hi). hi < lo) marks then Inl Slice_bounds_out_of_range
         else Inr (\<lparr>pr_Type = CHR ''*'', pr_Raw = Some (View start pos),
             pr_Args = Some (map (\<lambda>(lo, hi). View lo hi) marks), pr_Complete = True\<rparr>, pos))
      else if length buf \<le> pos then Inr (incomplete, pos)
      else if buf ! pos \<noteq> CHR ''$'' then Inr (incomplete, pos)
      else case resp_findCRLF buf (pos + 1) of
        None \<Rightarrow> Inr (incomplete, pos)
      | Some bulkLineEnd \<Rightarrow>
          (case resp_parseInt (line_of buf pos bulkLineEnd) of
             None \<Rightarrow> Inr (incomplete, pos)
           | Some bulkLen \<Rightarrow>
               (if sint bulkLen < 0 then Inr (incomplete, pos)
                else case bulk_data_end buf (bulkLineEnd + 1) bulkLen of
                  Inl p \<Rightarrow> Inl p
                | Inr None \<Rightarrow> Inr (incomplete, pos)
                | Inr (Some e) \<Rightarrow>
                    resp_array_loop buf start (n - 1) (e + 2) (marks @ [(bulkLineEnd + 1, e)]))))"

declare resp_array_loop.simps [simp del]

definition resp_parseArray :: "bytes \<Rightarrow> nat \<Rightarrow> rresult" where
  "resp_parseArray buf pos =
     (case resp_findCRLF buf (pos + 1) of
        None \<Rightarrow> Inr (incomplete, pos)
      | Some lineEnd \<Rightarrow>
          (case resp_parseInt (line_of buf pos lineEnd) of
             None \<Rightarrow> Inr (incomplete, pos)
           | Some count \<Rightarrow>
               (if sint count < 0 then Inr (incomplete, pos)
                else resp_array_loop buf pos (unat count) (lineEnd + 1) [])))"

text \<open>
  For an inline command \<^verbatim>\<open>Raw\<close> is \<^verbatim>\<open>p.buf[p.pos-newlinePos-1 : p.pos]\<close> with \<^verbatim>\<open>p.pos\<close> already
  \<^verbatim>\<open>newlinePos + 1\<close>: it starts at 0, wherever the command does.
\<close>

definition resp_parseInlineCommand :: "bytes \<Rightarrow> nat \<Rightarrow> rresult" where
  "resp_parseInlineCommand buf pos =
     (case resp_findCRLF buf pos of
        None \<Rightarrow> Inr (incomplete, pos)
      | Some newlinePos \<Rightarrow>
          let line = (if pos < newlinePos \<and> buf ! (newlinePos - 1) = CR
                      then sub buf pos (newlinePos - 1) else sub buf pos newlinePos);
              args = resp_parseInlineArgs pos line;
              pos' = newlinePos + 1
          in if length args = 0 then Inr (incomplete\<lparr>pr_Complete := True\<rparr>, pos')
             else Inr (\<lparr>pr_Type = CHR ''*'', pr_Raw = Some (View (pos' - newlinePos - 1) pos'),
                        pr_Args = Some args, pr_Complete = True\<rparr>, pos'))"

definition resp_ParseNextCommand :: "bytes \<Rightarrow> nat \<Rightarrow> rresult" where
  "resp_ParseNextCommand buf pos =
     (if length buf \<le> pos then Inr (incomplete, pos)
      else if buf ! pos = CHR ''*'' then resp_parseArray buf pos
      else if buf ! pos = CHR ''+'' then resp_parseSimpleString buf pos
      else if buf ! pos = CHR ''-'' then resp_parseError buf pos
      else if buf ! pos = CHR '':'' then resp_parseIntLine buf pos
      else if buf ! pos = CHR ''$'' then resp_parseBulkString buf pos
      else resp_parseInlineCommand buf pos)"

text \<open>
  The parser as an object. The field \<^verbatim>\<open>marks\<close> is emptied before each use and left out; the position is the one
  the functions above are given and return.
\<close>

record resp_parser =
  rp_buf :: bytes
  rp_pos :: nat

definition resp_NewParser :: "bytes \<Rightarrow> resp_parser" where
  "resp_NewParser buf = \<lparr>rp_buf = buf, rp_pos = 0\<rparr>"

definition resp_Reset :: "bytes \<Rightarrow> resp_parser \<Rightarrow> resp_parser" where
  "resp_Reset buf p = p\<lparr>rp_buf := buf, rp_pos := 0\<rparr>"

definition Position :: "resp_parser \<Rightarrow> nat" where
  "Position p = rp_pos p"

lemmas resp_parse_defs = resp_ParseNextCommand_def resp_parseSimpleString_def resp_parseError_def
  resp_parseIntLine_def resp_parseBulkString_def resp_parseInlineCommand_def resp_parseArray_def
  simple_result_def incomplete_def

section \<open>Against the value parser\<close>

lemma bulk_data_end_parse:
  "bulk_data_end buf ds n = Inr (Some e) \<Longrightarrow> ds \<le> e \<Longrightarrow>
    parseBulkData buf pos ds n = Inr (Some (BulkBytes (Some (View ds e))), e + 2)"
  by (auto simp: bulk_data_end_def parseBulkData_def Let_def split: if_splits)

lemma bulk_data_end_bounds: "bulk_data_end buf ds n = Inr (Some e) \<Longrightarrow> e + 2 \<le> length buf"
  by (auto simp: bulk_data_end_def Let_def split: if_splits)

definition bulk_elem :: "nat \<times> nat \<Rightarrow> pvalue" where
  "bulk_elem m = BulkBytes (Some (View (fst m) (snd m)))"

lemma resp_array_loop_marks:
  "resp_array_loop buf start n pos marks = Inr (res, p) \<Longrightarrow> pr_Complete res \<Longrightarrow>
    list_all (\<lambda>(lo, hi). lo \<le> hi) marks \<and> pr_Type res = CHR ''*'' \<and> pr_Raw res = Some (View start p)"
proof (induction n arbitrary: pos marks)
  case 0
  then show ?case
    by (auto simp: resp_array_loop.simps [of buf start 0] list_ex_iff list_all_iff split: if_splits)
next
  case (Suc n)
  then show ?case
    by (fastforce simp: resp_array_loop.simps [of buf start "Suc n"] incomplete_def
        split: if_splits option.splits sum.splits)
qed

lemma resp_array_loop_parse:
  "resp_array_loop buf start n pos marks = Inr (res, p) \<Longrightarrow> pr_Complete res \<Longrightarrow> pos \<le> length buf \<Longrightarrow>
    \<exists>ms. pr_Args res = Some (map (\<lambda>(lo, hi). View lo hi) ms) \<and>
      parseElems buf start n pos (map bulk_elem marks) =
        Inr (Some (RespValue TypeArray [] 0 None (Some (map bulk_elem ms))), p) \<and>
      pos + n \<le> p \<and> p \<le> length buf"
proof (induction n arbitrary: pos marks)
  case 0
  then show ?case
    by (auto simp: resp_array_loop.simps [of buf start 0] parseElems.simps [of buf start 0]
        split: if_splits)
next
  case (Suc n)
  obtain le k e where step: "buf ! pos = CHR ''$''" "pos < length buf"
      "findCRLF buf (pos + 1) = Some le" "parseInt64 (line_of buf pos le) = Some k" "0 \<le> sint k"
      "bulk_data_end buf (le + 1) k = Inr (Some e)"
      "resp_array_loop buf start n (e + 2) (marks @ [(le + 1, e)]) = Inr (res, p)"
    using Suc.prems
    by (auto simp: resp_array_loop.simps [of buf start "Suc n"] incomplete_def
        split: if_splits option.splits sum.splits)
  have le: "le + 1 \<le> e" using resp_array_loop_marks [OF step(7) Suc.prems(2)] by simp
  have "k \<noteq> - 1" using step(5) by auto
  then have one: "parseNext buf pos = Inr (Some (bulk_elem (le + 1, e)), e + 2)"
    using step bulk_data_end_parse [OF step(6) le, of pos]
    by (simp add: parseNext.simps parseBulkString_def bulk_elem_def)
  have "pos < le" using findCRLF_bounds [OF step(3)] by simp
  with Suc.IH [OF step(7) Suc.prems(2) bulk_data_end_bounds [OF step(6)]] le show ?case
    by (auto simp: parseElems.simps [of buf start "Suc n"] one)
qed

lemma bulk_data_end_exact:
  assumes "bulk_data_end buf ds n = Inr (Some e)" and "ds \<le> length buf" and "length buf < 2 ^ 63"
    and "0 \<le> sint n"
  shows "e = ds + unat n"
proof -
  have "e = unat (word_of_nat ds + n)"
    using assms(1) by (auto simp: bulk_data_end_def Let_def split: if_splits)
  also have "\<dots> = (ds + unat n) mod 2 ^ 64"
    using assms(2,3) by (simp add: unat_word_ariths unat_of_nat64)
  also have "\<dots> = ds + unat n" using assms(2,3) unat_lt_2p63 [OF assms(4)] by simp
  finally show ?thesis .
qed

lemma resp_array_loop_moves:
  "resp_array_loop buf start n pos marks = Inr (res, p) \<Longrightarrow> pos \<le> length buf \<Longrightarrow> length buf < 2 ^ 63 \<Longrightarrow>
    pos \<le> p"
proof (induction n arbitrary: pos marks)
  case 0
  then show ?case by (auto simp: resp_array_loop.simps [of buf start 0] split: if_splits)
next
  case (Suc n)
  show ?case
  proof (cases "p = pos")
    case False
    with Suc.prems(1) obtain le k e where st: "findCRLF buf (pos + 1) = Some le"
        "bulk_data_end buf (le + 1) k = Inr (Some e)" "0 \<le> sint k"
        "resp_array_loop buf start n (e + 2) (marks @ [(le + 1, e)]) = Inr (res, p)"
      by (auto simp: resp_array_loop.simps [of buf start "Suc n"]
          split: if_splits option.splits sum.splits)
    have "pos < le" "le < length buf" using findCRLF_bounds [OF st(1)] by simp_all
    then show ?thesis
      using Suc.IH [OF st(4) bulk_data_end_bounds [OF st(2)] Suc.prems(3)]
        bulk_data_end_exact [OF st(2) _ Suc.prems(3) st(3)]
      by simp
  qed simp
qed

section \<open>Properties\<close>

text \<open>
  C31: A command the older parser completes from a RESP array is the array of bulk strings the value
  parser reads there: the same slices, the same end, and the raw view covers exactly these bytes.
\<close>

theorem resp_array_agrees:
  assumes "resp_ParseNextCommand buf pos = Inr (res, p)" and "pr_Complete res"
    and "pos < length buf" and "buf ! pos = CHR ''*''" and "length buf < 2 ^ 41"
  shows "\<exists>ms. pr_Args res = Some (map (\<lambda>(lo, hi). View lo hi) ms) \<and> pr_Raw res = Some (View pos p) \<and>
    parseNext buf pos = Inr (Some (RespValue TypeArray [] 0 None (Some (map bulk_elem ms))), p)"
proof -
  obtain le k where head: "findCRLF buf (pos + 1) = Some le" "parseInt64 (line_of buf pos le) = Some k"
      "0 \<le> sint k" "resp_array_loop buf pos (unat k) (le + 1) [] = Inr (res, p)"
    using assms(1-4)
    by (auto simp: resp_ParseNextCommand_def resp_parseArray_def incomplete_def
        split: option.splits if_splits)
  have "le + 1 \<le> length buf" using findCRLF_bounds [OF head(1)] by simp
  then obtain ms where ms: "pr_Args res = Some (map (\<lambda>(lo, hi). View lo hi) ms)"
      "parseElems buf pos (unat k) (le + 1) [] =
        Inr (Some (RespValue TypeArray [] 0 None (Some (map bulk_elem ms))), p)"
      "le + 1 + unat k \<le> p" "p \<le> length buf"
    using resp_array_loop_parse [OF head(4) assms(2)] by auto
  have "k \<noteq> - 1" using head(3) by auto
  moreover have "\<not> makeslice_panics k"
  proof -
    have "unat k < 2 ^ 41" using ms(3,4) assms(5) by linarith
    then have "int (unat k) < int (2 ^ 41)" by (simp only: of_nat_less_iff)
    then have "sint k < 2 ^ 41" unfolding sint_eq_unat64 [OF unat_lt_2p63 [OF head(3)]] by simp
    then show ?thesis by (simp add: makeslice_panics_def)
  qed
  ultimately have "parseNext buf pos =
      Inr (Some (RespValue TypeArray [] 0 None (Some (map bulk_elem ms))), p)"
    using ms(2) head assms(3,4)
    by (simp add: parseNext.simps parseArray.simps parseIntBuf_parseInt64)
  with ms(1) resp_array_loop_marks [OF head(4) assms(2)] show ?thesis by blast
qed

theorem resp_array_agrees_witness:
  "\<exists>ms. pr_Args \<lparr>pr_Type = CHR ''*'', pr_Raw = Some (View 2 21),
        pr_Args = Some [View 10 13, View 19 19], pr_Complete = True\<rparr> = Some (map (\<lambda>(lo, hi). View lo hi) ms) \<and>
    pr_Raw \<lparr>pr_Type = CHR ''*'', pr_Raw = Some (View 2 21),
        pr_Args = Some [View 10 13, View 19 19], pr_Complete = True\<rparr> = Some (View 2 21) \<and>
    parseNext (CRLF @ ''*2'' @ CRLF @ ''$3'' @ CRLF @ ''GET'' @ CRLF @ ''$0'' @ CRLF @ CRLF) 2 =
      Inr (Some (RespValue TypeArray [] 0 None (Some (map bulk_elem ms))), 21)"
  by (rule resp_array_agrees)
    (simp_all add: resp_ParseNextCommand_def resp_parseArray_def resp_array_loop.simps findCRLF.simps
      line_of_def sub_def parseInt64_def is_digit_def digit_val_def bulk_data_end_def)

text \<open>
  When the elements of an array are not all there, the older parser does not go back to the start
  of the array: the position it keeps is behind the header, so the next call takes an element for a
  command of its own.
\<close>

theorem resp_incomplete_array_moves:
  assumes "findCRLF buf (pos + 1) = Some lineEnd" and "parseInt64 (line_of buf pos lineEnd) = Some count"
    and "0 \<le> sint count" and "buf ! pos = CHR ''*''" and "length buf < 2 ^ 63"
    and "resp_ParseNextCommand buf pos = Inr (res, p)"
  shows "lineEnd + 1 \<le> p"
proof -
  have "pos + 1 < lineEnd" "lineEnd < length buf" using findCRLF_bounds [OF assms(1)] by simp_all
  then show ?thesis
    using assms resp_array_loop_moves [of buf pos "unat count" "lineEnd + 1" "[]" res p]
    by (simp add: resp_ParseNextCommand_def resp_parseArray_def)
qed


theorem resp_incomplete_array_moves_witness:
  "resp_ParseNextCommand (''*1'' @ CRLF @ ''$4'' @ CRLF @ ''PI'') 0 = Inr (incomplete, 4) \<and> 3 + 1 \<le> (4 :: nat)"
proof
  show run: "resp_ParseNextCommand (''*1'' @ CRLF @ ''$4'' @ CRLF @ ''PI'') 0 = Inr (incomplete, 4)"
    by (simp add: resp_ParseNextCommand_def resp_parseArray_def resp_array_loop.simps findCRLF.simps
      line_of_def sub_def parseInt64_def is_digit_def digit_val_def bulk_data_end_def)
  show "3 + 1 \<le> (4 :: nat)"
    by (rule resp_incomplete_array_moves [OF _ _ _ _ _ run, where count = 1])
      (simp_all add: findCRLF.simps line_of_def sub_def parseInt64_def is_digit_def digit_val_def)
qed

end
