(* ===== verification/Command_Layer.thy ===== *)
theory Command_Layer
  imports Protocol_Writer
begin

text \<open>
  \<^verbatim>\<open>internal/command\<close>: executable commands, the registry from names to factories, and the two ways the
  code builds a command from a request, \<^verbatim>\<open>BuildCommand\<close> and the factories of \<^verbatim>\<open>RegisterBuiltins\<close>. The
  locale \<open>keyed_table\<close> is the contract of a table whose keys are normalised, interpreted on the
  registry. What a request answers under the built-in registry is \<open>processRequest\<close> of the
  dispatcher; here it is shown equal to executing \<^verbatim>\<open>BuildCommand\<close>.
\<close>

section \<open>Commands\<close>

text \<open>The execution context, less the network address, which no command of the program reads.\<close>

record cmd_context =
  ctx_Name :: bytes
  ctx_Args :: "bytes option list"
  ctx_SessionID :: "64 word"

text \<open>
  The implementations of the \<^verbatim>\<open>Command\<close> interface in the package. \<^verbatim>\<open>funcCommand\<close> holds a user's handler,
  a function of the context that may be nil; what the handler does besides returning a value is
  outside the program.
\<close>

type_synonym handle_func = "cmd_context \<Rightarrow> rvalue"

datatype command =
    PingCommand (message: "bytes option") (hasMessage: bool)
  | EchoCommand (message: "bytes option")
  | InvalidArgsCommand (cmd_name: bytes)
  | UnknownCommand (cmd_name: bytes)
  | FuncCommand "handle_func option"

definition NotFoundError :: "bytes \<Rightarrow> rvalue" where
  "NotFoundError cmdName = Error (''ERR unknown command '' @ [SQUOTE] @ cmdName @ [SQUOTE])"

fun Execute :: "command \<Rightarrow> cmd_context \<Rightarrow> rvalue go" where
  "Execute (PingCommand msg has) ctx =
     Inr (if \<not> has then SimpleString ''PONG'' else BulkBytes msg)"
| "Execute (EchoCommand msg) ctx = Inr (BulkBytes msg)"
| "Execute (InvalidArgsCommand name) ctx =
     Inr (Error (''ERR wrong number of arguments for '' @ [SQUOTE] @ name @ [SQUOTE] @ '' command''))"
| "Execute (UnknownCommand name) ctx = Inr (NotFoundError name)"
| "Execute (FuncCommand fn) ctx =
     (case fn of None \<Rightarrow> Inl Nil_dereference | Some f \<Rightarrow> Inr (f ctx))"

definition buildPingCommand :: "bytes option list \<Rightarrow> command" where
  "buildPingCommand args =
     (if length args = 0 then PingCommand None False
      else if length args = 1 then PingCommand (args ! 0) True
      else InvalidArgsCommand ''ping'')"

definition buildEchoCommand :: "bytes option list \<Rightarrow> command" where
  "buildEchoCommand args =
     (if length args \<noteq> 1 then InvalidArgsCommand ''echo'' else EchoCommand (args ! 0))"

definition BuildCommand :: "(bytes \<Rightarrow> bytes) \<Rightarrow> rvalue \<Rightarrow> command" where
  "BuildCommand uni request =
     (let name = CommandName uni request; args = CommandArgs request
      in if name = ''ping'' then buildPingCommand args
         else if name = ''echo'' then buildEchoCommand args
         else UnknownCommand name)"

section \<open>Tables with normalised keys\<close>

text \<open>
  A table read through \<open>get\<close> and extended through \<open>put\<close>, where two keys are the same when their
  normal forms are. Whatever sequence of insertions made the table, the last one for a key decides.
\<close>

locale keyed_table =
  fixes norm :: "'k \<Rightarrow> 'n"
    and put :: "'k \<Rightarrow> 'v \<Rightarrow> 't \<Rightarrow> 't"
    and get :: "'k \<Rightarrow> 't \<Rightarrow> 'v"
  assumes get_put_same: "norm k = norm k' \<Longrightarrow> get k (put k' v t) = v"
    and get_put_other: "norm k \<noteq> norm k' \<Longrightarrow> get k (put k' v t) = get k t"
begin

definition puts :: "('k \<times> 'v) list \<Rightarrow> 't \<Rightarrow> 't" where
  "puts kvs t = fold (\<lambda>(k, v). put k v) kvs t"

lemma get_put: "get k (put k' v t) = (if norm k = norm k' then v else get k t)"
  by (simp add: get_put_same get_put_other)

lemma get_puts:
  "get k (puts kvs t) =
     (case map_of (rev (map (\<lambda>(k, v). (norm k, v)) kvs)) (norm k) of Some v \<Rightarrow> v | None \<Rightarrow> get k t)"
  by (induction kvs arbitrary: t)
    (auto simp: puts_def get_put map_add_def split: option.splits)

lemma put_overwrites: "norm k = norm k' \<Longrightarrow> get j (put k v (put k' w t)) = get j (put k v t)"
  by (simp add: get_put)

lemma put_commutes:
  "norm k \<noteq> norm k' \<Longrightarrow> get j (put k v (put k' w t)) = get j (put k' w (put k v t))"
  by (auto simp: get_put)

end

section \<open>The registry\<close>

text \<open>
  A factory returns a command, which may be the nil interface, and an error, given by its message.
  A registered factory may itself be nil.
\<close>

type_synonym factory = "bytes \<Rightarrow> bytes option list \<Rightarrow> command option \<times> bytes option"

record registry =
  factories :: "bytes \<rightharpoonup> factory option"
  notFound :: "factory option"

definition NewRegistry :: registry where
  "NewRegistry = \<lparr>factories = Map.empty, notFound = None\<rparr>"

definition Register :: "(bytes \<Rightarrow> bytes) \<Rightarrow> bytes \<Rightarrow> factory option \<Rightarrow> registry \<Rightarrow> registry" where
  "Register uni name f r = r\<lparr>factories := (factories r)(strings_ToLower uni name \<mapsto> f)\<rparr>"

definition SetNotFound :: "factory option \<Rightarrow> registry \<Rightarrow> registry" where
  "SetNotFound f r = r\<lparr>notFound := f\<rparr>"

definition Lookup :: "(bytes \<Rightarrow> bytes) \<Rightarrow> bytes \<Rightarrow> registry \<Rightarrow> factory option" where
  "Lookup uni name r =
     (case factories r (strings_ToLower uni name) of Some f \<Rightarrow> f | None \<Rightarrow> notFound r)"

definition FuncFactory :: "handle_func option \<Rightarrow> factory" where
  "FuncFactory fn = (\<lambda>name args. (Some (FuncCommand fn), None))"

definition RegisterBuiltins :: "(bytes \<Rightarrow> bytes) \<Rightarrow> registry option \<Rightarrow> registry option" where
  "RegisterBuiltins uni r =
     (case r of
        None \<Rightarrow> None
      | Some reg \<Rightarrow>
          Some (Register uni ''echo'' (Some (\<lambda>name args. (Some (buildEchoCommand args), None)))
            (Register uni ''ping'' (Some (\<lambda>name args. (Some (buildPingCommand args), None))) reg)))"

lemmas registry_defs = NewRegistry_def Register_def SetNotFound_def Lookup_def RegisterBuiltins_def

interpretation registry_table: keyed_table "strings_ToLower uni" "Register uni" "Lookup uni" for uni
  by unfold_locales (auto simp: registry_defs split: option.split)

lemma Lookup_SetNotFound:
  "Lookup uni name (SetNotFound f r) =
     (if factories r (strings_ToLower uni name) = None then f else Lookup uni name r)"
  by (auto simp: registry_defs split: option.splits)

lemma list_all_is_ascii_names [simp]: "list_all is_ascii ''ping''" "list_all is_ascii ''echo''"
  by (simp_all add: is_ascii_def)

lemma ToLower_names [simp]:
  "strings_ToLower uni ''ping'' = ''ping''" "strings_ToLower uni ''echo'' = ''echo''"
  by (simp_all add: strings_ToLower_def lower_byte_def is_upper_def is_ascii_def)

lemma Lookup_builtins:
  "RegisterBuiltins uni (Some r) = Some r' \<Longrightarrow>
    Lookup uni name r' =
      (if strings_ToLower uni name = ''echo''
       then Some (\<lambda>name args. (Some (buildEchoCommand args), None))
       else if strings_ToLower uni name = ''ping''
       then Some (\<lambda>name args. (Some (buildPingCommand args), None))
       else Lookup uni name r)"
  by (auto simp: RegisterBuiltins_def registry_table.get_put)

section \<open>Running one request\<close>

text \<open>
  \<^verbatim>\<open>processRequest\<close> of the dispatcher, up to the value it delivers. A factory that reports no error
  and returns the nil interface makes the call of \<^verbatim>\<open>Execute\<close> panic.
\<close>

definition processRequest ::
  "(bytes \<Rightarrow> bytes) \<Rightarrow> registry \<Rightarrow> 64 word \<Rightarrow> bytes \<Rightarrow> bytes option list \<Rightarrow> rvalue go" where
  "processRequest uni reg sessionID name args =
     (let ctx = \<lparr>ctx_Name = name, ctx_Args = args, ctx_SessionID = sessionID\<rparr> in
      case Lookup uni name reg of
        None \<Rightarrow> Inr (NotFoundError name)
      | Some f \<Rightarrow>
          (case f name args of
             (_, Some err) \<Rightarrow> Inr (Error (''ERR '' @ err))
           | (None, None) \<Rightarrow> Inl Nil_dereference
           | (Some cmd, None) \<Rightarrow> Execute cmd ctx))"

lemma processRequest_builtins:
  assumes "strings_ToLower uni name = name"
    and "RegisterBuiltins uni (Some NewRegistry) = Some reg"
  shows "processRequest uni reg sid name args =
    Execute (if name = ''ping'' then buildPingCommand args
             else if name = ''echo'' then buildEchoCommand args
             else UnknownCommand name)
      \<lparr>ctx_Name = name, ctx_Args = args, ctx_SessionID = sid\<rparr>"
  using assms(1)
  by (simp add: processRequest_def Lookup_builtins [OF assms(2)] Let_def)
    (simp add: registry_defs)

lemma CommandName_lower:
  "CommandName uni v = [] \<or> (\<exists>raw. CommandName uni v = strings_ToLower uni raw)"
  by (auto simp: CommandName_def NormalizeCommandNameBytes_eq NormalizeCommandNameString_eq
      split: list.splits)

text \<open>The built-in commands never panic, and what they return is one of four shapes.\<close>

lemma build_no_panic:
  "\<exists>v. Execute (buildPingCommand args) ctx = Inr v" "\<exists>v. Execute (buildEchoCommand args) ctx = Inr v"
  by (auto simp: buildPingCommand_def buildEchoCommand_def)

lemma CommandName_upper:
  "CommandName uni (ArrayOf (BulkFromString raw # vs)) = strings_ToLower uni raw"
  by (simp add: CommandName_def value_constructors NormalizeCommandNameBytes_eq)

lemma CommandArgs_bulks:
  "CommandArgs (ArrayOf (first # map BulkFromString args)) = map Some args"
  by (auto simp: CommandArgs_def value_constructors arg_bytes_def)

section \<open>Properties\<close>

text \<open>
  C26: A lookup after any sequence of registrations finds the last factory registered under a name
  that lower-cases to the same key; with none, what the lookup found before.
\<close>

theorem lookup_after_registrations:
  "Lookup uni name (fold (\<lambda>(n, f). Register uni n f) regs r) =
    (case map_of (rev (map (\<lambda>(n, f). (strings_ToLower uni n, f)) regs)) (strings_ToLower uni name) of
       Some f \<Rightarrow> f
     | None \<Rightarrow> Lookup uni name r)"
  using registry_table.get_puts [of uni name regs r] by (simp only: registry_table.puts_def)

text \<open>
  C25: The dispatcher's registry of built-in commands and \<^verbatim>\<open>BuildCommand\<close> are the same: a request is
  answered by the command \<^verbatim>\<open>BuildCommand\<close> makes of it, and never panics.
\<close>

theorem builtins_agree_with_BuildCommand:
  assumes "strings_ToLower uni (CommandName uni v) = CommandName uni v"
    and "RegisterBuiltins uni (Some NewRegistry) = Some reg"
  shows "processRequest uni reg sid (CommandName uni v) (CommandArgs v) = Execute (BuildCommand uni v) ctx \<and>
    (\<exists>reply. Execute (BuildCommand uni v) ctx = Inr reply)"
  using processRequest_builtins [OF assms, of sid "CommandArgs v"]
  by (auto simp: BuildCommand_def Let_def buildPingCommand_def buildEchoCommand_def)

theorem builtins_agree_with_BuildCommand_witness:
  "\<exists>reg. RegisterBuiltins id (Some NewRegistry) = Some reg \<and>
    processRequest id reg 1 ''ping'' [] =
      Execute (BuildCommand id (ArrayOf [BulkFromString ''PiNG''])) \<lparr>ctx_Name = [], ctx_Args = [], ctx_SessionID = 0\<rparr>"
proof -
  let ?v = "ArrayOf [BulkFromString ''PiNG'']"
  obtain reg where reg: "RegisterBuiltins id (Some NewRegistry) = Some reg"
    by (simp add: RegisterBuiltins_def)
  have name: "CommandName id ?v = ''ping''" "CommandArgs ?v = []"
    by (simp_all add: CommandName_upper strings_ToLower_def lower_byte_def is_upper_def is_ascii_def
        char_of_def CommandArgs_def value_constructors) code_simp
  with builtins_agree_with_BuildCommand [of id ?v reg 1] reg show ?thesis by simp
qed

text \<open>
  A request whose name is not registered is answered with the unknown-command error, and with the
  not-found factory when one is set.
\<close>

theorem unregistered_name:
  assumes "factories r (strings_ToLower uni name) = None"
  shows "processRequest uni (SetNotFound None r) sid name args = Inr (NotFoundError name) \<and>
    processRequest uni (SetNotFound (Some (FuncFactory (Some fn))) r) sid name args =
      Inr (fn \<lparr>ctx_Name = name, ctx_Args = args, ctx_SessionID = sid\<rparr>)"
  using assms by (simp add: processRequest_def Lookup_SetNotFound FuncFactory_def)

theorem unregistered_name_witness:
  "processRequest id (SetNotFound None NewRegistry) 1 ''nope'' [] = Inr (NotFoundError ''nope'')"
  using unregistered_name [of NewRegistry id "''nope''" 1 "[]" "\<lambda>_. Null"]
  by (simp add: NewRegistry_def)

end
