(* ===== verification/Go_Channel.thy ===== *)
theory Go_Channel
  imports Go_Prelude
begin

text \<open>
  Buffered Go channels, used by the dispatcher's queues, the result channels and the session's
  response queue. An operation that would block has no result (\<open>None\<close>): in a step relation such a
  step is not enabled. The channels the program uses without a buffer only ever signal by being
  closed, so they are modelled as booleans. The locale \<open>bounded_fifo\<close> is the contract of a bounded
  queue: what comes out is what went in, in order.
\<close>

section \<open>Channels\<close>

record 'a chan =
  ch_cap :: nat
  ch_buf :: "'a list"
  ch_closed :: bool

definition make_chan :: "nat \<Rightarrow> 'a chan" where
  "make_chan n = \<lparr>ch_cap = n, ch_buf = [], ch_closed = False\<rparr>"

definition chan_send :: "'a \<Rightarrow> 'a chan \<Rightarrow> 'a chan go option" where
  "chan_send x c =
     (if ch_closed c then Some (Inl Send_on_closed_channel)
      else if length (ch_buf c) < ch_cap c then Some (Inr (c\<lparr>ch_buf := ch_buf c @ [x]\<rparr>))
      else None)"

text \<open>Receiving from a closed and empty channel yields the zero value with \<^verbatim>\<open>ok = false\<close>.\<close>

definition chan_recv :: "'a chan \<Rightarrow> ('a option \<times> 'a chan) option" where
  "chan_recv c =
     (case ch_buf c of
        x # xs \<Rightarrow> Some (Some x, c\<lparr>ch_buf := xs\<rparr>)
      | [] \<Rightarrow> if ch_closed c then Some (None, c) else None)"

definition chan_close :: "'a chan \<Rightarrow> 'a chan go" where
  "chan_close c = (if ch_closed c then Inl Close_of_closed_channel else Inr (c\<lparr>ch_closed := True\<rparr>))"

lemma make_chan_simps [simp]:
  "ch_cap (make_chan n) = n" "ch_buf (make_chan n) = []" "\<not> ch_closed (make_chan n)"
  by (simp_all add: make_chan_def)

lemma chan_send_cases:
  "chan_send x c = Some (Inr c') \<longleftrightarrow>
     \<not> ch_closed c \<and> length (ch_buf c) < ch_cap c \<and> c' = c\<lparr>ch_buf := ch_buf c @ [x]\<rparr>"
  "chan_send x c = Some (Inl p) \<longleftrightarrow> ch_closed c \<and> p = Send_on_closed_channel"
  "chan_send x c = None \<longleftrightarrow> \<not> ch_closed c \<and> ch_cap c \<le> length (ch_buf c)"
  by (auto simp: chan_send_def)

lemma chan_recv_cases:
  "chan_recv c = Some (Some x, c') \<longleftrightarrow> (\<exists>xs. ch_buf c = x # xs \<and> c' = c\<lparr>ch_buf := xs\<rparr>)"
  "chan_recv c = Some (None, c') \<longleftrightarrow> ch_buf c = [] \<and> ch_closed c \<and> c' = c"
  "chan_recv c = None \<longleftrightarrow> ch_buf c = [] \<and> \<not> ch_closed c"
  by (auto simp: chan_recv_def split: list.splits)

lemma chan_close_cases:
  "chan_close c = Inr c' \<longleftrightarrow> \<not> ch_closed c \<and> c' = c\<lparr>ch_closed := True\<rparr>"
  "chan_close c = Inl p \<longleftrightarrow> ch_closed c \<and> p = Close_of_closed_channel"
  by (auto simp: chan_close_def)

section \<open>Bounded queues\<close>

datatype 'a queue_op = Put 'a | Take 'a

fun put_ops :: "'a queue_op list \<Rightarrow> 'a list" where
  "put_ops [] = []"
| "put_ops (Put x # ops) = x # put_ops ops"
| "put_ops (Take x # ops) = put_ops ops"

fun take_ops :: "'a queue_op list \<Rightarrow> 'a list" where
  "take_ops [] = []"
| "take_ops (Put x # ops) = take_ops ops"
| "take_ops (Take x # ops) = x # take_ops ops"

locale bounded_fifo =
  fixes put :: "'a \<Rightarrow> 'q \<Rightarrow> 'q option"
    and get :: "'q \<Rightarrow> ('a \<times> 'q) option"
    and items :: "'q \<Rightarrow> 'a list"
    and cap :: "'q \<Rightarrow> nat"
  assumes put_items: "put x q = Some q' \<Longrightarrow> items q' = items q @ [x]"
    and put_cap: "put x q = Some q' \<Longrightarrow> length (items q) < cap q \<and> cap q' = cap q"
    and get_items: "get q = Some (x, q') \<Longrightarrow> items q = x # items q' \<and> cap q' = cap q"
begin

text \<open>A run of the queue, each operation as it happened.\<close>

fun queue_run :: "'a queue_op list \<Rightarrow> 'q \<Rightarrow> 'q \<Rightarrow> bool" where
  "queue_run [] q q' \<longleftrightarrow> q' = q"
| "queue_run (Put x # ops) q q' \<longleftrightarrow> (\<exists>r. put x q = Some r \<and> queue_run ops r q')"
| "queue_run (Take x # ops) q q' \<longleftrightarrow> (\<exists>r. get q = Some (x, r) \<and> queue_run ops r q')"

lemma fifo_history: "queue_run ops q q' \<Longrightarrow> items q @ put_ops ops = take_ops ops @ items q'"
  by (induction ops q q' rule: queue_run.induct)
    (simp, metis append.assoc append_Cons append_Nil put_items put_ops.simps(2) queue_run.simps(2)
      take_ops.simps(2), auto dest!: get_items)

lemma fifo_bounded:
  "queue_run ops q q' \<Longrightarrow> length (items q) \<le> cap q \<Longrightarrow> length (items q') \<le> cap q' \<and> cap q' = cap q"
proof (induction ops q q' rule: queue_run.induct)
  case (2 x ops q q')
  then obtain r where r: "put x q = Some r" "queue_run ops r q'" by auto
  then show ?case using 2 put_items [OF r(1)] put_cap [OF r(1)] by (metis Suc_leI length_append_singleton)
next
  case (3 x ops q q')
  then obtain r where r: "get q = Some (x, r)" "queue_run ops r q'" by auto
  then show ?case using 3 get_items [OF r(1)] by (metis Suc_leD length_Cons)
qed simp

end

text \<open>The contract on channels: a send that goes through, a receive that yields a value.\<close>

definition try_send :: "'a \<Rightarrow> 'a chan \<Rightarrow> 'a chan option" where
  "try_send x c = (case chan_send x c of Some (Inr c') \<Rightarrow> Some c' | _ \<Rightarrow> None)"

definition try_recv :: "'a chan \<Rightarrow> ('a \<times> 'a chan) option" where
  "try_recv c = (case chan_recv c of Some (Some x, c') \<Rightarrow> Some (x, c') | _ \<Rightarrow> None)"

interpretation chan_fifo: bounded_fifo try_send try_recv ch_buf ch_cap
  by unfold_locales
    (auto simp: try_send_def try_recv_def chan_send_cases chan_recv_cases
      split: option.splits sum.splits)

end
