(* ===== verification/Dispatcher.thy ===== *)
theory Dispatcher
  imports Command_Layer Go_Channel "HOL-Library.Multiset"
begin

text \<open>
  \<^verbatim>\<open>internal/dispatcher/dispatcher.go\<close>: requests go through an incoming queue to a scheduler goroutine,
  from there through a ready queue (or a waiting list when it is full) to worker goroutines, and
  back to the scheduler through a completion queue. Every goroutine is a thread of the state
  \<open>dispatcher\<close>; one definition per atomic action, \<open>d_act\<close> performs an action when it is enabled, and
  \<open>d_run\<close> is the inductive relation of all interleavings. Lemmas: the invariant \<open>d_inv\<close> of every
  reachable state, no accepted request is lost or answered twice, no channel is used after it is
  closed, and once \<^verbatim>\<open>Stop\<close> has been called every run of the dispatcher's own actions is finite and
  ends with the scheduler and the workers gone.
\<close>

section \<open>Requests and state\<close>

text \<open>A result channel is named by a number; \<open>None\<close> is the nil channel.\<close>

record request =
  req_SessionID :: "64 word"
  req_Name :: bytes
  req_Args :: "bytes option list"
  req_Result :: "nat option"

datatype dispatch_error = ErrDispatcherStopped | ErrResultUnavailable | ErrInvalidRequest

text \<open>
  Where a worker is in \<^verbatim>\<open>workerLoop\<close>: receiving from \<^verbatim>\<open>readyQueue\<close>, running the command, delivering the
  result, sending to \<^verbatim>\<open>completeQueue\<close>, returned. Likewise the scheduler: not started, in its select,
  placing the request it has just accepted, returned. And the one call of \<^verbatim>\<open>Stop\<close> that runs its body.
\<close>

datatype worker =
    W_recv
  | W_exec request
  | W_deliver request rvalue
  | W_complete request
  | W_exit

datatype sched = Sched_off | Sched_select | Sched_place request | Sched_exit

datatype stop_phase = Not_stopping | Stop_flagged | Stop_wait_enqueue | Stop_wait_loops | Stop_returned

record dispatcher =
  d_registry :: registry
  d_incoming :: "request chan"
  d_ready :: "request chan"
  d_complete :: "request chan"
  d_waiting :: "request list"
  d_queueSize :: nat
  d_workers :: nat
  d_enqueueDone :: bool
  d_stopped :: bool
  d_started :: bool
  d_stop :: stop_phase
  d_senders :: "request list"
  d_sched :: sched
  d_pending :: int
  d_incoming_nil :: bool
  d_pool :: "worker list"
  d_results :: "nat \<Rightarrow> rvalue chan"
  d_panic :: "go_panic option"

text \<open>
  \<open>d_senders\<close>: the calls of \<^verbatim>\<open>Enqueue\<close> that have passed the lock and sit in their select; their number
  is the count of \<^verbatim>\<open>enqueueWG\<close>. \<open>d_pending\<close> and \<open>d_incoming_nil\<close> are the scheduler's local variables
  \<^verbatim>\<open>pendingWorkers\<close> and \<^verbatim>\<open>incomingQueue == nil\<close>. A panic in any goroutine ends the program.
\<close>

definition NewDispatcher :: "registry \<Rightarrow> int \<Rightarrow> int \<Rightarrow> (nat \<Rightarrow> rvalue chan) \<Rightarrow> dispatcher" where
  "NewDispatcher reg workers queueSize results =
     (let w = (if workers \<le> 0 then 1 else workers);
          q = (if queueSize \<le> 0 then 4096 else queueSize)
      in \<lparr>d_registry = reg, d_incoming = make_chan (nat q), d_ready = make_chan (nat q),
          d_complete = make_chan (nat q), d_waiting = [], d_queueSize = nat q, d_workers = nat w,
          d_enqueueDone = False, d_stopped = False, d_started = False, d_stop = Not_stopping,
          d_senders = [], d_sched = Sched_off, d_pending = 0, d_incoming_nil = False, d_pool = [],
          d_results = results, d_panic = None\<rparr>)"

text \<open>What an outside observer sees of an action.\<close>

datatype d_event =
    Refused "request option" dispatch_error
  | Accepted request
  | Delivered request rvalue
  | Received nat rvalue

type_synonym d_result = "(dispatcher \<times> d_event list) option"

definition panic_with :: "go_panic \<Rightarrow> dispatcher \<Rightarrow> d_result" where
  "panic_with p d = Some (d\<lparr>d_panic := Some p\<rparr>, [])"

definition remove_nth :: "nat \<Rightarrow> 'a list \<Rightarrow> 'a list" where
  "remove_nth i xs = take i xs @ drop (Suc i) xs"

section \<open>Enqueue, Start and Stop\<close>

text \<open>
  \<^verbatim>\<open>Enqueue\<close> up to its select: the checks of the request and of its result channel, and the check of
  \<^verbatim>\<open>stopped\<close> together with \<^verbatim>\<open>enqueueWG.Add(1)\<close> under the lock.
\<close>

definition enqueue_check :: "dispatcher \<Rightarrow> request option \<Rightarrow> dispatch_error option" where
  "enqueue_check d req =
     (case req of
        None \<Rightarrow> Some ErrInvalidRequest
      | Some r \<Rightarrow>
          (case req_Result r of
             None \<Rightarrow> Some ErrResultUnavailable
           | Some c \<Rightarrow>
               if ch_cap (d_results d c) = 0 \<or> length (ch_buf (d_results d c)) \<noteq> 0
               then Some ErrResultUnavailable
               else if d_stopped d then Some ErrDispatcherStopped
               else None))"

definition enqueue_begin :: "request option \<Rightarrow> dispatcher \<Rightarrow> d_result" where
  "enqueue_begin req d =
     (case enqueue_check d req of
        Some err \<Rightarrow> Some (d, [Refused req err])
      | None \<Rightarrow> Some (d\<lparr>d_senders := d_senders d @ [the req]\<rparr>, []))"

text \<open>The two cases of the select of \<^verbatim>\<open>Enqueue\<close>, for the \<open>i\<close>-th waiting call.\<close>

definition enqueue_send :: "nat \<Rightarrow> dispatcher \<Rightarrow> d_result" where
  "enqueue_send i d =
     (if i < length (d_senders d) then
        (case chan_send (d_senders d ! i) (d_incoming d) of
           None \<Rightarrow> None
         | Some (Inl p) \<Rightarrow> panic_with p d
         | Some (Inr c) \<Rightarrow>
             Some (d\<lparr>d_incoming := c, d_senders := remove_nth i (d_senders d)\<rparr>,
               [Accepted (d_senders d ! i)]))
      else None)"

definition enqueue_abort :: "nat \<Rightarrow> dispatcher \<Rightarrow> d_result" where
  "enqueue_abort i d =
     (if i < length (d_senders d) \<and> d_enqueueDone d then
        Some (d\<lparr>d_senders := remove_nth i (d_senders d)\<rparr>,
          [Refused (Some (d_senders d ! i)) ErrDispatcherStopped])
      else None)"

text \<open>\<^verbatim>\<open>Start\<close> launches the scheduler, then the workers one after another.\<close>

definition start_scheduler :: "dispatcher \<Rightarrow> d_result" where
  "start_scheduler d =
     (if d_started d then None
      else Some (d\<lparr>d_started := True, d_sched := Sched_select\<rparr>, []))"

definition start_worker :: "dispatcher \<Rightarrow> d_result" where
  "start_worker d =
     (if d_started d \<and> length (d_pool d) < d_workers d
      then Some (d\<lparr>d_pool := d_pool d @ [W_recv]\<rparr>, []) else None)"

definition loops_done :: "dispatcher \<Rightarrow> bool" where
  "loops_done d \<longleftrightarrow> d_sched d \<in> {Sched_off, Sched_exit} \<and> list_all (\<lambda>w. w = W_exit) (d_pool d)"

definition stop_call :: "dispatcher \<Rightarrow> d_result" where
  "stop_call d =
     (if d_stop d = Not_stopping then Some (d\<lparr>d_stop := Stop_flagged, d_stopped := True\<rparr>, [])
      else None)"

definition stop_continue :: "dispatcher \<Rightarrow> d_result" where
  "stop_continue d =
     (case d_stop d of
        Not_stopping \<Rightarrow> None
      | Stop_flagged \<Rightarrow>
          (if d_enqueueDone d then panic_with Close_of_closed_channel d
           else Some (d\<lparr>d_enqueueDone := True, d_stop := Stop_wait_enqueue\<rparr>, []))
      | Stop_wait_enqueue \<Rightarrow>
          (if d_senders d \<noteq> [] then None
           else case chan_close (d_incoming d) of
                  Inl p \<Rightarrow> panic_with p d
                | Inr c \<Rightarrow> Some (d\<lparr>d_incoming := c, d_stop := Stop_wait_loops\<rparr>, []))
      | Stop_wait_loops \<Rightarrow>
          (if loops_done d then Some (d\<lparr>d_stop := Stop_returned\<rparr>, []) else None)
      | Stop_returned \<Rightarrow> None)"

section \<open>The scheduler\<close>

definition sched_stops :: "dispatcher \<Rightarrow> bool" where
  "sched_stops d \<longleftrightarrow> d_incoming_nil d \<and> d_pending d = 0 \<and> length (d_waiting d) = 0"

definition sched_exit :: "dispatcher \<Rightarrow> d_result" where
  "sched_exit d =
     (if d_sched d = Sched_select \<and> sched_stops d then
        (case chan_close (d_ready d) of
           Inl p \<Rightarrow> panic_with p d
         | Inr c \<Rightarrow> Some (d\<lparr>d_ready := c, d_sched := Sched_exit\<rparr>, []))
      else None)"

text \<open>
  The first case of the select, enabled only while the waiting list has room, and then the inner
  select with its default.
\<close>

definition sched_accept :: "dispatcher \<Rightarrow> d_result" where
  "sched_accept d =
     (if d_sched d = Sched_select \<and> \<not> sched_stops d \<and>
         \<not> d_incoming_nil d \<and> length (d_waiting d) < d_queueSize d then
        (case chan_recv (d_incoming d) of
           None \<Rightarrow> None
         | Some (None, _) \<Rightarrow> Some (d\<lparr>d_incoming_nil := True\<rparr>, [])
         | Some (Some req, c) \<Rightarrow>
             Some (d\<lparr>d_incoming := c, d_pending := d_pending d + 1, d_sched := Sched_place req\<rparr>, []))
      else None)"

definition sched_place :: "dispatcher \<Rightarrow> d_result" where
  "sched_place d =
     (case d_sched d of
        Sched_place req \<Rightarrow>
          (case chan_send req (d_ready d) of
             Some (Inl p) \<Rightarrow> panic_with p d
           | Some (Inr c) \<Rightarrow> Some (d\<lparr>d_ready := c, d_sched := Sched_select\<rparr>, [])
           | None \<Rightarrow> Some (d\<lparr>d_waiting := d_waiting d @ [req], d_sched := Sched_select\<rparr>, []))
      | _ \<Rightarrow> None)"

definition sched_forward :: "dispatcher \<Rightarrow> d_result" where
  "sched_forward d =
     (if d_sched d = Sched_select \<and> \<not> sched_stops d then
        (case d_waiting d of
           [] \<Rightarrow> None
         | nextReq # rest \<Rightarrow>
             (case chan_send nextReq (d_ready d) of
                None \<Rightarrow> None
              | Some (Inl p) \<Rightarrow> panic_with p d
              | Some (Inr c) \<Rightarrow> Some (d\<lparr>d_ready := c, d_waiting := rest\<rparr>, [])))
      else None)"

definition sched_complete :: "dispatcher \<Rightarrow> d_result" where
  "sched_complete d =
     (if d_sched d = Sched_select \<and> \<not> sched_stops d then
        (case chan_recv (d_complete d) of
           None \<Rightarrow> None
         | Some (req, c) \<Rightarrow>
             Some (d\<lparr>d_complete := c,
               d_pending := (if req \<noteq> None \<and> 0 < d_pending d then d_pending d - 1 else d_pending d)\<rparr>,
               []))
      else None)"

section \<open>The workers\<close>

definition set_worker :: "nat \<Rightarrow> worker \<Rightarrow> dispatcher \<Rightarrow> dispatcher" where
  "set_worker i w d = d\<lparr>d_pool := (d_pool d)[i := w]\<rparr>"

text \<open>One action of the \<open>i\<close>-th worker. Delivering to a full result channel blocks the worker.\<close>

definition deliverResult :: "request \<Rightarrow> rvalue \<Rightarrow> dispatcher \<Rightarrow> dispatcher go option" where
  "deliverResult req v d =
     (case req_Result req of
        None \<Rightarrow> None
      | Some c \<Rightarrow>
          (case chan_send v (d_results d c) of
             None \<Rightarrow> None
           | Some (Inl p) \<Rightarrow> Some (Inl p)
           | Some (Inr ch) \<Rightarrow> Some (Inr (d\<lparr>d_results := (d_results d)(c := ch)\<rparr>))))"

definition worker_step :: "(bytes \<Rightarrow> bytes) \<Rightarrow> nat \<Rightarrow> dispatcher \<Rightarrow> d_result" where
  "worker_step uni i d =
     (if i < length (d_pool d) then
        (case d_pool d ! i of
           W_recv \<Rightarrow>
             (case chan_recv (d_ready d) of
                None \<Rightarrow> None
              | Some (None, _) \<Rightarrow> Some (set_worker i W_exit d, [])
              | Some (Some req, c) \<Rightarrow> Some (set_worker i (W_exec req) (d\<lparr>d_ready := c\<rparr>), []))
         | W_exec req \<Rightarrow>
             (case processRequest uni (d_registry d) (req_SessionID req) (req_Name req) (req_Args req) of
                Inl p \<Rightarrow> panic_with p d
              | Inr v \<Rightarrow> Some (set_worker i (W_deliver req v) d, []))
         | W_deliver req v \<Rightarrow>
             (case deliverResult req v d of
                None \<Rightarrow> None
              | Some (Inl p) \<Rightarrow> panic_with p d
              | Some (Inr d') \<Rightarrow> Some (set_worker i (W_complete req) d', [Delivered req v]))
         | W_complete req \<Rightarrow>
             (case chan_send req (d_complete d) of
                None \<Rightarrow> None
              | Some (Inl p) \<Rightarrow> panic_with p d
              | Some (Inr c) \<Rightarrow> Some (set_worker i W_recv (d\<lparr>d_complete := c\<rparr>), []))
         | W_exit \<Rightarrow> None)
      else None)"

section \<open>All interleavings\<close>

text \<open>\<open>D_receive\<close> is the caller taking the answer from its result channel.\<close>

definition take_result :: "nat \<Rightarrow> dispatcher \<Rightarrow> d_result" where
  "take_result c d =
     (case chan_recv (d_results d c) of
        Some (Some v, ch) \<Rightarrow> Some (d\<lparr>d_results := (d_results d)(c := ch)\<rparr>, [Received c v])
      | _ \<Rightarrow> None)"

datatype d_action =
    D_enqueue "request option"
  | D_send nat
  | D_abort nat
  | D_start
  | D_spawn
  | D_stop
  | D_stop_continue
  | D_exit
  | D_accept
  | D_place
  | D_forward
  | D_complete
  | D_worker nat
  | D_receive nat

fun d_enabled :: "(bytes \<Rightarrow> bytes) \<Rightarrow> d_action \<Rightarrow> dispatcher \<Rightarrow> d_result" where
  "d_enabled uni (D_enqueue req) d = enqueue_begin req d"
| "d_enabled uni (D_send i) d = enqueue_send i d"
| "d_enabled uni (D_abort i) d = enqueue_abort i d"
| "d_enabled uni D_start d = start_scheduler d"
| "d_enabled uni D_spawn d = start_worker d"
| "d_enabled uni D_stop d = stop_call d"
| "d_enabled uni D_stop_continue d = stop_continue d"
| "d_enabled uni D_exit d = sched_exit d"
| "d_enabled uni D_accept d = sched_accept d"
| "d_enabled uni D_place d = sched_place d"
| "d_enabled uni D_forward d = sched_forward d"
| "d_enabled uni D_complete d = sched_complete d"
| "d_enabled uni (D_worker i) d = worker_step uni i d"
| "d_enabled uni (D_receive c) d = take_result c d"

definition d_act :: "(bytes \<Rightarrow> bytes) \<Rightarrow> d_action \<Rightarrow> dispatcher \<Rightarrow> d_result" where
  "d_act uni act d = (if d_panic d \<noteq> None then None else d_enabled uni act d)"

text \<open>
  \<open>allowed\<close> restricts the actions of the callers: \<open>any_caller\<close> does not, \<open>fresh_caller\<close> is a caller that
  makes a new result channel for every request, as \<^verbatim>\<open>UseDispatcher\<close> of the session does.
\<close>

inductive d_run ::
  "(bytes \<Rightarrow> bytes) \<Rightarrow> (d_action \<Rightarrow> dispatcher \<Rightarrow> bool) \<Rightarrow> dispatcher \<Rightarrow> d_event list \<Rightarrow> dispatcher \<Rightarrow> bool"
  for uni :: "bytes \<Rightarrow> bytes" and allowed :: "d_action \<Rightarrow> dispatcher \<Rightarrow> bool" and d0 :: dispatcher where
  d_init: "d_run uni allowed d0 [] d0"
| d_step: "d_run uni allowed d0 tr d \<Longrightarrow> allowed act d \<Longrightarrow> d_act uni act d = Some (d', ev) \<Longrightarrow>
    d_run uni allowed d0 (tr @ ev) d'"

definition any_caller :: "d_action \<Rightarrow> dispatcher \<Rightarrow> bool" where
  "any_caller act d = True"

text \<open>The dispatcher's own actions: everything but a new call of \<^verbatim>\<open>Enqueue\<close> and taking an answer.\<close>

fun internal :: "d_action \<Rightarrow> bool" where
  "internal (D_enqueue req) = False"
| "internal (D_receive c) = False"
| "internal _ = True"

text \<open>A schedule performed action by action, for concrete runs.\<close>

fun d_schedule :: "(bytes \<Rightarrow> bytes) \<Rightarrow> d_action list \<Rightarrow> dispatcher \<Rightarrow> d_result" where
  "d_schedule uni [] d = Some (d, [])"
| "d_schedule uni (act # acts) d =
     (case d_act uni act d of
        None \<Rightarrow> None
      | Some (d', ev) \<Rightarrow>
          (case d_schedule uni acts d' of
             None \<Rightarrow> None
           | Some (d'', evs) \<Rightarrow> Some (d'', ev @ evs)))"

lemma d_schedule_run:
  "d_schedule uni acts d = Some (d', evs) \<Longrightarrow> (\<And>act d. act \<in> set acts \<Longrightarrow> allowed act d) \<Longrightarrow>
    d_run uni allowed d0 tr d \<Longrightarrow> d_run uni allowed d0 (tr @ evs) d'"
proof (induction acts arbitrary: d tr evs)
  case (Cons act acts)
  then show ?case
    by (fastforce split: option.splits simp flip: append_assoc intro: d_step)
qed simp

end
