(* ===== verification/Dispatcher_Safety.thy ===== *)
theory Dispatcher_Safety
  imports Dispatcher
begin

text \<open>
  The invariants of every reachable state of the dispatcher: the bounds of its queues, the order in
  which channels are closed, the meaning of the scheduler's counter, and the account of requests.
\<close>

section \<open>Counting over the workers\<close>

lemma mset_remove_nth: "i < length xs \<Longrightarrow> add_mset (xs ! i) (mset (remove_nth i xs)) = mset xs"
  unfolding remove_nth_def
  by (metis id_take_nth_drop mset.simps(2) mset_append union_mset_add_mset_right)

lemma length_remove_nth [simp]: "i < length xs \<Longrightarrow> length (remove_nth i xs) = length xs - 1"
  by (simp add: remove_nth_def)

fun w_open :: "worker \<Rightarrow> request multiset" where
  "w_open (W_exec r) = {#r#}"
| "w_open (W_deliver r v) = {#r#}"
| "w_open _ = {#}"

fun w_busy :: "worker \<Rightarrow> nat" where
  "w_busy W_recv = 0"
| "w_busy W_exit = 0"
| "w_busy _ = 1"

fun sched_hold :: "sched \<Rightarrow> request list" where
  "sched_hold (Sched_place r) = [r]"
| "sched_hold _ = []"

fun accepted_of :: "d_event list \<Rightarrow> request list" where
  "accepted_of [] = []"
| "accepted_of (Accepted r # tr) = r # accepted_of tr"
| "accepted_of (_ # tr) = accepted_of tr"

fun delivered_of :: "d_event list \<Rightarrow> request list" where
  "delivered_of [] = []"
| "delivered_of (Delivered r v # tr) = r # delivered_of tr"
| "delivered_of (_ # tr) = delivered_of tr"

lemma accepted_of_append [simp]: "accepted_of (tr @ tr') = accepted_of tr @ accepted_of tr'"
  by (induction tr rule: accepted_of.induct) auto

lemma delivered_of_append [simp]: "delivered_of (tr @ tr') = delivered_of tr @ delivered_of tr'"
  by (induction tr rule: delivered_of.induct) auto

section \<open>The invariant\<close>

text \<open>The requests accepted and not answered yet, wherever they are.\<close>

definition open_requests :: "dispatcher \<Rightarrow> request multiset" where
  "open_requests d =
     mset (ch_buf (d_incoming d)) + mset (sched_hold (d_sched d)) + mset (ch_buf (d_ready d)) +
     mset (d_waiting d) + sum_list (map w_open (d_pool d))"

definition d_account :: "d_event list \<Rightarrow> dispatcher \<Rightarrow> bool" where
  "d_account tr d \<longleftrightarrow> mset (accepted_of tr) = mset (delivered_of tr) + open_requests d"

definition d_counted :: "dispatcher \<Rightarrow> bool" where
  "d_counted d \<longleftrightarrow>
     d_pending d = int (length (sched_hold (d_sched d)) + length (ch_buf (d_ready d)) +
       length (d_waiting d) + length (ch_buf (d_complete d)) + sum_list (map w_busy (d_pool d)))"

definition d_bounded :: "dispatcher \<Rightarrow> bool" where
  "d_bounded d \<longleftrightarrow>
     0 < d_queueSize d \<and> 0 < d_workers d \<and> length (d_pool d) \<le> d_workers d \<and>
     ch_cap (d_incoming d) = d_queueSize d \<and> ch_cap (d_ready d) = d_queueSize d \<and>
     ch_cap (d_complete d) = d_queueSize d \<and>
     length (ch_buf (d_incoming d)) \<le> d_queueSize d \<and> length (ch_buf (d_ready d)) \<le> d_queueSize d \<and>
     length (ch_buf (d_complete d)) \<le> d_queueSize d \<and>
     length (d_waiting d) + length (sched_hold (d_sched d)) \<le> d_queueSize d"

definition d_closing :: "dispatcher \<Rightarrow> bool" where
  "d_closing d \<longleftrightarrow>
     (d_stopped d \<longleftrightarrow> d_stop d \<noteq> Not_stopping) \<and>
     (d_enqueueDone d \<longleftrightarrow> d_stop d \<notin> {Not_stopping, Stop_flagged}) \<and>
     (ch_closed (d_incoming d) \<longleftrightarrow> d_stop d \<in> {Stop_wait_loops, Stop_returned}) \<and>
     (ch_closed (d_incoming d) \<longrightarrow> d_senders d = []) \<and>
     (d_incoming_nil d \<longrightarrow> ch_closed (d_incoming d) \<and> ch_buf (d_incoming d) = []) \<and>
     (ch_closed (d_ready d) \<longleftrightarrow> d_sched d = Sched_exit) \<and>
     \<not> ch_closed (d_complete d) \<and>
     (d_sched d = Sched_off \<longleftrightarrow> \<not> d_started d) \<and>
     (\<not> d_started d \<longrightarrow> d_pool d = [] \<and> ch_buf (d_ready d) = [] \<and> d_waiting d = [] \<and>
        ch_buf (d_complete d) = []) \<and>
     (d_sched d = Sched_exit \<longrightarrow> d_incoming_nil d \<and> d_pending d = 0) \<and>
     (W_exit \<in> set (d_pool d) \<longrightarrow> d_sched d = Sched_exit) \<and>
     (\<forall>c. \<not> ch_closed (d_results d c)) \<and>
     d_panic d \<in> {None, Some Nil_dereference}"

section \<open>The actions, branch by branch\<close>

lemmas enqueue_defs = enqueue_begin_def enqueue_send_def enqueue_abort_def
lemmas lifecycle_defs = start_scheduler_def start_worker_def stop_call_def stop_continue_def
lemmas sched_defs =
  sched_exit_def sched_accept_def sched_place_def sched_forward_def sched_complete_def
lemmas worker_defs = worker_step_def deliverResult_def take_result_def
lemmas d_defs = enqueue_defs lifecycle_defs sched_defs worker_defs panic_with_def

text \<open>The situations in which an action panics.\<close>

inductive d_crash :: "(bytes \<Rightarrow> bytes) \<Rightarrow> dispatcher \<Rightarrow> go_panic \<Rightarrow> bool" for uni d where
  "i < length (d_senders d) \<Longrightarrow> ch_closed (d_incoming d) \<Longrightarrow> d_crash uni d Send_on_closed_channel"
| "d_sched d = Sched_place r \<Longrightarrow> ch_closed (d_ready d) \<Longrightarrow> d_crash uni d Send_on_closed_channel"
| "d_sched d = Sched_select \<Longrightarrow> ch_closed (d_ready d) \<Longrightarrow> d_crash uni d p"
| "ch_closed (d_complete d) \<Longrightarrow> d_crash uni d Send_on_closed_channel"
| "ch_closed (d_results d c) \<Longrightarrow> d_crash uni d Send_on_closed_channel"
| "d_stop d = Stop_flagged \<Longrightarrow> d_enqueueDone d \<Longrightarrow> d_crash uni d Close_of_closed_channel"
| "d_stop d = Stop_wait_enqueue \<Longrightarrow> ch_closed (d_incoming d) \<Longrightarrow> d_crash uni d p"
| "processRequest uni (d_registry d) sid name args = Inl p \<Longrightarrow> d_crash uni d p"

inductive d_outer :: "dispatcher \<Rightarrow> d_event list \<Rightarrow> dispatcher \<Rightarrow> bool" for d where
  refuse: "enqueue_check d req = Some e \<Longrightarrow> d_outer d [Refused req e] d"
| enter: "enqueue_check d (Some r) = None \<Longrightarrow> d_outer d [] (d\<lparr>d_senders := d_senders d @ [r]\<rparr>)"
| received: "ch_buf (d_results d c) = v # vs \<Longrightarrow>
    d_outer d [Received c v]
      (d\<lparr>d_results := (d_results d)(c := d_results d c\<lparr>ch_buf := vs\<rparr>)\<rparr>)"

inductive d_rule :: "(bytes \<Rightarrow> bytes) \<Rightarrow> dispatcher \<Rightarrow> d_event list \<Rightarrow> dispatcher \<Rightarrow> bool" for uni d where
  crash: "d_crash uni d p \<Longrightarrow> d_rule uni d [] (d\<lparr>d_panic := Some p\<rparr>)"
| send: "i < length (d_senders d) \<Longrightarrow> \<not> ch_closed (d_incoming d) \<Longrightarrow>
    length (ch_buf (d_incoming d)) < ch_cap (d_incoming d) \<Longrightarrow>
    d_rule uni d [Accepted (d_senders d ! i)]
      (d\<lparr>d_incoming := d_incoming d\<lparr>ch_buf := ch_buf (d_incoming d) @ [d_senders d ! i]\<rparr>,
         d_senders := remove_nth i (d_senders d)\<rparr>)"
| abort: "i < length (d_senders d) \<Longrightarrow> d_enqueueDone d \<Longrightarrow>
    d_rule uni d [Refused (Some (d_senders d ! i)) ErrDispatcherStopped]
      (d\<lparr>d_senders := remove_nth i (d_senders d)\<rparr>)"
| start: "\<not> d_started d \<Longrightarrow> d_rule uni d [] (d\<lparr>d_started := True, d_sched := Sched_select\<rparr>)"
| spawn: "d_started d \<Longrightarrow> length (d_pool d) < d_workers d \<Longrightarrow>
    d_rule uni d [] (d\<lparr>d_pool := d_pool d @ [W_recv]\<rparr>)"
| stop: "d_stop d = Not_stopping \<Longrightarrow>
    d_rule uni d [] (d\<lparr>d_stop := Stop_flagged, d_stopped := True\<rparr>)"
| stop_done: "d_stop d = Stop_flagged \<Longrightarrow> \<not> d_enqueueDone d \<Longrightarrow>
    d_rule uni d [] (d\<lparr>d_enqueueDone := True, d_stop := Stop_wait_enqueue\<rparr>)"
| stop_close: "d_stop d = Stop_wait_enqueue \<Longrightarrow> d_senders d = [] \<Longrightarrow> \<not> ch_closed (d_incoming d) \<Longrightarrow>
    d_rule uni d [] (d\<lparr>d_incoming := d_incoming d\<lparr>ch_closed := True\<rparr>, d_stop := Stop_wait_loops\<rparr>)"
| stop_return: "d_stop d = Stop_wait_loops \<Longrightarrow> loops_done d \<Longrightarrow>
    d_rule uni d [] (d\<lparr>d_stop := Stop_returned\<rparr>)"
| exit: "d_sched d = Sched_select \<Longrightarrow> sched_stops d \<Longrightarrow> \<not> ch_closed (d_ready d) \<Longrightarrow>
    d_rule uni d [] (d\<lparr>d_ready := d_ready d\<lparr>ch_closed := True\<rparr>, d_sched := Sched_exit\<rparr>)"
| see_closed: "d_sched d = Sched_select \<Longrightarrow> \<not> d_incoming_nil d \<Longrightarrow> ch_closed (d_incoming d) \<Longrightarrow>
    ch_buf (d_incoming d) = [] \<Longrightarrow> d_rule uni d [] (d\<lparr>d_incoming_nil := True\<rparr>)"
| accept: "d_sched d = Sched_select \<Longrightarrow> \<not> d_incoming_nil d \<Longrightarrow>
    length (d_waiting d) < d_queueSize d \<Longrightarrow> ch_buf (d_incoming d) = r # rs \<Longrightarrow>
    d_rule uni d [] (d\<lparr>d_incoming := d_incoming d\<lparr>ch_buf := rs\<rparr>,
      d_pending := d_pending d + 1, d_sched := Sched_place r\<rparr>)"
| place_ready: "d_sched d = Sched_place r \<Longrightarrow> \<not> ch_closed (d_ready d) \<Longrightarrow>
    length (ch_buf (d_ready d)) < ch_cap (d_ready d) \<Longrightarrow>
    d_rule uni d [] (d\<lparr>d_ready := d_ready d\<lparr>ch_buf := ch_buf (d_ready d) @ [r]\<rparr>,
      d_sched := Sched_select\<rparr>)"
| place_wait: "d_sched d = Sched_place r \<Longrightarrow> ch_cap (d_ready d) \<le> length (ch_buf (d_ready d)) \<Longrightarrow>
    d_rule uni d [] (d\<lparr>d_waiting := d_waiting d @ [r], d_sched := Sched_select\<rparr>)"
| forward: "d_sched d = Sched_select \<Longrightarrow> d_waiting d = r # rs \<Longrightarrow> \<not> ch_closed (d_ready d) \<Longrightarrow>
    length (ch_buf (d_ready d)) < ch_cap (d_ready d) \<Longrightarrow>
    d_rule uni d [] (d\<lparr>d_ready := d_ready d\<lparr>ch_buf := ch_buf (d_ready d) @ [r]\<rparr>, d_waiting := rs\<rparr>)"
| complete: "d_sched d = Sched_select \<Longrightarrow> ch_buf (d_complete d) = r # rs \<Longrightarrow>
    d_rule uni d [] (d\<lparr>d_complete := d_complete d\<lparr>ch_buf := rs\<rparr>,
      d_pending := (if 0 < d_pending d then d_pending d - 1 else d_pending d)\<rparr>)"
| complete_closed: "ch_closed (d_complete d) \<Longrightarrow> d_rule uni d [] (d\<lparr>d_complete := d_complete d\<rparr>)"
| w_exit: "d_pool d = ys @ W_recv # zs \<Longrightarrow> ch_buf (d_ready d) = [] \<Longrightarrow> ch_closed (d_ready d) \<Longrightarrow>
    d_rule uni d [] (d\<lparr>d_pool := ys @ W_exit # zs\<rparr>)"
| w_recv: "d_pool d = ys @ W_recv # zs \<Longrightarrow> ch_buf (d_ready d) = r # rs \<Longrightarrow>
    d_rule uni d [] (d\<lparr>d_ready := d_ready d\<lparr>ch_buf := rs\<rparr>, d_pool := ys @ W_exec r # zs\<rparr>)"
| w_exec: "d_pool d = ys @ W_exec r # zs \<Longrightarrow>
    processRequest uni (d_registry d) (req_SessionID r) (req_Name r) (req_Args r) = Inr v \<Longrightarrow>
    d_rule uni d [] (d\<lparr>d_pool := ys @ W_deliver r v # zs\<rparr>)"
| w_deliver: "d_pool d = ys @ W_deliver r v # zs \<Longrightarrow> req_Result r = Some c \<Longrightarrow>
    \<not> ch_closed (d_results d c) \<Longrightarrow> length (ch_buf (d_results d c)) < ch_cap (d_results d c) \<Longrightarrow>
    d_rule uni d [Delivered r v]
      (d\<lparr>d_results := (d_results d)
           (c := d_results d c\<lparr>ch_buf := ch_buf (d_results d c) @ [v]\<rparr>),
         d_pool := ys @ W_complete r # zs\<rparr>)"
| w_complete: "d_pool d = ys @ W_complete r # zs \<Longrightarrow>
    length (ch_buf (d_complete d)) < ch_cap (d_complete d) \<Longrightarrow> \<not> ch_closed (d_complete d) \<Longrightarrow>
    d_rule uni d []
      (d\<lparr>d_complete := d_complete d\<lparr>ch_buf := ch_buf (d_complete d) @ [r]\<rparr>,
         d_pool := ys @ W_recv # zs\<rparr>)"

lemma d_actE:
  assumes "d_act uni act d = Some (d', ev)"
  shows "d_panic d = None \<and> d_enabled uni act d = Some (d', ev)"
  using assms by (auto simp: d_act_def split: if_splits)

lemma pool_split:
  assumes "i < length (d_pool d)"
  obtains ys zs where "d_pool d = ys @ d_pool d ! i # zs"
    and "\<And>w e. d_pool e = d_pool d \<Longrightarrow> set_worker i w e = e\<lparr>d_pool := ys @ w # zs\<rparr>"
proof
  show "d_pool d = take i (d_pool d) @ d_pool d ! i # drop (Suc i) (d_pool d)"
    using assms by (rule id_take_nth_drop)
  show "set_worker i w e = e\<lparr>d_pool := take i (d_pool d) @ w # drop (Suc i) (d_pool d)\<rparr>"
    if "d_pool e = d_pool d" for w e
    using assms that by (simp add: set_worker_def upd_conv_take_nth_drop)
qed

lemma worker_step_rule:
  assumes "worker_step uni i d = Some (d', ev)"
  shows "d_rule uni d ev d'"
proof -
  have "i < length (d_pool d)" using assms by (auto simp: worker_step_def split: if_splits)
  then obtain ys zs where pool: "d_pool d = ys @ d_pool d ! i # zs"
    and upd: "\<And>w e. d_pool e = d_pool d \<Longrightarrow> set_worker i w e = e\<lparr>d_pool := ys @ w # zs\<rparr>"
    using pool_split [of i d] by metis
  show ?thesis
  proof (cases "d_pool d ! i")
    case W_recv
    with assms pool upd show ?thesis
      by (auto simp: worker_step_def chan_recv_cases split: if_splits option.splits
          intro: d_rule.w_exit d_rule.w_recv)
  next
    case (W_exec r)
    with assms pool upd show ?thesis
      by (auto simp: worker_step_def panic_with_def split: if_splits sum.splits
          intro: d_rule.crash d_crash.intros(8) d_rule.w_exec)
  next
    case (W_deliver r v)
    with assms pool upd show ?thesis
      by (auto simp: worker_step_def deliverResult_def panic_with_def chan_send_cases
          split: if_splits option.splits sum.splits
          intro: d_rule.crash d_crash.intros(5) d_rule.w_deliver)
  next
    case (W_complete r)
    with assms pool upd show ?thesis
      by (auto simp: worker_step_def panic_with_def chan_send_cases
          split: if_splits option.splits sum.splits
          intro: d_rule.crash d_crash.intros(4) d_rule.w_complete)
  qed (use assms in \<open>auto simp: worker_step_def split: if_splits\<close>)
qed

lemma sched_step_rule:
  assumes "sched_exit d = Some (d', ev) \<or> sched_accept d = Some (d', ev) \<or>
    sched_place d = Some (d', ev) \<or> sched_forward d = Some (d', ev) \<or> sched_complete d = Some (d', ev)"
  shows "d_rule uni d ev d'"
  using assms
proof (elim disjE)
  assume "sched_exit d = Some (d', ev)"
  then show ?thesis
    by (auto simp: sched_exit_def panic_with_def chan_close_cases
        split: if_splits sum.splits intro: d_rule.intros d_crash.intros)
next
  assume "sched_accept d = Some (d', ev)"
  then show ?thesis
    by (auto simp: sched_accept_def chan_recv_cases split: if_splits option.splits intro: d_rule.intros)
next
  assume "sched_place d = Some (d', ev)"
  then show ?thesis
    by (auto simp: sched_place_def panic_with_def chan_send_cases
        split: sched.splits option.splits sum.splits intro: d_rule.intros d_crash.intros)
next
  assume "sched_forward d = Some (d', ev)"
  then show ?thesis
    by (auto simp: sched_forward_def panic_with_def chan_send_cases
        split: if_splits list.splits option.splits sum.splits intro: d_rule.intros d_crash.intros)
next
  assume complete: "sched_complete d = Some (d', ev)"
  then obtain req c where recv: "d_sched d = Sched_select" "chan_recv (d_complete d) = Some (req, c)"
    by (auto simp: sched_complete_def split: if_splits option.splits)
  show ?thesis
  proof (cases req)
    case None
    then have "c = d_complete d" "ch_closed (d_complete d)"
      using recv(2) by (simp_all add: chan_recv_cases)
    with complete recv None show ?thesis
      using d_rule.complete_closed [of d uni]
      by (auto simp: sched_complete_def split: if_splits)
  next
    case (Some r)
    then obtain rs where "ch_buf (d_complete d) = r # rs" "c = d_complete d\<lparr>ch_buf := rs\<rparr>"
      using recv(2) by (auto simp: chan_recv_cases)
    with complete recv Some show ?thesis
      using d_rule.complete [of d r rs uni]
      by (auto simp: sched_complete_def split: if_splits)
  qed
qed

lemma enqueue_begin_outer:
  assumes "enqueue_begin req d = Some (d', ev)"
  shows "d_outer d ev d'"
proof (cases req)
  case None
  with assms show ?thesis
    by (auto simp: enqueue_begin_def enqueue_check_def split: option.splits intro: d_outer.refuse)
next
  case (Some r)
  with assms show ?thesis
    by (auto simp: enqueue_begin_def split: option.splits intro: d_outer.refuse d_outer.enter)
qed

lemma enqueue_select_rule:
  assumes "enqueue_send i d = Some (d', ev) \<or> enqueue_abort i d = Some (d', ev)"
  shows "d_rule uni d ev d'"
  using assms
  by (auto simp: enqueue_send_def enqueue_abort_def panic_with_def chan_send_cases
      split: if_splits option.splits sum.splits
      intro: d_rule.crash d_crash.intros(1) d_rule.send d_rule.abort)

lemma stop_step_rule:
  assumes "stop_continue d = Some (d', ev)"
  shows "d_rule uni d ev d'"
  using assms
  by (cases "d_stop d")
    (auto simp: stop_continue_def panic_with_def chan_close_cases
      split: if_splits sum.splits intro: d_rule.intros d_crash.intros)

lemma d_act_rule:
  assumes "d_act uni act d = Some (d', ev)" and "internal act"
  shows "d_rule uni d ev d'"
proof -
  note en = d_actE [OF assms(1)]
  show ?thesis
  proof (cases act)
    case D_start
    with en show ?thesis by (auto simp: start_scheduler_def split: if_splits intro: d_rule.start)
  next
    case D_spawn
    with en show ?thesis by (auto simp: start_worker_def split: if_splits intro: d_rule.spawn)
  next
    case D_stop
    with en show ?thesis by (auto simp: stop_call_def split: if_splits intro: d_rule.stop)
  qed (use en assms(2) enqueue_select_rule sched_step_rule stop_step_rule worker_step_rule
      in \<open>simp; blast\<close>)+
qed

lemma d_act_outer:
  assumes "d_act uni act d = Some (d', ev)" and "\<not> internal act"
  shows "d_outer d ev d'"
proof (cases act)
  case (D_enqueue req)
  with d_actE [OF assms(1)] show ?thesis by (auto dest: enqueue_begin_outer)
next
  case (D_receive c)
  with d_actE [OF assms(1)] show ?thesis
    by (auto simp: take_result_def chan_recv_cases split: option.splits intro: d_outer.received)
qed (use assms(2) in auto)

section \<open>Preservation\<close>

lemma Execute_panic: "Execute cmd ctx = Inl p \<Longrightarrow> p = Nil_dereference"
  by (cases cmd) (auto split: option.splits)

lemma processRequest_panic: "processRequest uni reg sid name args = Inl p \<Longrightarrow> p = Nil_dereference"
  by (auto simp: processRequest_def Let_def dest: Execute_panic split: option.splits prod.splits)

lemma d_bounded_rule: "d_rule uni d ev d' \<Longrightarrow> d_bounded d \<Longrightarrow> d_bounded d'"
  by (induction rule: d_rule.cases) (auto simp: d_bounded_def)

lemma d_counted_rule:
  assumes "d_rule uni d ev d'" and "d_closing d" and "d_counted d"
  shows "d_counted d'"
  using assms
  by (induction rule: d_rule.cases)
    (auto simp: d_counted_def d_closing_def)

lemma d_account_rule:
  assumes "d_rule uni d ev d'" and "d_closing d" and "d_account tr d"
  shows "d_account (tr @ ev) d'"
  using assms
  by (induction rule: d_rule.cases)
    (auto simp: d_account_def open_requests_def d_closing_def)

lemma d_crash_closing: "d_crash uni d p \<Longrightarrow> d_closing d \<Longrightarrow> p = Nil_dereference"
  by (induction rule: d_crash.induct) (auto simp: d_closing_def dest: processRequest_panic)

lemma enqueue_check_open: "enqueue_check d (Some r) = None \<Longrightarrow> \<not> d_stopped d"
  by (auto simp: enqueue_check_def split: option.splits if_splits)

lemma d_closing_rule:
  assumes "d_rule uni d ev d'" and "d_counted d" and "d_closing d"
  shows "d_closing d'"
  using assms
proof (induction rule: d_rule.cases)
  case (crash p)
  then show ?case using d_crash_closing [of uni d p] by (auto simp: d_closing_def)
next
  case (send i) then show ?case by (auto simp: d_closing_def)
next
  case (abort i) then show ?case by (auto simp: d_closing_def remove_nth_def)
next
  case start then show ?case by (auto simp: d_closing_def)
next
  case spawn then show ?case by (auto simp: d_closing_def)
next
  case stop then show ?case by (auto simp: d_closing_def)
next
  case stop_done then show ?case by (auto simp: d_closing_def)
next
  case stop_close then show ?case by (auto simp: d_closing_def)
next
  case stop_return then show ?case by (auto simp: d_closing_def)
next
  case exit then show ?case by (auto simp: d_closing_def sched_stops_def)
next
  case see_closed then show ?case by (auto simp: d_closing_def)
next
  case (accept r rs) then show ?case by (auto simp: d_closing_def)
next
  case (place_ready r) then show ?case by (auto simp: d_closing_def)
next
  case (place_wait r) then show ?case by (auto simp: d_closing_def)
next
  case (forward r rs) then show ?case by (auto simp: d_closing_def)
next
  case (complete r rs) then show ?case by (auto simp: d_closing_def)
next
  case complete_closed then show ?case by (simp add: d_closing_def)
next
  case (w_exit ys zs) then show ?case by (auto simp: d_closing_def)
next
  case (w_recv ys zs r rs) then show ?case by (auto simp: d_closing_def)
next
  case (w_exec ys r zs v) then show ?case by (auto simp: d_closing_def)
next
  case (w_deliver ys r v zs c) then show ?case by (auto simp: d_closing_def)
next
  case (w_complete ys r zs) then show ?case by (auto simp: d_closing_def)
qed

lemma d_outer_closing: "d_outer d ev d' \<Longrightarrow> d_closing d \<Longrightarrow> d_closing d'"
proof (induction rule: d_outer.cases)
  case (enter r)
  then show ?case using enqueue_check_open [OF enter(3)] by (auto simp: d_closing_def)
qed (auto simp: d_closing_def)

lemma d_outer_inv:
  "d_outer d ev d' \<Longrightarrow> d_bounded d \<Longrightarrow> d_bounded d'"
  "d_outer d ev d' \<Longrightarrow> d_counted d \<Longrightarrow> d_counted d'"
  "d_outer d ev d' \<Longrightarrow> d_account tr d \<Longrightarrow> d_account (tr @ ev) d'"
  by (auto simp: d_bounded_def d_counted_def d_account_def open_requests_def elim!: d_outer.cases)

section \<open>Reachable states\<close>

definition d_inv :: "d_event list \<Rightarrow> dispatcher \<Rightarrow> bool" where
  "d_inv tr d \<longleftrightarrow> d_bounded d \<and> d_counted d \<and> d_closing d \<and> d_account tr d"

lemma d_inv_step:
  assumes "d_act uni act d = Some (d', ev)" and "d_inv tr d"
  shows "d_inv (tr @ ev) d'"
proof (cases "internal act")
  case True
  note rule = d_act_rule [OF assms(1) True]
  show ?thesis
    using assms(2) d_bounded_rule [OF rule] d_counted_rule [OF rule] d_closing_rule [OF rule]
      d_account_rule [OF rule]
    by (simp add: d_inv_def)
next
  case False
  show ?thesis
    using assms(2) d_outer_inv [OF d_act_outer [OF assms(1) False]]
      d_outer_closing [OF d_act_outer [OF assms(1) False]]
    by (simp add: d_inv_def)
qed

definition results_open :: "(nat \<Rightarrow> rvalue chan) \<Rightarrow> bool" where
  "results_open results \<longleftrightarrow> (\<forall>c. \<not> ch_closed (results c))"

lemma d_inv_init:
  "results_open results \<Longrightarrow> d_inv [] (NewDispatcher reg workers queueSize results)"
  by (auto simp: d_inv_def NewDispatcher_def Let_def results_open_def
      d_bounded_def d_counted_def d_closing_def d_account_def open_requests_def)

lemma d_run_inv:
  "d_run uni allowed d0 tr d \<Longrightarrow> d_inv [] d0 \<Longrightarrow> d_inv tr d"
  by (induction rule: d_run.induct) (auto intro: d_inv_step)

end
