(* ===== verification/Dispatcher_Answers.thy ===== *)
theory Dispatcher_Answers
  imports Dispatcher_Safety
begin

text \<open>
  What the dispatcher puts into a result channel is what the command of the registry returns for an
  accepted request with that channel. Stated for any property of the accepted requests, so that a
  client can say which requests are its own.
\<close>

definition command_answer :: "(bytes \<Rightarrow> bytes) \<Rightarrow> registry \<Rightarrow> request \<Rightarrow> rvalue \<Rightarrow> bool" where
  "command_answer uni reg r v \<longleftrightarrow>
     processRequest uni reg (req_SessionID r) (req_Name r) (req_Args r) = Inr v"

text \<open>\<open>acc\<close> holds of the requests accepted so far.\<close>

definition d_answers :: "(bytes \<Rightarrow> bytes) \<Rightarrow> registry \<Rightarrow> (request \<Rightarrow> bool) \<Rightarrow> dispatcher \<Rightarrow> bool" where
  "d_answers uni reg acc d \<longleftrightarrow>
     d_registry d = reg \<and> (\<forall>r \<in># open_requests d. acc r) \<and>
     (\<forall>r v. W_deliver r v \<in> set (d_pool d) \<longrightarrow> command_answer uni reg r v) \<and>
     (\<forall>c. \<forall>v \<in> set (ch_buf (d_results d c)). \<exists>r. acc r \<and> req_Result r = Some c \<and> command_answer uni reg r v)"

lemma d_answers_mono: "d_answers uni reg acc d \<Longrightarrow> (\<And>r. acc r \<Longrightarrow> acc' r) \<Longrightarrow> d_answers uni reg acc' d"
  unfolding d_answers_def by blast

lemma d_answers_rule:
  assumes "d_rule uni d ev d'" and "d_answers uni reg acc d" and "\<forall>r. Accepted r \<in> set ev \<longrightarrow> acc r"
  shows "d_answers uni reg acc d'"
  using assms
proof (induction rule: d_rule.cases)
  case (w_deliver ys r v zs c)
  then show ?case by (auto simp: d_answers_def open_requests_def)
qed (auto simp: d_answers_def open_requests_def command_answer_def)

lemma d_answers_outer:
  assumes "d_outer d ev d'" and "d_answers uni reg acc d"
  shows "d_answers uni reg acc d'"
  using assms by (induction rule: d_outer.cases) (auto simp: d_answers_def open_requests_def)

lemma d_answers_act:
  assumes "d_act uni act d = Some (d', ev)" and "d_answers uni reg acc d"
    and "\<forall>r. Accepted r \<in> set ev \<longrightarrow> acc r"
  shows "d_answers uni reg acc d'"
  using assms d_answers_rule [OF d_act_rule [OF assms(1)]] d_answers_outer [OF d_act_outer [OF assms(1)]] by blast

lemma d_answers_receive:
  assumes "d_act uni (D_receive c) d = Some (d', [Received c v])" and "d_answers uni reg acc d"
  shows "\<exists>r. acc r \<and> req_Result r = Some c \<and> command_answer uni reg r v"
proof -
  have "v \<in> set (ch_buf (d_results d c))"
    using d_actE [OF assms(1)] by (auto simp: take_result_def chan_recv_cases split: option.splits)
  with assms(2) show ?thesis by (simp add: d_answers_def)
qed

lemma d_answers_start:
  "(\<And>c. ch_buf (results c) = []) \<Longrightarrow> d_answers uni reg acc (NewDispatcher reg workers queueSize results)"
  by (simp add: d_answers_def NewDispatcher_def open_requests_def Let_def)

text \<open>Which calls of \<^verbatim>\<open>Enqueue\<close> wait in their select.\<close>

lemma d_act_senders:
  assumes "d_act uni act d = Some (d', ev)"
  shows "(case act of
      D_enqueue req \<Rightarrow> (\<forall>r. Accepted r \<notin> set ev) \<and> (if ev = [] then mset (d_senders d') = add_mset (the req) (mset (d_senders d)) else d' = d)
    | D_send i \<Rightarrow> d_senders d' = d_senders d \<and> ev = [] \<or>
        i < length (d_senders d) \<and> ev = [Accepted (d_senders d ! i)] \<and>
        add_mset (d_senders d ! i) (mset (d_senders d')) = mset (d_senders d)
    | D_abort i \<Rightarrow> i < length (d_senders d) \<and> ev = [Refused (Some (d_senders d ! i)) ErrDispatcherStopped] \<and>
        add_mset (d_senders d ! i) (mset (d_senders d')) = mset (d_senders d)
    | _ \<Rightarrow> d_senders d' = d_senders d \<and> (\<forall>r. Accepted r \<notin> set ev))"
  using d_actE [OF assms]
  by (cases act)
    (auto simp: d_defs chan_recv_cases mset_remove_nth set_worker_def
      split: option.splits sum.splits if_splits list.splits stop_phase.splits sched.splits worker.splits)

end
