(* ===== verification/Dispatcher_Liveness.thy ===== *)
theory Dispatcher_Liveness
  imports Dispatcher_Answers
begin

text \<open>
  Once \<^verbatim>\<open>Stop\<close> has been called the dispatcher drains: every action of its own decreases the measure
  \<open>d_measure\<close>, so no schedule of them is infinite, and a state in which none is enabled is final.
  For the second part the callers must give every request a result channel of its own.
\<close>

section \<open>Every internal action makes progress\<close>

fun w_measure :: "worker \<Rightarrow> nat" where
  "w_measure W_recv = 1"
| "w_measure (W_exec r) = 5"
| "w_measure (W_deliver r v) = 4"
| "w_measure (W_complete r) = 3"
| "w_measure W_exit = 0"

fun stop_measure :: "stop_phase \<Rightarrow> nat" where
  "stop_measure Not_stopping = 4"
| "stop_measure Stop_flagged = 3"
| "stop_measure Stop_wait_enqueue = 2"
| "stop_measure Stop_wait_loops = 1"
| "stop_measure Stop_returned = 0"

fun sched_measure :: "sched \<Rightarrow> nat" where
  "sched_measure Sched_off = 2"
| "sched_measure Sched_select = 1"
| "sched_measure (Sched_place r) = 8"
| "sched_measure Sched_exit = 0"

definition d_measure :: "dispatcher \<Rightarrow> nat" where
  "d_measure d =
     9 * length (d_senders d) + 8 * length (ch_buf (d_incoming d)) + 6 * length (d_waiting d) +
     5 * length (ch_buf (d_ready d)) + length (ch_buf (d_complete d)) +
     sum_list (map w_measure (d_pool d)) + 2 * (d_workers d - length (d_pool d)) +
     sched_measure (d_sched d) + stop_measure (d_stop d) + (if d_incoming_nil d then 0 else 1) +
     (if d_panic d = None then 1 else 0)"

lemma d_rule_measure:
  assumes "d_rule uni d ev d'" and "d_closing d" and "d_panic d = None"
  shows "d_measure d' < d_measure d"
  using assms
  by (induction rule: d_rule.cases) (auto simp: d_measure_def d_closing_def)

lemma d_schedule_bound:
  "d_schedule uni acts d = Some (d', evs) \<Longrightarrow> d_inv tr d \<Longrightarrow> list_all internal acts \<Longrightarrow>
    length acts + d_measure d' \<le> d_measure d"
proof (induction acts arbitrary: d tr evs)
  case (Cons act acts)
  then obtain d1 ev1 ev2 where st: "d_act uni act d = Some (d1, ev1)"
      "d_schedule uni acts d1 = Some (d', ev2)"
    by (auto split: option.splits)
  have "d_measure d1 < d_measure d"
    using d_rule_measure [OF d_act_rule [OF st(1)]] Cons.prems d_actE [OF st(1)]
    by (auto simp: d_inv_def)
  with Cons.IH [OF st(2) d_inv_step [OF st(1) Cons.prems(2)]] Cons.prems(3) show ?case by simp
qed simp

lemma d_schedule_inv:
  "d_schedule uni acts d = Some (d', evs) \<Longrightarrow> d_inv tr d \<Longrightarrow> d_inv (tr @ evs) d'"
proof (induction acts arbitrary: d tr evs)
  case (Cons act acts)
  then obtain d1 ev1 ev2 where st: "d_act uni act d = Some (d1, ev1)"
      "d_schedule uni acts d1 = Some (d', ev2)" "evs = ev1 @ ev2"
    by (auto split: option.splits)
  then show ?case
    using Cons.IH [OF st(2) d_inv_step [OF st(1) Cons.prems(2)]] by simp
qed simp

section \<open>Result channels of their own\<close>

definition open_chans :: "dispatcher \<Rightarrow> nat option multiset" where
  "open_chans d = image_mset req_Result (mset (d_senders d) + open_requests d)"

definition d_private :: "dispatcher \<Rightarrow> bool" where
  "d_private d \<longleftrightarrow> None \<notin># open_chans d \<and> (\<forall>x. count (open_chans d) x \<le> 1) \<and>
     (\<forall>c. Some c \<in># open_chans d \<longrightarrow> ch_buf (d_results d c) = [] \<and> 0 < ch_cap (d_results d c))"

fun fresh_caller :: "d_action \<Rightarrow> dispatcher \<Rightarrow> bool" where
  "fresh_caller (D_enqueue (Some r)) d \<longleftrightarrow> req_Result r \<notin># open_chans d"
| "fresh_caller act d \<longleftrightarrow> True"

inductive_cases d_rule_deliverE: "d_rule uni d [Delivered r v] d'"

lemma d_private_subset:
  assumes "d_private d" and "open_chans d' \<subseteq># open_chans d" and "d_results d' = d_results d"
  shows "d_private d'"
  using assms unfolding d_private_def by (metis mset_subset_eqD mset_subset_eq_count order_trans)

lemma d_private_rule:
  assumes "d_rule uni d ev d'" and "d_closing d" and "d_private d"
  shows "d_private d'"
proof (cases "\<exists>r v. ev = [Delivered r v]")
  case False
  have "d_results d' = d_results d \<and> open_chans d' \<subseteq># open_chans d"
    using assms(1,2) False
    by (cases rule: d_rule.cases)
      (auto simp: open_chans_def open_requests_def d_closing_def mset_remove_nth [symmetric])
  then show ?thesis using d_private_subset [OF assms(3)] by blast
next
  case True
  then obtain r v where "d_rule uni d [Delivered r v] d'" using assms(1) by blast
  then obtain ys zs c where del: "d_pool d = ys @ W_deliver r v # zs" "req_Result r = Some c"
      "d' = d\<lparr>d_results := (d_results d)
           (c := d_results d c\<lparr>ch_buf := ch_buf (d_results d c) @ [v]\<rparr>),
         d_pool := ys @ W_complete r # zs\<rparr>"
    by (rule d_rule_deliverE)
  have "open_chans d = add_mset (Some c) (open_chans d')"
    using del by (simp add: open_chans_def open_requests_def)
  moreover from this have "Some c \<notin># open_chans d'"
    using assms(3) unfolding d_private_def by (metis count_add_mset not_in_iff One_nat_def
        Suc_le_mono le_zero_eq)
  moreover have "d_results d' x = d_results d x" if "x \<noteq> c" for x
    using del(3) that by simp
  moreover have "count (open_chans d') x \<le> count (add_mset (Some c) (open_chans d')) x" for x
    by simp
  ultimately show ?thesis
    using assms(3) unfolding d_private_def by (metis insert_noteq_member insertCI order_trans
        set_mset_add_mset_insert)
qed

lemma enqueue_check_room:
  "enqueue_check d (Some r) = None \<Longrightarrow>
    \<exists>c. req_Result r = Some c \<and> ch_buf (d_results d c) = [] \<and> 0 < ch_cap (d_results d c)"
  by (auto simp: enqueue_check_def split: option.splits if_splits)

lemma d_private_step:
  assumes "d_act uni act d = Some (d', ev)" and "d_inv tr d" and "d_private d" and "fresh_caller act d"
  shows "d_private d'"
proof (cases "internal act")
  case True
  then show ?thesis
    using d_private_rule [OF d_act_rule [OF assms(1)]] assms(2,3) by (simp add: d_inv_def)
next
  case False
  then show ?thesis
  proof (cases act)
    case (D_enqueue req)
    show ?thesis
    proof (cases "enqueue_check d req")
      case None
      then obtain r where r: "req = Some r" "d' = d\<lparr>d_senders := d_senders d @ [r]\<rparr>"
        using d_actE [OF assms(1)] D_enqueue
        by (cases req) (auto simp: enqueue_begin_def enqueue_check_def)
      then obtain c where "req_Result r = Some c" "ch_buf (d_results d c) = []"
          "0 < ch_cap (d_results d c)"
        using enqueue_check_room None by blast
      moreover have "open_chans d' = add_mset (req_Result r) (open_chans d)"
        using r by (simp add: open_chans_def open_requests_def)
      ultimately show ?thesis
        using r assms(3,4) D_enqueue by (auto simp: d_private_def not_in_iff [symmetric] count_eq_zero_iff)
    qed (use d_actE [OF assms(1)] D_enqueue assms(3) in \<open>simp add: enqueue_begin_def\<close>)
  next
    case (D_receive c)
    then obtain v vs where "ch_buf (d_results d c) = v # vs"
        "d' = d\<lparr>d_results := (d_results d)(c := d_results d c\<lparr>ch_buf := vs\<rparr>)\<rparr>"
      using d_actE [OF assms(1)]
      by (auto simp: take_result_def chan_recv_cases split: option.splits)
    moreover from this have "open_chans d' = open_chans d"
      by (simp add: open_chans_def open_requests_def)
    ultimately show ?thesis
      using assms(3) by (auto simp: d_private_def split: if_splits)
  qed auto
qed

lemma d_private_init: "d_private (NewDispatcher reg workers queueSize results)"
  by (simp add: d_private_def NewDispatcher_def Let_def open_chans_def open_requests_def)

lemma d_run_private:
  "d_run uni fresh_caller d0 tr d \<Longrightarrow> d_inv [] d0 \<Longrightarrow> d_private d0 \<Longrightarrow> d_private d"
proof (induction rule: d_run.induct)
  case (d_step tr d act d' ev)
  then show ?case using d_private_step d_run_inv by blast
qed

lemma d_schedule_keeps:
  "d_started d \<Longrightarrow> d_schedule uni acts d = Some (d', evs) \<Longrightarrow>
    list_all internal acts \<Longrightarrow> d_inv tr d \<Longrightarrow> d_private d \<Longrightarrow>
    d_private d' \<and> d_started d' \<and> (d_stop d \<noteq> Not_stopping \<longrightarrow> d_stop d' \<noteq> Not_stopping)"
proof (induction acts arbitrary: d tr evs)
  case (Cons act acts)
  then obtain d1 ev1 ev2 where st: "d_act uni act d = Some (d1, ev1)"
      "d_schedule uni acts d1 = Some (d', ev2)"
    by (auto split: option.splits)
  note rule = d_act_rule [OF st(1)]
  have "d_started d1 \<and> (d_stop d \<noteq> Not_stopping \<longrightarrow> d_stop d1 \<noteq> Not_stopping)"
    using rule Cons.prems by (auto elim!: d_rule.cases)
  moreover have "d_private d1" using d_private_rule [OF rule] Cons.prems by (auto simp: d_inv_def)
  ultimately show ?case
    using Cons.IH [OF _ st(2)] Cons.prems d_inv_step [OF st(1) Cons.prems(4)] by auto
qed simp

section \<open>No deadlock\<close>

text \<open>Nothing goes on any more, unless \<^verbatim>\<open>Stop\<close> is called; then not even that.\<close>

definition d_quiet :: "(bytes \<Rightarrow> bytes) \<Rightarrow> dispatcher \<Rightarrow> bool" where
  "d_quiet uni d \<longleftrightarrow> (\<forall>act. internal act \<and> act \<noteq> D_stop \<longrightarrow> d_act uni act d = None)"

definition d_stuck :: "(bytes \<Rightarrow> bytes) \<Rightarrow> dispatcher \<Rightarrow> bool" where
  "d_stuck uni d \<longleftrightarrow> (\<forall>act. internal act \<longrightarrow> d_act uni act d = None)"

text \<open>Everything has stopped, and every request that was accepted has been answered once.\<close>

definition d_drained :: "d_event list \<Rightarrow> dispatcher \<Rightarrow> bool" where
  "d_drained tr d \<longleftrightarrow> d_stop d = Stop_returned \<and> d_sched d = Sched_exit \<and>
     list_all (\<lambda>w. w = W_exit) (d_pool d) \<and> d_senders d = [] \<and>
     mset (accepted_of tr) = mset (delivered_of tr)"

lemma d_quietD:
  assumes "d_quiet uni d" and "d_panic d = None"
  shows "enqueue_send i d = None" "enqueue_abort i d = None" "start_scheduler d = None" "start_worker d = None"
    "stop_continue d = None" "sched_exit d = None" "sched_accept d = None" "sched_place d = None"
    "sched_forward d = None" "sched_complete d = None" "worker_step uni i d = None"
proof -
  have en: "internal act \<Longrightarrow> act \<noteq> D_stop \<Longrightarrow> d_enabled uni act d = None" for act
    using assms unfolding d_quiet_def d_act_def by metis
  show "enqueue_send i d = None" "enqueue_abort i d = None" "start_scheduler d = None" "start_worker d = None"
    "stop_continue d = None" "sched_exit d = None" "sched_accept d = None" "sched_place d = None"
    "sched_forward d = None" "sched_complete d = None" "worker_step uni i d = None"
    using en [of "D_send i"] en [of "D_abort i"] en [of D_start] en [of D_spawn] en [of D_stop_continue] en [of D_exit]
      en [of D_accept] en [of D_place] en [of D_forward] en [of D_complete] en [of "D_worker i"]
    by simp_all
qed

lemma stuck_stop:
  assumes "d_quiet uni d" and "d_panic d = None" and "d_closing d" and "d_stop d \<noteq> Not_stopping"
  shows "d_senders d = [] \<and> ch_closed (d_incoming d)"
proof -
  note st = d_quietD [OF assms(1,2)]
  have flag: "d_stop d \<noteq> Stop_flagged"
    using st(5) by (auto simp: stop_continue_def panic_with_def split: if_splits)
  then have "d_senders d = []"
    using st(2) [of 0] assms(3,4) by (auto simp: enqueue_abort_def d_closing_def split: if_splits)
  then have "d_stop d \<noteq> Stop_wait_enqueue"
    using st(5) by (auto simp: stop_continue_def panic_with_def split: sum.splits)
  with flag assms(3,4) show ?thesis
    by (cases "d_stop d") (auto simp: d_closing_def)
qed

lemma stuck_worker:
  assumes "d_quiet uni d" and "d_panic d = None" and "d_closing d" and "d_bounded d" and "d_private d"
    and "w \<in> set (d_pool d)" and "ch_buf (d_complete d) = []"
  shows "(w = W_recv \<and> ch_buf (d_ready d) = [] \<and> \<not> ch_closed (d_ready d)) \<or> w = W_exit"
proof -
  obtain i where i: "i < length (d_pool d)" "d_pool d ! i = w" using assms(6) by (auto simp: in_set_conv_nth)
  note st = d_quietD(11) [OF assms(1,2), of i]
  show ?thesis
  proof (cases w)
    case W_recv
    with st i show ?thesis by (auto simp: worker_step_def chan_recv_cases split: option.splits prod.splits)
  next
    case (W_exec r)
    with st i show ?thesis by (auto simp: worker_step_def panic_with_def split: sum.splits)
  next
    case (W_deliver r v)
    with i have "req_Result r \<in># open_chans d"
      using assms(6) by (force simp: open_chans_def open_requests_def)
    then obtain c where "req_Result r = Some c" "ch_buf (d_results d c) = []"
        "0 < ch_cap (d_results d c)"
      using assms(5) unfolding d_private_def by (metis not_None_eq)
    then have "deliverResult r v d \<noteq> None"
      by (simp add: deliverResult_def chan_send_def)
    with W_deliver st i show ?thesis
      by (auto simp: worker_step_def panic_with_def split: option.splits sum.splits)
  next
    case (W_complete r)
    with st i assms(3,4,7) show ?thesis
      by (auto simp: worker_step_def chan_send_def d_closing_def d_bounded_def)
  qed simp
qed

text \<open>While the scheduler has not left, a dispatcher at rest is empty.\<close>

lemma quiet_scheduler:
  assumes "d_quiet uni d" and "d_panic d = None" and "d_inv tr d" and "d_private d"
    and "d_started d" and not_exit: "d_sched d \<noteq> Sched_exit"
  shows "d_sched d = Sched_select \<and> ch_buf (d_ready d) = [] \<and> d_waiting d = [] \<and> ch_buf (d_incoming d) = [] \<and>
    \<not> ch_closed (d_incoming d) \<and> (\<forall>w \<in> set (d_pool d). w = W_recv)"
proof -
  note st = d_quietD [OF assms(1,2)]
  have inv: "d_closing d" "d_bounded d" "d_counted d" using assms(3) by (simp_all add: d_inv_def)
  have select: "d_sched d = Sched_select"
    using not_exit st(8) inv(1) assms(5)
    by (cases "d_sched d")
      (auto simp: d_closing_def sched_place_def panic_with_def split: option.splits sum.splits)
  have open_ready: "\<not> ch_closed (d_ready d)" using inv(1) not_exit by (simp add: d_closing_def)
  have run: "\<not> sched_stops d"
    using st(6) select by (auto simp: sched_exit_def panic_with_def split: sum.splits)
  have complete: "ch_buf (d_complete d) = []"
    using st(10) select run
    by (auto simp: sched_complete_def chan_recv_cases split: option.splits)
  have workers: "length (d_pool d) = d_workers d"
    using st(4) inv(2) assms(5) by (auto simp: start_worker_def d_bounded_def split: if_splits)
  have idle: "w = W_recv" if "w \<in> set (d_pool d)" for w
    using stuck_worker [OF assms(1,2) inv(1,2) assms(4) that complete] that inv(1) not_exit
    by (auto simp: d_closing_def)
  then have busy: "sum_list (map w_busy (d_pool d)) = 0" by (force simp: sum_list_eq_0_iff)
  have ready: "ch_buf (d_ready d) = []"
    using stuck_worker [OF assms(1,2) inv(1,2) assms(4) nth_mem complete, of 0] idle [OF nth_mem, of 0]
      workers inv(2) by (auto simp: d_bounded_def)
  have "d_waiting d = []"
    using st(9) select run open_ready ready inv(2)
    by (auto simp: sched_forward_def chan_send_def d_bounded_def split: list.splits)
  moreover from this have "d_pending d = 0"
    using inv(3) select ready complete busy by (simp add: d_counted_def)
  ultimately have "\<not> d_incoming_nil d" using run by (simp add: sched_stops_def)
  with \<open>d_waiting d = []\<close> have "ch_buf (d_incoming d) = [] \<and> \<not> ch_closed (d_incoming d)"
    using st(7) select run inv(2)
    by (auto simp: sched_accept_def chan_recv_cases d_bounded_def split: option.splits prod.splits)
  with \<open>d_waiting d = []\<close> show ?thesis using select ready idle by blast
qed

lemma quiet_idle:
  assumes "d_quiet uni d" and "d_panic d = None" and "d_inv tr d" and "d_private d"
    and "d_started d" and "d_sched d \<noteq> Sched_exit"
  shows "d_senders d = [] \<and> mset (accepted_of tr) = mset (delivered_of tr)"
proof -
  note rest = quiet_scheduler [OF assms]
  have inv: "d_bounded d" "d_account tr d" using assms(3) by (simp_all add: d_inv_def)
  have "d_senders d = []"
    using d_quietD(1) [OF assms(1,2), of 0] rest inv(1)
    by (auto simp: enqueue_send_def chan_send_def panic_with_def d_bounded_def split: if_splits)
  moreover have "map w_open (d_pool d) = map (\<lambda>_. {#}) (d_pool d)" using rest by auto
  then have "sum_list (map w_open (d_pool d)) = {#}" by (simp only: sum_list_0)
  ultimately show ?thesis using rest inv(2) by (simp add: d_account_def open_requests_def)
qed

lemma stuck_quiet: "d_stuck uni d \<Longrightarrow> d_quiet uni d"
  by (simp add: d_stuck_def d_quiet_def)

lemma quiet_stuck: "d_quiet uni d \<Longrightarrow> d_stop d \<noteq> Not_stopping \<Longrightarrow> d_stuck uni d"
  unfolding d_stuck_def d_quiet_def by (metis d_act_def d_enabled.simps(6) stop_call_def)

lemma stuck_scheduler:
  assumes "d_quiet uni d" and "d_panic d = None" and "d_inv tr d" and "d_private d"
    and "d_started d" and "ch_closed (d_incoming d)"
  shows "d_sched d = Sched_exit"
  using quiet_scheduler [OF assms(1-5)] assms(6) by blast

lemma d_stuck_drained:
  assumes "d_stuck uni d" and "d_panic d = None" and "d_inv tr d" and "d_private d"
    and "d_started d" and "d_stop d \<noteq> Not_stopping"
  shows "d_drained tr d"
proof -
  note quiet = stuck_quiet [OF assms(1)]
  have inv: "d_closing d" "d_bounded d" "d_counted d" "d_account tr d"
    using assms(3) by (simp_all add: d_inv_def)
  note stop = stuck_stop [OF quiet assms(2) inv(1) assms(6)]
  note exit = stuck_scheduler [OF quiet assms(2-5) conjunct2 [OF stop]]
  then have fin: "d_pending d = 0" "ch_buf (d_incoming d) = []" "ch_closed (d_ready d)"
    using inv(1) by (simp_all add: d_closing_def)
  then have "length (ch_buf (d_ready d)) + length (d_waiting d) + length (ch_buf (d_complete d)) = 0"
    using inv(3) exit unfolding d_counted_def by linarith
  then have empty: "ch_buf (d_ready d) = []" "d_waiting d = []" "ch_buf (d_complete d) = []"
    by simp_all
  have gone: "w = W_exit" if "w \<in> set (d_pool d)" for w
    using stuck_worker [OF quiet assms(2) inv(1,2) assms(4) that empty(3)] fin(3) by blast
  then have "loops_done d" using exit by (auto simp: loops_done_def list_all_iff)
  then have "d_stop d = Stop_returned"
    using d_quietD(5) [OF quiet assms(2)] inv(1) stop
    by (auto simp: stop_continue_def d_closing_def split: stop_phase.splits)
  moreover have "map w_open (d_pool d) = map (\<lambda>_. {#}) (d_pool d)" by (auto dest!: gone)
  then have "sum_list (map w_open (d_pool d)) = {#}" by (simp only: sum_list_0)
  ultimately show ?thesis
    using gone exit stop inv(4) empty fin(2)
    by (simp add: d_drained_def d_account_def open_requests_def list_all_iff)
qed

section \<open>Answers\<close>

text \<open>The value delivered for a request is the one its command computes.\<close>

definition answers_inv :: "(bytes \<Rightarrow> bytes) \<Rightarrow> registry \<Rightarrow> d_event list \<Rightarrow> dispatcher \<Rightarrow> bool" where
  "answers_inv uni reg tr d \<longleftrightarrow> d_registry d = reg \<and>
     (\<forall>r v. W_deliver r v \<in> set (d_pool d) \<longrightarrow> command_answer uni reg r v) \<and>
     (\<forall>r v. Delivered r v \<in> set tr \<longrightarrow> command_answer uni reg r v)"

lemma answers_inv_step:
  assumes "d_act uni act d = Some (d', ev)" and "answers_inv uni reg tr d"
  shows "answers_inv uni reg (tr @ ev) d'"
proof (cases "internal act")
  case True
  show ?thesis
    using d_act_rule [OF assms(1) True] assms(2)
    by (cases rule: d_rule.cases) (auto simp: answers_inv_def command_answer_def)
next
  case False
  show ?thesis
    using d_act_outer [OF assms(1) False] assms(2)
    by (cases rule: d_outer.cases) (auto simp: answers_inv_def)
qed

lemma d_run_answers:
  "d_run uni allowed d0 tr d \<Longrightarrow> answers_inv uni reg [] d0 \<Longrightarrow> answers_inv uni reg tr d"
  by (induction rule: d_run.induct) (auto intro: answers_inv_step)

lemma answers_inv_init: "answers_inv uni reg [] (NewDispatcher reg workers queueSize results)"
  by (simp add: answers_inv_def NewDispatcher_def Let_def)

section \<open>Properties\<close>

text \<open>Four requests and one more, each with a result channel of its own, for concrete runs.\<close>

definition sample_request :: "nat \<Rightarrow> request" where
  "sample_request k = \<lparr>req_SessionID = 1, req_Name = ''nope'', req_Args = [], req_Result = Some k\<rparr>"

definition sample_dispatcher :: dispatcher where
  "sample_dispatcher = NewDispatcher NewRegistry 1 2 (\<lambda>_. make_chan 1)"

definition submit :: "nat \<Rightarrow> d_action list" where
  "submit k = [D_enqueue (Some (sample_request k)), D_send 0, D_accept, D_place]"

definition work :: "d_action list" where
  "work = [D_worker 0, D_worker 0, D_worker 0, D_worker 0, D_complete]"

text \<open>
  C3: In every interleaving, each accepted request is in exactly one place: answered, or still in a
  queue, in the scheduler's hand or with a worker. None is lost, duplicated or answered twice, and
  every answer is the one its command computes.
\<close>

theorem dispatcher_conserves_requests:
  assumes "d_run uni allowed (NewDispatcher reg workers queueSize results) tr d"
    and "results_open results"
  shows "mset (accepted_of tr) = mset (delivered_of tr) + open_requests d \<and>
    (\<forall>r v. Delivered r v \<in> set tr \<longrightarrow>
       processRequest uni reg (req_SessionID r) (req_Name r) (req_Args r) = Inr v)"
  using d_run_inv [OF assms(1) d_inv_init [OF assms(2)]] d_run_answers [OF assms(1) answers_inv_init]
  by (simp add: d_inv_def d_account_def answers_inv_def command_answer_def)

theorem dispatcher_conserves_requests_witness:
  "\<exists>tr d. d_run id any_caller sample_dispatcher tr d \<and> accepted_of tr = [sample_request 0] \<and>
    mset (accepted_of tr) = mset (delivered_of tr) + open_requests d"
proof -
  obtain d where run: "d_run id any_caller sample_dispatcher ([] @ [Accepted (sample_request 0)]) d"
    using d_schedule_run [of id "[D_enqueue (Some (sample_request 0)), D_send 0]" sample_dispatcher _
        "[Accepted (sample_request 0)]" any_caller sample_dispatcher "[]", OF _ _ d_init]
    by (auto simp: any_caller_def d_act_def enqueue_defs enqueue_check_def sample_dispatcher_def
        NewDispatcher_def sample_request_def chan_send_def)
  show ?thesis
    using run dispatcher_conserves_requests [OF run [unfolded sample_dispatcher_def]]
    by (intro exI [of _ "[Accepted (sample_request 0)]"] exI [of _ d]) (simp add: results_open_def)
qed

text \<open>
  C20: In every reachable state the queues and the waiting list hold at most the queue size, at most
  the configured number of workers exist, and the scheduler's counter is exactly the number of
  requests it still owes: it stays within three queues, the workers and one, and never underflows.
\<close>

theorem dispatcher_bounds:
  assumes "d_run uni allowed (NewDispatcher reg workers queueSize results) tr d"
    and "results_open results"
  shows "length (ch_buf (d_incoming d)) \<le> d_queueSize d \<and> length (ch_buf (d_ready d)) \<le> d_queueSize d \<and>
    length (ch_buf (d_complete d)) \<le> d_queueSize d \<and> length (d_waiting d) \<le> d_queueSize d \<and>
    length (d_pool d) \<le> d_workers d \<and>
    0 \<le> d_pending d \<and> d_pending d \<le> int (3 * d_queueSize d + d_workers d)"
proof -
  have inv: "d_bounded d" "d_counted d"
    using d_run_inv [OF assms(1) d_inv_init [OF assms(2)]] by (simp_all add: d_inv_def)
  have "w_busy w \<le> 1" for w by (cases w) simp_all
  then have "sum_list (map w_busy ws) \<le> length ws" for ws
    using sum_list_mono [of ws w_busy "\<lambda>_. 1"] by (simp add: sum_list_triv)
  from this [of "d_pool d"] inv show ?thesis by (simp add: d_bounded_def d_counted_def)
qed

text \<open>Two requests accepted, and the incoming queue is full.\<close>

theorem dispatcher_bounds_witness:
  "\<exists>tr d. d_run id any_caller sample_dispatcher tr d \<and> d_queueSize d = 2 \<and> length (ch_buf (d_incoming d)) = 2 \<and>
    d_pending d \<le> 7 \<and> length (d_pool d) \<le> 1"
proof -
  let ?acts = "[D_enqueue (Some (sample_request 0)), D_send 0, D_enqueue (Some (sample_request 1)), D_send 0]"
  let ?tr = "[Accepted (sample_request 0), Accepted (sample_request 1)]"
  obtain d where d: "d_schedule id ?acts sample_dispatcher = Some (d, ?tr)" "d_queueSize d = 2" "d_workers d = 1"
      "length (ch_buf (d_incoming d)) = 2"
    by (simp add: d_act_def enqueue_defs enqueue_check_def sample_dispatcher_def NewDispatcher_def
        sample_request_def chan_send_def remove_nth_def)
  have run: "d_run id any_caller sample_dispatcher ([] @ ?tr) d"
    using d(1) by (rule d_schedule_run [OF _ _ d_init]) (rule any_caller_def [THEN iffD2, OF TrueI])
  have "d_pending d \<le> 7 \<and> length (d_pool d) \<le> 1"
    using dispatcher_bounds [OF run [unfolded sample_dispatcher_def]] d(2,3) by (simp add: results_open_def)
  with run d show ?thesis by blast
qed

text \<open>
  C21: No interleaving of enqueuing, stopping, scheduling and working sends on a closed channel or
  closes one twice: a panic, if there is one, comes from a user's handler.
\<close>

theorem dispatcher_channels_safe:
  assumes "d_run uni allowed (NewDispatcher reg workers queueSize results) tr d"
    and "results_open results" and "d_panic d = Some p"
  shows "p = Nil_dereference"
  using d_run_inv [OF assms(1) d_inv_init [OF assms(2)]] assms(3)
  by (auto simp: d_inv_def d_closing_def)

text \<open>A handler that is nil, registered for the name of the sample requests.\<close>

definition nil_handler_registry :: registry where
  "nil_handler_registry = Register id ''nope'' (Some (FuncFactory None)) NewRegistry"

theorem dispatcher_channels_safe_witness:
  "\<exists>tr d p. d_run id any_caller (NewDispatcher nil_handler_registry 1 2 (\<lambda>_. make_chan 1)) tr d \<and>
    d_panic d = Some p \<and> p = Nil_dereference"
proof -
  let ?d0 = "NewDispatcher nil_handler_registry 1 2 (\<lambda>_. make_chan 1)"
  let ?acts = "[D_start, D_spawn] @ submit 0 @ [D_worker 0, D_worker 0]"
  obtain d where d: "d_schedule id ?acts ?d0 = Some (d, [Accepted (sample_request 0)])"
      "d_panic d = Some Nil_dereference"
    by (simp add: submit_def d_act_def d_defs enqueue_check_def NewDispatcher_def sample_request_def
        chan_send_def chan_recv_def sched_stops_def set_worker_def remove_nth_def processRequest_def
        nil_handler_registry_def registry_defs FuncFactory_def)
  have run: "d_run id any_caller ?d0 ([] @ [Accepted (sample_request 0)]) d"
    using d_schedule_run [OF d(1) _ d_init] by (simp add: any_caller_def)
  show ?thesis
    using dispatcher_channels_safe [OF run _ d(2)] run d(2) by (auto simp: results_open_def)
qed

text \<open>
  C5: Once \<^verbatim>\<open>Stop\<close> has been called on a started dispatcher whose callers use a fresh result channel per
  request, no schedule of its goroutines goes on for ever, and none gets stuck early: when no
  goroutine can move, \<^verbatim>\<open>Stop\<close> has returned, scheduler and workers are gone and every accepted request
  has been answered (unless a handler panicked).
\<close>

theorem dispatcher_stop_drains:
  assumes "d_run uni fresh_caller (NewDispatcher reg workers queueSize results) tr d"
    and "results_open results" and "d_started d" and "d_stop d \<noteq> Not_stopping"
    and "d_schedule uni acts d = Some (d', evs)" and "list_all internal acts"
  shows "length acts \<le> d_measure d \<and>
    (d_stuck uni d' \<longrightarrow> d_panic d' = None \<longrightarrow> d_drained (tr @ evs) d')"
proof -
  note inv = d_run_inv [OF assms(1) d_inv_init [OF assms(2)]]
  note priv = d_run_private [OF assms(1) d_inv_init [OF assms(2)] d_private_init]
  have inv': "d_inv (tr @ evs) d'" by (rule d_schedule_inv [OF assms(5) inv])
  have keep: "d_private d' \<and> d_started d' \<and> d_stop d' \<noteq> Not_stopping"
    using d_schedule_keeps [OF assms(3,5,6) inv priv] assms(4) by blast
  show ?thesis
    using d_schedule_bound [OF assms(5) inv assms(6)] d_stuck_drained [OF _ _ inv'] keep by auto
qed

lemma d_quietI:
  assumes "\<And>i. enqueue_send i d = None" and "\<And>i. enqueue_abort i d = None" and "start_scheduler d = None"
    and "start_worker d = None" and "stop_continue d = None"
    and "sched_exit d = None" and "sched_accept d = None" and "sched_place d = None"
    and "sched_forward d = None" and "sched_complete d = None" and "\<And>i. worker_step uni i d = None"
  shows "d_quiet uni d"
  unfolding d_quiet_def
proof (intro allI impI)
  show "d_act uni act d = None" if "internal act \<and> act \<noteq> D_stop" for act
    using assms that by (cases act) (simp_all add: d_act_def)
qed

lemmas step_simps = d_act_def d_defs enqueue_check_def sample_dispatcher_def NewDispatcher_def
  sample_request_def chan_send_def chan_recv_def chan_close_def sched_stops_def set_worker_def
  remove_nth_def processRequest_def registry_defs loops_done_def

text \<open>
  C4: A started dispatcher whose callers use a fresh result channel per request answers every request it
  has accepted, stopped or not: its own actions cannot go on for ever, and when none is possible, every
  call of \<^verbatim>\<open>Enqueue\<close> has returned and every accepted request has been answered (unless a handler
  panicked). Full queues never block it.
\<close>

theorem dispatcher_answers_all:
  assumes "d_run uni fresh_caller (NewDispatcher reg workers queueSize results) tr d"
    and "results_open results" and "d_started d"
    and "d_schedule uni acts d = Some (d', evs)" and "list_all internal acts"
  shows "length acts \<le> d_measure d \<and>
    (d_quiet uni d' \<longrightarrow> d_panic d' = None \<longrightarrow>
       d_senders d' = [] \<and> mset (accepted_of (tr @ evs)) = mset (delivered_of (tr @ evs)))"
proof -
  note inv = d_run_inv [OF assms(1) d_inv_init [OF assms(2)]]
  note priv = d_run_private [OF assms(1) d_inv_init [OF assms(2)] d_private_init]
  have inv': "d_inv (tr @ evs) d'" by (rule d_schedule_inv [OF assms(4) inv])
  have keep: "d_private d'" "d_started d'" using d_schedule_keeps [OF assms(3-5) inv priv] by auto
  have "d_senders d' = [] \<and> mset (accepted_of (tr @ evs)) = mset (delivered_of (tr @ evs))"
    if "d_quiet uni d'" "d_panic d' = None"
  proof (cases "d_stop d' = Not_stopping")
    case True
    then have "d_sched d' \<noteq> Sched_exit" using inv' by (auto simp: d_inv_def d_closing_def)
    then show ?thesis by (rule quiet_idle [OF that inv' keep])
  next
    case False
    then show ?thesis
      using d_stuck_drained [OF quiet_stuck [OF that(1)] that(2) inv' keep] by (simp add: d_drained_def)
  qed
  then show ?thesis using d_schedule_bound [OF assms(4) inv assms(5)] by (auto dest: add_leD1)
qed

theorem dispatcher_answers_all_witness:
  "\<exists>tr d acts d' evs. d_run id fresh_caller sample_dispatcher tr d \<and> d_stop d = Not_stopping \<and>
    d_schedule id acts d = Some (d', evs) \<and> d_quiet id d' \<and> d_senders d' = [] \<and>
    mset (accepted_of (tr @ evs)) = mset (delivered_of (tr @ evs)) \<and> accepted_of (tr @ evs) = [sample_request 0]"
proof -
  let ?pre = "[D_send 0, D_start]" and ?acts = "[D_accept, D_place, D_spawn] @ work"
  let ?answer = "[Delivered (sample_request 0) (NotFoundError ''nope'')]"
  let ?acc = "[Accepted (sample_request 0)]"
  define d1 where "d1 = fst (the (d_act id (D_enqueue (Some (sample_request 0))) sample_dispatcher))"
  define d where "d = fst (the (d_schedule id ?pre d1))"
  define d' where "d' = fst (the (d_schedule id ?acts d))"
  have d1: "d_act id (D_enqueue (Some (sample_request 0))) sample_dispatcher = Some (d1, [])"
    by (simp add: d1_def step_simps)
  have d: "d_schedule id ?pre d1 = Some (d, ?acc)" "d_started d" "d_stop d = Not_stopping"
    by (simp_all add: d_def d1_def step_simps)
  have d': "d_schedule id ?acts d = Some (d', ?answer)" "d_panic d' = None"
    by (simp_all add: d'_def d_def d1_def work_def step_simps)
  have quiet: "d_quiet id d'"
    by (rule d_quietI; simp add: d'_def d_def d1_def work_def step_simps)
  have "d_run id fresh_caller sample_dispatcher ([] @ []) d1"
    by (rule d_step [OF d_init _ d1])
      (simp add: open_chans_def open_requests_def sample_dispatcher_def NewDispatcher_def Let_def)
  then have run: "d_run id fresh_caller sample_dispatcher (([] @ []) @ ?acc) d"
    by (rule d_schedule_run [OF d(1), rotated]) auto
  have "list_all internal ?acts" by (simp add: work_def)
  with dispatcher_answers_all [OF run [unfolded sample_dispatcher_def] _ d(2) d'(1)] d'(2) quiet
  have "d_senders d' = [] \<and> mset (accepted_of (?acc @ ?answer)) = mset (delivered_of (?acc @ ?answer))"
    by (simp add: results_open_def)
  with run d(3) d'(1) quiet show ?thesis
    by (intro exI [of _ ?acc] exI [of _ d] exI [of _ ?acts] exI [of _ d'] exI [of _ ?answer]) simp
qed

theorem dispatcher_stop_drains_witness:
  "\<exists>tr d acts d' evs. d_run id fresh_caller sample_dispatcher tr d \<and>
    d_schedule id acts d = Some (d', evs) \<and> d_drained (tr @ evs) d' \<and>
    delivered_of (tr @ evs) = [sample_request 0]"
proof -
  let ?pre = "[D_send 0, D_start, D_stop]"
  let ?acts = "[D_accept, D_place, D_spawn, D_stop_continue, D_worker 0, D_worker 0, D_worker 0,
    D_worker 0, D_complete, D_stop_continue, D_accept, D_exit, D_worker 0, D_stop_continue]"
  let ?answer = "[Delivered (sample_request 0) (NotFoundError ''nope'')]"
  let ?acc = "[Accepted (sample_request 0)]"
  define d1 where "d1 = fst (the (d_act id (D_enqueue (Some (sample_request 0))) sample_dispatcher))"
  define d where "d = fst (the (d_schedule id ?pre d1))"
  define d' where "d' = fst (the (d_schedule id ?acts d))"
  have d1: "d_act id (D_enqueue (Some (sample_request 0))) sample_dispatcher = Some (d1, [])"
    by (simp add: d1_def step_simps)
  have d: "d_schedule id ?pre d1 = Some (d, ?acc)" "d_started d" "d_stop d = Stop_flagged"
    by (simp_all add: d_def d1_def step_simps)
  have d': "d_schedule id ?acts d = Some (d', ?answer)" "d_panic d' = None"
    by (simp_all add: d'_def d_def d1_def step_simps)
  have stuck: "d_stuck id d'"
    by (rule quiet_stuck, rule d_quietI; simp add: d'_def d_def d1_def step_simps)
  have "d_run id fresh_caller sample_dispatcher ([] @ []) d1"
    by (rule d_step [OF d_init _ d1])
      (simp add: open_chans_def open_requests_def sample_dispatcher_def NewDispatcher_def Let_def)
  then have run: "d_run id fresh_caller sample_dispatcher (([] @ []) @ ?acc) d"
    by (rule d_schedule_run [OF d(1), rotated]) auto
  have "list_all internal ?acts" by simp
  with dispatcher_stop_drains [OF run [unfolded sample_dispatcher_def] _ d(2) _ d'(1)] d(3) d'(2) stuck
  have "d_drained (?acc @ ?answer) d'" by (simp add: results_open_def)
  with run d'(1) show ?thesis
    by (intro exI [of _ ?acc] exI [of _ d] exI [of _ ?acts] exI [of _ d'] exI [of _ ?answer]) simp
qed

text \<open>
  C37: The scheduler does not preserve the order of arrival: while a request waits because the ready
  queue was full, a later one can take a place that has become free and be answered first, even with
  a single worker.
\<close>

theorem dispatcher_reorders:
  "\<exists>tr d. d_run id any_caller sample_dispatcher tr d \<and>
    accepted_of tr = map sample_request [0, 1, 2, 3, 4] \<and>
    delivered_of tr = map sample_request [0, 1, 2, 4]"
proof -
  let ?acts = "[D_start, D_spawn] @ submit 0 @ [D_worker 0] @ submit 1 @ submit 2 @ submit 3 @
    work @ submit 4 @ work @ work @ [D_worker 0, D_worker 0]"
  let ?tr = "map (Accepted \<circ> sample_request) [0, 1, 2, 3] @
    [Delivered (sample_request 0) (NotFoundError ''nope''), Accepted (sample_request 4)] @
    map (\<lambda>k. Delivered (sample_request k) (NotFoundError ''nope'')) [1, 2, 4]"
  obtain d where "d_schedule id ?acts sample_dispatcher = Some (d, ?tr)"
    by (simp add: submit_def work_def d_act_def d_defs enqueue_check_def sample_dispatcher_def
        NewDispatcher_def sample_request_def chan_send_def chan_recv_def sched_stops_def
        set_worker_def remove_nth_def processRequest_def registry_defs)
  then have "d_run id any_caller sample_dispatcher ([] @ ?tr) d"
    by (rule d_schedule_run [OF _ _ d_init]) (rule any_caller_def [THEN iffD2, OF TrueI])
  then show ?thesis by (intro exI [of _ ?tr] exI [of _ d]) simp
qed

end
