(* ===== verification/Protocol_Reader.thy ===== *)
theory Protocol_Reader
  imports Wire_Roundtrip "HOL-Library.Sublist"
begin

text \<open>
  The \<^verbatim>\<open>Reader\<close> of \<^verbatim>\<open>internal/protocol/parser.go\<close>: it parses the first value of its buffer, reads more
  bytes while there is none, copies the value out of the buffer into a scope and compacts the
  buffer. The byte source is the list of what each \<^verbatim>\<open>src.Read\<close> call will return, bytes and an optional
  error; a source that has nothing more to return blocks. Lemmas: how the input is cut into chunks
  does not matter, what is returned does not share memory with the buffer, and a complete but
  invalid header keeps the reader waiting for ever.
\<close>

section \<open>Copying a value into a scope\<close>

text \<open>\<^verbatim>\<open>copy(dst, src)\<close> overwrites a prefix of \<^verbatim>\<open>dst\<close>, as much as fits.\<close>

definition go_copy :: "bytes \<Rightarrow> bytes \<Rightarrow> bytes" where
  "go_copy dst src = take (length dst) src @ drop (length src) dst"

text \<open>
  The scope of the third-party package \<^verbatim>\<open>mempool\<close> is its \<^verbatim>\<open>Get\<close>: a function from a size to the bytes of
  the buffer handed out. What the reader relies on is that the buffer has the size asked for.
\<close>

type_synonym scope_get = "nat \<Rightarrow> bytes"

definition scope_sized :: "scope_get \<Rightarrow> bool" where
  "scope_sized get \<longleftrightarrow> (\<forall>n. length (get n) = n)"

function copyValueIntoScope :: "scope_get \<Rightarrow> bytes \<Rightarrow> pvalue \<Rightarrow> pvalue" where
  "copyValueIntoScope get buf (RespValue t s n b a) =
     (if t = TypeBulkString then
        (case b of
           None \<Rightarrow> RespValue t s n b a
         | Some bulk \<Rightarrow>
             let src = deref buf bulk;
                 dup = go_copy (get (length src)) src
             in RespValue t s n (Some (Fresh (take (length src) dup))) a)
      else if t = TypeArray then
        (if length (opt_list a) = 0 then RespValue t s n b a
         else RespValue t s n b (Some (map (copyValueIntoScope get buf) (opt_list a))))
      else RespValue t s n b a)"
  by pat_completeness auto
termination
  by (relation "measure (\<lambda>(get, buf, v). size v)") (auto dest: size_elem simp del: resp_value.size)

text \<open>
  A value that owns its bytes, and the shape of what the parser builds: only the field that belongs to
  the type byte is set, all the way down.
\<close>

definition owned :: "pvalue \<Rightarrow> bool" where
  "owned v \<longleftrightarrow> (\<forall>s \<in> set_resp_value v. \<exists>bs. s = Fresh bs)"

function parsed_shape :: "pvalue \<Rightarrow> bool" where
  "parsed_shape (RespValue t s n b a) \<longleftrightarrow>
     t \<in> {TypeSimpleString, TypeError, TypeInteger, TypeBulkString, TypeArray, TypeNull} \<and>
     (s \<noteq> [] \<longrightarrow> t \<in> {TypeSimpleString, TypeError}) \<and> (n \<noteq> 0 \<longrightarrow> t = TypeInteger) \<and>
     (b \<noteq> None \<longleftrightarrow> t = TypeBulkString) \<and> (a \<noteq> None \<longrightarrow> t = TypeArray) \<and>
     (\<forall>v \<in> set (opt_list a). parsed_shape v)"
  by pat_completeness auto
termination
  by (relation "measure size") (auto dest: size_elem simp del: resp_value.size)

lemma owned_RespValue:
  "owned (RespValue t s n b a) \<longleftrightarrow>
     (\<forall>x. b = Some x \<longrightarrow> (\<exists>bs. x = Fresh bs)) \<and> (\<forall>v \<in> set (opt_list a). owned v)"
  by (cases a; cases b) (auto simp: owned_def)

lemma owned_resolve: "owned v \<Longrightarrow> resolve buf v = resolve buf' v"
  unfolding resolve_def owned_def by (rule resp_value.map_cong0) auto

lemma copyValueIntoScope_owned: "parsed_shape v \<Longrightarrow> owned (copyValueIntoScope get buf v)"
proof (induction v rule: value_induct)
  case (RespValue t s n b a)
  then show ?case
    by (cases "t = TypeBulkString"; cases "t = TypeArray"; cases b) (simp_all add: owned_RespValue Let_def)
qed

lemma copyValueIntoScope_resolve:
  assumes "scope_sized get" and "parsed_shape v"
  shows "resolve buf' (copyValueIntoScope get buf v) = resolve buf v"
  using assms(2)
proof (induction v rule: value_induct)
  case (RespValue t s n b a)
  have dup: "take (length src) (go_copy (get (length src)) src) = src" for src
    using assms(1) by (simp add: scope_sized_def go_copy_def)
  show ?case
    using RespValue by (cases a) (auto simp: dup Let_def split: option.splits)
qed

lemma parsed_shape_constructors [simp]:
  "parsed_shape (SimpleString x)" "parsed_shape (Error x)" "parsed_shape (Integer k)"
  "parsed_shape Null" "parsed_shape (BulkBytes (Some y))"
  by (simp_all add: value_constructors)

lemma parsed_shape_array:
  "parsed_shape (RespValue TypeArray [] 0 None (Some vs)) \<longleftrightarrow> list_all parsed_shape vs"
  by (simp add: list_all_iff)

lemma parse_shape:
  "parseNext buf pos = Inr (Some v, p) \<Longrightarrow> parsed_shape v"
  "parseArray buf pos = Inr (Some v, p) \<Longrightarrow> parsed_shape v"
  "parseElems buf start n pos es = Inr (Some v, p) \<Longrightarrow> list_all parsed_shape es \<Longrightarrow> parsed_shape v"
proof (induction buf pos and buf pos and buf start n pos es arbitrary: v p and v p and v p
    rule: parseNext_parseArray_parseElems.induct)
  case (1 buf pos)
  then show ?case
    by (auto simp: parseNext.simps parse_leaf_defs Let_def simp del: parsed_shape.simps
        split: if_splits option.splits) (auto simp: list_all_iff)
next
  case (2 buf pos)
  then show ?case
    by (fastforce simp: parseArray.simps split: option.splits if_splits)
next
  case (3 buf start n pos es)
  then show ?case
    by (auto simp: parseElems.simps [of buf start n] parsed_shape_array simp del: parsed_shape.simps
        split: option.splits if_splits sum.splits)
qed

section \<open>The Reader\<close>

record reader =
  r_buf :: bytes

definition NewReader :: reader where
  "NewReader = \<lparr>r_buf = []\<rparr>"

definition compact :: "bytes \<Rightarrow> nat \<Rightarrow> bytes" where
  "compact buf consumed =
     (if length buf \<le> consumed then []
      else take (length buf - consumed) (go_copy buf (drop consumed buf)))"

lemma compact_drop [simp]: "compact buf consumed = drop consumed buf"
  by (simp add: compact_def go_copy_def)

type_synonym 'e source = "(bytes \<times> 'e option) list"

text \<open>How a call of \<^verbatim>\<open>Read\<close> ends; \<open>Read_blocked\<close>: it waits in \<^verbatim>\<open>src.Read\<close>.\<close>

datatype 'e read_outcome =
    Read_value pvalue
  | Read_error 'e
  | Read_scope_is_nil
  | Read_panic go_panic
  | Read_blocked

text \<open>
  The loop of \<^verbatim>\<open>Read\<close>. Bytes that come together with an error are added to the buffer, and the error
  is returned without another attempt to parse. Each turn asks the scope for a fresh 4096-byte
  chunk; of that chunk only the bytes read are kept.
\<close>

fun Read_loop :: "scope_get \<Rightarrow> reader \<Rightarrow> 'e source \<Rightarrow> 'e read_outcome \<times> reader \<times> 'e source" where
  "Read_loop get r src =
     (case ParseOne (r_buf r) of
        Inl p \<Rightarrow> (Read_panic p, r, src)
      | Inr (Some (value, consumed)) \<Rightarrow>
          (Read_value (copyValueIntoScope get (r_buf r) value),
            r\<lparr>r_buf := compact (r_buf r) consumed\<rparr>, src)
      | Inr None \<Rightarrow>
          (case src of
             [] \<Rightarrow> (Read_blocked, r, [])
           | (chunk, err) # src' \<Rightarrow>
               let r' = (if 0 < length chunk then r\<lparr>r_buf := r_buf r @ chunk\<rparr> else r)
               in case err of
                    Some e \<Rightarrow> (Read_error e, r', src')
                  | None \<Rightarrow> Read_loop get r' src'))"

declare Read_loop.simps [simp del]

definition Read :: "scope_get option \<Rightarrow> reader \<Rightarrow> 'e source \<Rightarrow> 'e read_outcome \<times> reader \<times> 'e source" where
  "Read scope r src =
     (case scope of
        None \<Rightarrow> (Read_scope_is_nil, r, src)
      | Some get \<Rightarrow> Read_loop get r src)"

section \<open>Chunks do not matter\<close>

text \<open>The bytes a source still has, and a source that reports no error.\<close>

definition source_bytes :: "'e source \<Rightarrow> bytes" where
  "source_bytes src = concat (map fst src)"

definition no_errors :: "'e source \<Rightarrow> bool" where
  "no_errors src \<longleftrightarrow> list_all (\<lambda>(_, err). err = None) src"

lemma source_bytes_simps [simp]:
  "source_bytes [] = []" "source_bytes ((c, e) # src) = c @ source_bytes src"
  by (simp_all add: source_bytes_def)

lemma no_errors_Cons [simp]: "no_errors ((c, e) # src) \<longleftrightarrow> e = None \<and> no_errors src" "no_errors []"
  by (simp_all add: no_errors_def)

lemma ParseOne_decode:
  "parseNext buf 0 = Inr (Some v, p) \<Longrightarrow> ParseOne buf = Inr (Some (v, p))"
  "parseNext buf 0 = Inr (None, p) \<Longrightarrow> ParseOne buf = Inr None"
  "parseNext buf 0 = Inl q \<Longrightarrow> ParseOne buf = Inl q"
  by (simp_all add: ParseOne_def)

lemma Read_loop_complete:
  assumes "wire_ok v" and "scope_sized get" and "r_buf r = encode v @ post"
    and "length (encode v @ post) < 2 ^ 63"
  shows "\<exists>pv r'. Read_loop get r src = (Read_value pv, r', src) \<and> owned pv \<and>
    resolve buf' pv = wire_norm v \<and> r_buf r' = post"
proof -
  obtain pv where pv: "parseNext (r_buf r) 0 = Inr (Some pv, length (encode v))"
      "resolve (r_buf r) pv = wire_norm v"
    using parses_backD [OF parse_encode [OF assms(1)], of "[]" post] assms(3,4) by auto
  note shape = parse_shape(1) [OF pv(1)]
  have "Read_loop get r src = (Read_value (copyValueIntoScope get (r_buf r) pv),
      r\<lparr>r_buf := drop (length (encode v)) (r_buf r)\<rparr>, src)"
    by (simp add: Read_loop.simps [of get r] ParseOne_decode(1) [OF pv(1)])
  then show ?thesis
    using copyValueIntoScope_resolve [OF assms(2) shape] copyValueIntoScope_owned [OF shape]
      pv(2) assms(3) by simp
qed

lemma ParseOne_waits:
  assumes "wire_ok v" and "length (encode v) < 2 ^ 63 - 2" and "encode v = buf @ ys" and "ys \<noteq> []"
  shows "ParseOne buf = Inr None"
  using resp_codec.dec_prefix_waits [OF assms] by (auto simp: decode_cases intro: ParseOne_decode(2))

lemma Read_loop_waits:
  assumes "wire_ok v" and "length (encode v) < 2 ^ 63 - 2"
    and "encode v = r_buf r @ ys" and "ys \<noteq> []"
  shows "Read_loop get r ((chunk, None) # src) = Read_loop get (r\<lparr>r_buf := r_buf r @ chunk\<rparr>) src"
    and "Read_loop get r [] = (Read_blocked, r, [])"
proof -
  have one: "ParseOne (r_buf r) = Inr None" by (rule ParseOne_waits [OF assms])
  show "Read_loop get r ((chunk, None) # src) = Read_loop get (r\<lparr>r_buf := r_buf r @ chunk\<rparr>) src"
    by (simp add: Read_loop.simps [of get r] one)
  show "Read_loop get r [] = (Read_blocked, r, [])"
    by (simp add: Read_loop.simps [of get r] one)
qed

lemma Read_loop_value:
  fixes src :: "'e source"
  assumes "wire_ok v" and "scope_sized get" and "no_errors src"
    and "r_buf r @ source_bytes src = encode v @ rest"
    and "length (encode v @ rest) < 2 ^ 63 - 2"
  shows "\<exists>pv r' src'. Read_loop get r src = (Read_value pv, r', src') \<and> owned pv \<and>
    resolve buf' pv = wire_norm v \<and> no_errors src' \<and> r_buf r' @ source_bytes src' = rest"
  using assms(3,4)
proof (induction src arbitrary: r)
  case Nil
  then have "r_buf r = encode v @ rest" by simp
  then obtain pv r' where "Read_loop get r ([] :: 'e source) = (Read_value pv, r', [])" "owned pv"
      "resolve buf' pv = wire_norm v" "r_buf r' = rest"
    using Read_loop_complete [OF assms(1,2), of r rest "[]" buf'] assms(5) by auto
  then show ?case by (intro exI [of _ pv] exI [of _ r'] exI [of _ "[]"]) simp
next
  case (Cons x src)
  obtain chunk where x: "x = (chunk, None)" "no_errors src" using Cons.prems(1) by (cases x) auto
  consider (whole) us where "r_buf r = encode v @ us" "us @ source_bytes (x # src) = rest"
    | (part) us where "r_buf r @ us = encode v" "us \<noteq> []"
  proof -
    obtain us where us: "r_buf r = encode v @ us \<and> us @ source_bytes (x # src) = rest \<or>
        r_buf r @ us = encode v \<and> source_bytes (x # src) = us @ rest"
      using Cons.prems(2) append_eq_append_conv2 by blast
    then show thesis
      using that(1) [of us] that(1) [of "[]"] that(2) [of us] by (cases "us = []") auto
  qed
  then show ?case
  proof cases
    case whole
    then have "length (encode v @ us) < 2 ^ 63" using assms(5) by auto
    then show ?thesis
      using Read_loop_complete [OF assms(1,2) whole(1), of "x # src" buf'] whole(2) Cons.prems(1) by auto
  next
    case part
    then have "Read_loop get r (x # src) = Read_loop get (r\<lparr>r_buf := r_buf r @ chunk\<rparr>) src"
      using Read_loop_waits(1) [OF assms(1) _ part(1) [symmetric]] assms(5) x by simp
    then show ?thesis
      using Cons.IH [of "r\<lparr>r_buf := r_buf r @ chunk\<rparr>"] Cons.prems(2) x by simp
  qed
qed

text \<open>What one call takes and returns, whatever the input is.\<close>

lemma Read_loop_step:
  "ParseOne (r_buf r) = Inr None \<Longrightarrow>
    Read_loop get r src = (Read_value pv, r', src') \<longleftrightarrow>
      (\<exists>chunk src1. src = (chunk, None) # src1 \<and>
        Read_loop get (r\<lparr>r_buf := r_buf r @ chunk\<rparr>) src1 = (Read_value pv, r', src'))"
  by (auto simp: Read_loop.simps [of get r] Let_def split: list.split option.split)

lemma copyValueIntoScope_shape: "parsed_shape v \<Longrightarrow> parsed_shape (copyValueIntoScope get buf v)"
proof (induction v rule: value_induct)
  case (RespValue t s n b a)
  then show ?case by (cases b; cases a) (auto simp: Let_def)
qed

lemma Read_loop_typed:
  assumes "Read_loop get r src = (Read_value pv, r', src')"
  shows "parsed_shape pv \<and> owned pv \<and>
    (\<exists>taken. taken \<noteq> [] \<and> r_buf r @ source_bytes src = taken @ r_buf r' @ source_bytes src')"
  using assms
proof (induction src arbitrary: r rule: length_induct)
  case (1 src)
  show ?case
  proof (cases "ParseOne (r_buf r)")
    case (Inl q)
    with 1(2) show ?thesis by (simp add: Read_loop.simps [of get r])
  next
    case (Inr res)
    show ?thesis
    proof (cases res)
      case None
      then obtain chunk src1 where more: "src = (chunk, None) # src1"
          "Read_loop get (r\<lparr>r_buf := r_buf r @ chunk\<rparr>) src1 = (Read_value pv, r', src')"
        using Read_loop_step [of r get src pv r' src'] Inr 1(2) by auto
      then show ?thesis using 1(1) [rule_format, of src1 "r\<lparr>r_buf := r_buf r @ chunk\<rparr>"] by simp
    next
      case (Some vn)
      obtain v n where vn: "vn = (v, n)" by fastforce
      have parse: "parseNext (r_buf r) 0 = Inr (Some v, n)"
        using Inr by (auto simp: Some vn ParseOne_def split: sum.splits option.splits)
      have "take n (r_buf r) \<noteq> [] \<and> r_buf r = take n (r_buf r) @ drop n (r_buf r)"
        using parse_advance(1) [OF parse] by auto
      then have "\<exists>taken. taken \<noteq> [] \<and> r_buf r = taken @ drop n (r_buf r)" by blast
      then show ?thesis
        using 1(2) parse_shape(1) [OF parse]
        by (auto simp: Read_loop.simps [of get r] Inr Some vn copyValueIntoScope_shape copyValueIntoScope_owned)
    qed
  qed
qed

text \<open>Reading one value after another from the same reader and source.\<close>

fun Read_many :: "nat \<Rightarrow> scope_get \<Rightarrow> reader \<Rightarrow> 'e source \<Rightarrow> 'e read_outcome list" where
  "Read_many 0 get r src = []"
| "Read_many (Suc k) get r src =
     (case Read (Some get) r src of
        (out, r', src') \<Rightarrow> out # Read_many k get r' src')"

lemma Read_many_values:
  "list_all wire_ok vs \<Longrightarrow> scope_sized get \<Longrightarrow> no_errors src \<Longrightarrow>
    r_buf r @ source_bytes src = concat (map encode vs) @ rest \<Longrightarrow>
    length (concat (map encode vs) @ rest) < 2 ^ 63 - 2 \<Longrightarrow>
    list_all2 (\<lambda>out v. \<exists>pv. out = Read_value pv \<and> owned pv \<and> resolve buf' pv = wire_norm v)
      (Read_many (length vs) get r src) vs"
proof (induction vs arbitrary: r src)
  case (Cons v vs)
  then obtain pv r' src' where step: "Read_loop get r src = (Read_value pv, r', src')" "owned pv"
      "resolve buf' pv = wire_norm v" "no_errors src'"
      "r_buf r' @ source_bytes src' = concat (map encode vs) @ rest"
    using Read_loop_value [of v get src r "concat (map encode vs) @ rest" buf'] by auto
  with Cons show ?case by (simp add: Read_def)
qed simp

section \<open>Errors and an early end\<close>

text \<open>
  A reader that is given some first part of the bytes of a value and what follows it returns that value
  or nothing, wherever errors come in between.
\<close>

lemma Read_loop_prefix:
  fixes src :: "'e source"
  assumes "wire_ok v" and "scope_sized get" and "length (encode v @ rest) < 2 ^ 63 - 2"
    and "prefix (r_buf r @ source_bytes src) (encode v @ rest)"
    and "Read_loop get r src = (Read_value pv, r', src')"
  shows "resolve buf pv = wire_norm v \<and> r_buf r @ source_bytes src = encode v @ r_buf r' @ source_bytes src'"
  using assms(4,5)
proof (induction src arbitrary: r rule: length_induct)
  case (1 src)
  have "prefix (r_buf r) (encode v @ rest)" using 1(2) by (rule append_prefixD)
  then consider (whole) us where "r_buf r = encode v @ us" "prefix us rest"
    | (part) ys where "encode v = r_buf r @ ys" "ys \<noteq> []"
    by (auto simp: prefix_append elim!: prefixE) (metis append_Nil2 prefix_bot.extremum)
  then show ?case
  proof cases
    case whole
    then have "length (encode v @ us) < 2 ^ 63" using assms(3) prefix_length_le [OF whole(2)] by simp
    then show ?thesis
      using Read_loop_complete [OF assms(1,2) whole(1), of src buf] 1(3) whole(1) by auto
  next
    case part
    then have "ParseOne (r_buf r) = Inr None" using ParseOne_waits [OF assms(1) _ part] assms(3) by simp
    then obtain chunk src1 where more: "src = (chunk, None) # src1"
        "Read_loop get (r\<lparr>r_buf := r_buf r @ chunk\<rparr>) src1 = (Read_value pv, r', src')"
      using Read_loop_step 1(3) by blast
    then show ?thesis
      using 1(1) [rule_format, of src1 "r\<lparr>r_buf := r_buf r @ chunk\<rparr>"] 1(2) by simp
  qed
qed

lemma Read_loop_nothing:
  "r_buf r = [] \<Longrightarrow> source_bytes src = [] \<Longrightarrow> Read_loop get r src \<noteq> (Read_value pv, r', src')"
proof (induction src arbitrary: r)
  case Nil
  then show ?case by (simp add: Read_loop.simps [of get r] ParseOne_def parseNext.simps)
next
  case (Cons x src)
  then show ?case
    by (cases x) (auto simp: Read_loop_step ParseOne_def parseNext.simps)
qed

section \<open>Waiting for ever\<close>

lemma Read_loop_stuck:
  "stuck_header (r_buf r) 0 \<Longrightarrow> no_errors src \<Longrightarrow>
    Read_loop get r src = (Read_blocked, r\<lparr>r_buf := r_buf r @ source_bytes src\<rparr>, [])"
proof (induction src arbitrary: r)
  case Nil
  then show ?case
    using stuck_header_parse [of "r_buf r" 0] by (simp add: Read_loop.simps [of get r] ParseOne_def)
next
  case (Cons x src)
  obtain chunk where x: "x = (chunk, None)" "no_errors src" using Cons.prems(2) by (cases x) auto
  have "Read_loop get r (x # src) = Read_loop get (r\<lparr>r_buf := r_buf r @ chunk\<rparr>) src"
    using stuck_header_parse [OF Cons.prems(1)] x by (simp add: Read_loop.simps [of get r] ParseOne_def)
  then show ?case
    using Cons.IH [of "r\<lparr>r_buf := r_buf r @ chunk\<rparr>"] stuck_header_append [OF Cons.prems(1)] x
    by simp
qed

section \<open>Properties\<close>

text \<open>
  C2: However the network cuts the bytes of a run of values into chunks, a fresh reader returns these
  values one after the other, each in bytes of its own and none before it is complete.
\<close>

theorem reader_reassembles:
  fixes src :: "'e source"
  assumes "list_all wire_ok vs" and "scope_sized get" and "no_errors src"
    and "source_bytes src = concat (map encode vs) @ rest"
    and "length (source_bytes src) < 2 ^ 63 - 2"
  shows "list_all2 (\<lambda>out v. \<exists>pv. out = Read_value pv \<and> owned pv \<and> resolve buf pv = wire_norm v)
    (Read_many (length vs) get NewReader src) vs"
  using assms by (intro Read_many_values [where rest = rest]) (simp_all add: NewReader_def)

theorem reader_reassembles_witness:
  "list_all2 (\<lambda>out v. \<exists>pv. out = Read_value pv \<and> owned pv \<and> resolve [] pv = wire_norm v)
    (Read_many (length [ArrayOf [BulkFromString ''PING''], Integer 5]) (\<lambda>n. replicate n SP) NewReader
      [(''*1'' @ CRLF @ ''$4'', None), (CRLF @ ''PI'', None),
       (''NG'' @ CRLF @ '':5'' @ CRLF @ ''+O'', None :: unit option)])
    [ArrayOf [BulkFromString ''PING''], Integer 5]"
  by (rule reader_reassembles [where rest = "''+O''"])
    (simp_all add: scope_sized_def value_constructors encode_line_def formatInt_def formatUint.simps
      digit_byte_literals)

text \<open>
  C16: Whatever a client sends, a value that \<^verbatim>\<open>Read\<close> returns is well formed: it has one of the six types,
  only the field of that type is set, all the way down through arrays, and its bytes are its own; the
  call has taken at least one byte and everything behind what it took is kept for the next one.
\<close>

theorem read_returns_typed_value:
  assumes "Read scope r src = (Read_value pv, r', src')"
  shows "parsed_shape pv \<and> owned pv \<and>
    (\<exists>taken. taken \<noteq> [] \<and> r_buf r @ source_bytes src = taken @ r_buf r' @ source_bytes src')"
proof (cases scope)
  case None
  with assms show ?thesis by (simp add: Read_def)
next
  case (Some get)
  with assms show ?thesis by (intro Read_loop_typed) (simp add: Read_def)
qed

theorem read_returns_typed_value_witness:
  "\<exists>pv r' src'. Read (Some (\<lambda>n. replicate n SP)) NewReader
      [('':1'', None), (''2'' @ CRLF @ ''+'', None :: unit option)] = (Read_value pv, r', src') \<and>
    parsed_shape pv \<and> owned pv"
proof -
  let ?src = "[('':1'', None), (''2'' @ CRLF @ ''+'', None :: unit option)]" and ?get = "\<lambda>n. replicate n SP"
  obtain pv r' src' where "Read (Some ?get) NewReader ?src = (Read_value pv, r', src')"
    using Read_loop_value [of "Integer 12" ?get ?src NewReader "''+''" "[]"]
    by (auto simp: Read_def NewReader_def scope_sized_def value_constructors encode_line_def formatInt_def
        formatUint.simps digit_byte_literals)
  then show ?thesis using read_returns_typed_value by blast
qed

text \<open>
  C35: A first line that is a complete but invalid header (a length that is no number, or negative)
  makes the reader wait for ever: it takes in all the source ever sends and returns nothing, not even
  an error.
\<close>

theorem invalid_header_blocks:
  assumes "stuck_header (r_buf r) 0" and "no_errors src"
  shows "Read (Some get) r src = (Read_blocked, r\<lparr>r_buf := r_buf r @ source_bytes src\<rparr>, [])"
  using assms by (simp add: Read_def Read_loop_stuck)

theorem invalid_header_blocks_witness:
  "Read (Some (\<lambda>n. replicate n SP)) \<lparr>r_buf = ''*x'' @ CRLF\<rparr>
      [(''*1'' @ CRLF @ ''$4'' @ CRLF @ ''PING'' @ CRLF, None :: unit option)] =
    (Read_blocked, \<lparr>r_buf = ''*x'' @ CRLF @ ''*1'' @ CRLF @ ''$4'' @ CRLF @ ''PING'' @ CRLF\<rparr>, [])"
  using invalid_header_blocks [of "\<lparr>r_buf = ''*x'' @ CRLF\<rparr>"
      "[(''*1'' @ CRLF @ ''$4'' @ CRLF @ ''PING'' @ CRLF, None :: unit option)]" "\<lambda>n. replicate n SP"]
  by (simp add: stuck_header_def findCRLF.simps line_of_def sub_def parseInt64_def is_digit_def)

lemma crash_header_parse:
  assumes "length rest < 2 ^ 62"
  shows "ParseOne (''$9223372036854775807'' @ CRLF @ rest) = Inl Index_out_of_range"
    and "ParseOne (''*9223372036854775807'' @ CRLF @ rest) = Inl Makeslice_cap_out_of_range"
proof -
  let ?n = "''9223372036854775807''"
  have line: "findCRLF (c # ?n @ CRLF @ rest) (Suc 0) = Some 21"
      "line_of (c # ?n @ CRLF @ rest) 0 21 = ?n" for c
    by (simp_all add: findCRLF.simps line_of_def sub_def)
  have num: "parseInt64 ?n = Some 9223372036854775807"
    by (simp add: parseInt64_def is_digit_def digit_val_def)
  show "ParseOne (''$9223372036854775807'' @ CRLF @ rest) = Inl Index_out_of_range"
    using line [of "CHR ''$''"] num parseBulkData_spec [of "CHR ''$'' # ?n @ CRLF @ rest" 22 9223372036854775807 0] assms
    by (simp add: ParseOne_def parseNext.simps parseBulkString_def)
  show "ParseOne (''*9223372036854775807'' @ CRLF @ rest) = Inl Makeslice_cap_out_of_range"
    using line [of "CHR ''*''"] num
    by (simp add: ParseOne_def parseNext.simps parseArray.simps parseIntBuf_parseInt64 makeslice_panics_def)
qed

text \<open>
  C34: Two headers a client can send that make the server panic while it reads: a bulk string of the
  largest 64-bit length, and an array whose elements do not fit the address space.
\<close>

theorem hostile_headers_panic:
  assumes "length rest < 2 ^ 62" and "h \<in> {''$'', ''*''}"
  shows "\<exists>p. Read (Some get) NewReader ((h @ ''9223372036854775807'' @ CRLF @ rest, None) # src) =
    (Read_panic p, \<lparr>r_buf = h @ ''9223372036854775807'' @ CRLF @ rest\<rparr>, src)"
  using assms crash_header_parse [OF assms(1)]
  by (auto simp: Read_def NewReader_def Read_loop.simps [of get] ParseOne_def parseNext.simps)

theorem hostile_headers_panic_witness:
  "\<exists>p. Read (Some (\<lambda>n. replicate n SP)) NewReader
      ((''$'' @ ''9223372036854775807'' @ CRLF @ [], None) # ([] :: unit source)) =
    (Read_panic p, \<lparr>r_buf = ''$'' @ ''9223372036854775807'' @ CRLF @ []\<rparr>, [])"
  by (rule hostile_headers_panic) simp_all

end
