(* ===== verification/Net_Conn.thy ===== *)
theory Net_Conn
  imports Protocol_Reader
begin

text \<open>
  \<^verbatim>\<open>internal/conn/conn.go\<close>: a connection is a reader and a writer of \<^verbatim>\<open>internal/protocol\<close> around a
  \<^verbatim>\<open>net.Conn\<close>, which is outside the program: what it will deliver is a \<open>source\<close>, what it does with bytes
  and with a close are functions on its state. Every method holds the mutex of the connection for its
  whole duration; what that does to sessions is part of the theory \<open>Session\<close>.
\<close>

record conn =
  cn_reader :: reader
  cn_writer :: writer
  cn_closed :: bool

definition NewConn :: "reader option \<Rightarrow> writer option \<Rightarrow> conn" where
  "NewConn r w =
     \<lparr>cn_reader = (case r of None \<Rightarrow> NewReader | Some r \<Rightarrow> r),
      cn_writer = (case w of None \<Rightarrow> NewWriter 64 | Some w \<Rightarrow> w), cn_closed = False\<rparr>"

definition Conn_Read :: "scope_get option \<Rightarrow> conn \<Rightarrow> 'e source \<Rightarrow> 'e read_outcome \<times> conn \<times> 'e source" where
  "Conn_Read scope c src =
     (case Read scope (cn_reader c) src of (out, r, src') \<Rightarrow> (out, c\<lparr>cn_reader := r\<rparr>, src'))"

definition Conn_Write :: "conn \<Rightarrow> rvalue \<Rightarrow> conn \<times> 'e option" where
  "Conn_Write c v = (case Write (cn_writer c) v of (w, err) \<Rightarrow> (c\<lparr>cn_writer := w\<rparr>, err))"

definition Conn_Flush ::
  "('n \<Rightarrow> bytes \<Rightarrow> 'n \<times> 'e option) \<Rightarrow> conn \<Rightarrow> 'n \<Rightarrow> conn \<times> 'n \<times> 'e flush_error option" where
  "Conn_Flush net_Write c n =
     (case Flush net_Write (cn_writer c) n of (w, n', err) \<Rightarrow> (c\<lparr>cn_writer := w\<rparr>, n', err))"

definition Conn_Close :: "('n \<Rightarrow> 'n \<times> 'e option) \<Rightarrow> conn \<Rightarrow> 'n \<Rightarrow> conn \<times> 'n \<times> 'e option" where
  "Conn_Close net_Close c n =
     (if cn_closed c then (c, n, None)
      else let (n', err) = net_Close n in (c\<lparr>cn_closed := True\<rparr>, n', err))"

text \<open>
  The methods that hand over to the \<^verbatim>\<open>net.Conn\<close>: \<open>net_Read\<close> fills a slice and returns how much of it,
  \<open>net_Set\<close> is the setter of a deadline. Only \<^verbatim>\<open>RawRead\<close> takes the mutex.
\<close>

definition RawRead :: "('n \<Rightarrow> bytes \<Rightarrow> 'n \<times> bytes \<times> nat \<times> 'e option) \<Rightarrow> 'n \<Rightarrow> bytes \<Rightarrow> 'n \<times> bytes \<times> nat \<times> 'e option" where
  "RawRead net_Read n buf = net_Read n buf"

definition SetDeadline :: "('n \<Rightarrow> int \<Rightarrow> 'n \<times> 'e option) \<Rightarrow> 'n \<Rightarrow> int \<Rightarrow> 'n \<times> 'e option" where
  "SetDeadline net_Set n t = net_Set n t"

definition SetReadDeadline :: "('n \<Rightarrow> int \<Rightarrow> 'n \<times> 'e option) \<Rightarrow> 'n \<Rightarrow> int \<Rightarrow> 'n \<times> 'e option" where
  "SetReadDeadline net_Set n t = net_Set n t"

definition SetWriteDeadline :: "('n \<Rightarrow> int \<Rightarrow> 'n \<times> 'e option) \<Rightarrow> 'n \<Rightarrow> int \<Rightarrow> 'n \<times> 'e option" where
  "SetWriteDeadline net_Set n t = net_Set n t"

section \<open>What the methods leave alone, and what they do\<close>

lemma Conn_Read_value:
  assumes "wire_ok v" and "scope_sized get" and "no_errors src"
    and "r_buf (cn_reader c) @ source_bytes src = encode v @ rest" and "length (encode v @ rest) < 2 ^ 63 - 2"
  shows "\<exists>pv c' src'. Conn_Read (Some get) c src = (Read_value pv, c', src') \<and> owned pv \<and>
    resolve buf pv = wire_norm v \<and> no_errors src' \<and> r_buf (cn_reader c') @ source_bytes src' = rest \<and>
    cn_writer c' = cn_writer c \<and> cn_closed c' = cn_closed c"
proof -
  obtain pv r' src' where "Read_loop get (cn_reader c) src = (Read_value pv, r', src')" "owned pv"
      "resolve buf pv = wire_norm v" "no_errors src'" "r_buf r' @ source_bytes src' = rest"
    using Read_loop_value [OF assms] by blast
  then show ?thesis by (simp add: Conn_Read_def Read_def)
qed

lemma Conn_Write_buf:
  "Conn_Write c v = (c\<lparr>cn_writer := \<lparr>w_buf = w_buf (cn_writer c) @ encode v\<rparr>\<rparr>, None)"
  by (simp add: Conn_Write_def writer_defs Let_def appendValue_encode)

text \<open>However often the connection is closed, the network connection is closed at most once.\<close>

fun close_times :: "('n \<Rightarrow> 'n \<times> 'e option) \<Rightarrow> nat \<Rightarrow> conn \<Rightarrow> 'n \<Rightarrow> conn \<times> 'n" where
  "close_times net_Close 0 c n = (c, n)"
| "close_times net_Close (Suc k) c n =
     (case Conn_Close net_Close c n of (c', n', err) \<Rightarrow> close_times net_Close k c' n')"

lemma close_times_closed: "cn_closed c \<Longrightarrow> close_times net_Close k c n = (c, n)"
  by (induction k arbitrary: n) (simp_all add: Conn_Close_def)

lemma close_times_once:
  "\<not> cn_closed c \<Longrightarrow> 0 < k \<Longrightarrow>
    close_times net_Close k c n = (c\<lparr>cn_closed := True\<rparr>, fst (net_Close n))"
  by (cases k) (auto simp: Conn_Close_def Let_def close_times_closed split: prod.split)

end
