(* ===== verification/Session.thy ===== *)
theory Session
  imports Resp_Value Go_Channel "HOL-Library.Multiset"
begin

text \<open>
  \<^verbatim>\<open>internal/session/session.go\<close>: the state of a session, its operations, and the goroutines that
  \<^verbatim>\<open>StartLoops\<close> and \<^verbatim>\<open>UseDispatcher\<close> start: the read loop, the write loop, one goroutine per request in
  flight, and the one that waits for both loops. Each goroutine has a step relation of its own over
  the shared state; \<open>s_step\<close> is their interleaving. What the network, the command and the caller decide
  (the value read, an error, an answer) is open in the rules. The data fields for transactions and
  subscriptions are never used by the program and left out.
\<close>

section \<open>State and operations\<close>

text \<open>
  A \<^verbatim>\<open>mempool.Scope\<close> and an \<^verbatim>\<open>io.Closer\<close> are named by numbers. \<open>s_done\<close>, \<open>s_stopCh\<close>: the channel is closed.
  \<^verbatim>\<open>atomic.Int32\<close> arithmetic wraps around.
\<close>

type_synonym queued = "rvalue \<times> nat"

record session =
  s_ID :: "64 word"
  s_done :: bool
  s_stopCh :: bool
  s_stopFlag :: bool
  s_closer :: "nat option"
  s_closed :: bool
  s_data :: "nat option"
  s_responses :: "queued chan"
  s_maxInFlight :: int
  s_inflight :: int
  s_lastSeen :: nat
  s_commands :: "64 word"
  s_bytesRead :: "64 word"
  s_bytesWrite :: "64 word"

definition wrap32 :: "int \<Rightarrow> int" where
  "wrap32 k = sint (word_of_int k :: 32 word)"

lemma wrap32_id: "- (2 ^ 31) \<le> k \<Longrightarrow> k < 2 ^ 31 \<Longrightarrow> wrap32 k = k"
  by (simp add: wrap32_def int_word_sint)

definition NewSession :: "64 word \<Rightarrow> nat \<Rightarrow> session" where
  "NewSession sid now =
     \<lparr>s_ID = sid, s_done = False, s_stopCh = False, s_stopFlag = False, s_closer = None,
      s_closed = False, s_data = None, s_responses = make_chan 16, s_maxInFlight = 1, s_inflight = 0,
      s_lastSeen = now, s_commands = 0, s_bytesRead = 0, s_bytesWrite = 0\<rparr>"

definition SetCloser :: "nat option \<Rightarrow> session \<Rightarrow> session" where
  "SetCloser c s = s\<lparr>s_closer := c\<rparr>"

definition SetMaxInFlight :: "int \<Rightarrow> session \<Rightarrow> session" where
  "SetMaxInFlight n s = (if n \<le> 0 then s else s\<lparr>s_maxInFlight := n\<rparr>)"

definition SetData :: "nat option \<Rightarrow> session \<Rightarrow> session" where
  "SetData x s = s\<lparr>s_data := x\<rparr>"

definition UpdateLastSeen :: "nat \<Rightarrow> session \<Rightarrow> session" where
  "UpdateLastSeen now s = s\<lparr>s_lastSeen := now\<rparr>"

definition IncrementCommands :: "session \<Rightarrow> session" where
  "IncrementCommands s = s\<lparr>s_commands := s_commands s + 1\<rparr>"

definition AddBytesRead :: "64 word \<Rightarrow> session \<Rightarrow> session" where
  "AddBytesRead n s = s\<lparr>s_bytesRead := s_bytesRead s + n\<rparr>"

definition AddBytesWritten :: "64 word \<Rightarrow> session \<Rightarrow> session" where
  "AddBytesWritten n s = s\<lparr>s_bytesWrite := s_bytesWrite s + n\<rparr>"

definition DataValue :: "session \<Rightarrow> nat option" where
  "DataValue s = s_data s"

definition LastSeenAt :: "session \<Rightarrow> nat" where
  "LastSeenAt s = s_lastSeen s"

definition CommandsCount :: "session \<Rightarrow> 64 word" where
  "CommandsCount s = s_commands s"

definition BytesReadCount :: "session \<Rightarrow> 64 word" where
  "BytesReadCount s = s_bytesRead s"

definition BytesWrittenCount :: "session \<Rightarrow> 64 word" where
  "BytesWrittenCount s = s_bytesWrite s"

definition IsClosed :: "session \<Rightarrow> bool" where
  "IsClosed s = s_closed s"

definition ShouldStop :: "session \<Rightarrow> bool" where
  "ShouldStop s \<longleftrightarrow> s_stopFlag s \<or> IsClosed s"

definition StopGracefully :: "session \<Rightarrow> session" where
  "StopGracefully s = s\<lparr>s_stopFlag := True, s_stopCh := True\<rparr>"

definition decrementInflight :: "session \<Rightarrow> session" where
  "decrementInflight s =
     (if s_inflight s \<le> 0 then s else s\<lparr>s_inflight := wrap32 (s_inflight s - 1)\<rparr>)"

text \<open>The next two also call \<^verbatim>\<open>Close\<close> of the closer they find: they return the calls made.\<close>

definition closeConn :: "session \<Rightarrow> session \<times> nat list" where
  "closeConn s =
     (s\<lparr>s_closer := None, s_closed := True\<rparr>, case s_closer s of None \<Rightarrow> [] | Some c \<Rightarrow> [c])"

text \<open>\<^verbatim>\<open>CloseNow\<close> up to its wait for \<^verbatim>\<open>done\<close>.\<close>

definition CloseNow_begin :: "session \<Rightarrow> session \<times> nat list" where
  "CloseNow_begin s =
     (let s1 = StopGracefully s in
      if \<not> s_closed s1 then
        (s1\<lparr>s_closed := True, s_closer := None\<rparr>,
         case s_closer s1 of None \<Rightarrow> [] | Some c \<Rightarrow> [c])
      else (s1, []))"

text \<open>\<^verbatim>\<open>copyCommandArgs\<close>: a nil argument stays nil, every other one is copied whole.\<close>

definition copyCommandArgs :: "bytes option list \<Rightarrow> bytes option list" where
  "copyCommandArgs args =
     (if length args = 0 then []
      else map (\<lambda>arg. case arg of
                  None \<Rightarrow> None
                | Some a \<Rightarrow> Some (take (length a) a @ drop (length a) (replicate (length a) (CHR 0x00))))
             args)"

lemma copyCommandArgs_id [simp]: "copyCommandArgs args = args"
  by (auto simp: copyCommandArgs_def intro!: map_idI split: option.split)

section \<open>Goroutines\<close>

text \<open>
  Where the read loop is: \<open>R_slot\<close> and \<open>R_slot_wait\<close> are inside \<^verbatim>\<open>waitForInflightSlot\<close>, \<open>R_reading\<close> in the
  call of \<^verbatim>\<open>reader(scope)\<close>, \<open>R_submit\<close> in the call of \<^verbatim>\<open>submitter\<close>, \<open>R_return\<close> before \<^verbatim>\<open>StopGracefully\<close>.
\<close>

datatype read_pc =
    R_start | R_check | R_slot | R_slot_wait | R_scope
  | R_reading nat | R_got nat rvalue | R_submit nat rvalue | R_return | R_gone

text \<open>
  Where the write loop is: \<open>Wr_write b v\<close> is about to write \<open>v\<close>, whose scope is the last of the batch
  \<open>b\<close>; \<open>Wr_more b\<close> looks for more responses; \<open>Wr_flush b\<close> is about to flush.
\<close>

datatype write_pc =
    Wr_start | Wr_top | Wr_select
  | Wr_write "nat list" rvalue | Wr_more "nat list" | Wr_flush "nat list" | Wr_gone

text \<open>A goroutine of \<^verbatim>\<open>UseDispatcher\<close>: waiting for the result, in \<^verbatim>\<open>HandleResponse\<close>, after it.\<close>

datatype hand_pc = H_wait nat | H_check nat rvalue | H_select nat rvalue | H_dec

datatype sup_pc = Sup_wait | Sup_close | Sup_remove | Sup_finish | Sup_done

record runtime =
  rt_session :: session
  rt_deps :: bool
  rt_writer_set :: bool
  rt_shared_mutex :: bool
  rt_read :: read_pc
  rt_write :: write_pc
  rt_hand :: "hand_pc list"
  rt_sup :: sup_pc
  rt_next :: nat

text \<open>
  \<open>rt_deps\<close>: reader, submitter and scope factory are set; \<open>rt_writer_set\<close>: the writer is not nil.
  \<open>rt_shared_mutex\<close>: reader and writer are those of one \<^verbatim>\<open>Conn\<close>, whose mutex is held during the whole of
  a \<^verbatim>\<open>Read\<close> and needed by \<^verbatim>\<open>Write\<close>, \<^verbatim>\<open>Flush\<close> and \<^verbatim>\<open>Close\<close>. Scopes are numbered in the order in which they
  are opened, so the number of a request is its place in the order of arrival.
\<close>

definition StartLoops :: "session \<Rightarrow> bool \<Rightarrow> bool \<Rightarrow> bool \<Rightarrow> runtime" where
  "StartLoops s deps writer_set shared =
     \<lparr>rt_session = s, rt_deps = deps, rt_writer_set = writer_set, rt_shared_mutex = shared,
      rt_read = R_start, rt_write = Wr_start, rt_hand = [], rt_sup = Sup_wait, rt_next = 0\<rparr>"

datatype s_event =
    Scope_opened nat
  | Scope_closed nat
  | Scope_dropped nat
  | Submitted nat rvalue
  | Answered nat rvalue
  | Written nat rvalue
  | Flushed
  | Conn_closed nat
  | Removed
  | Done_closed

text \<open>
  \<open>Scope_dropped\<close>: the last reference to the scope goes away without a call of its \<^verbatim>\<open>Close\<close>.
\<close>

definition conn_free :: "runtime \<Rightarrow> bool" where
  "conn_free rt \<longleftrightarrow> \<not> rt_shared_mutex rt \<or> (\<forall>k. rt_read rt \<noteq> R_reading k)"

definition on_session :: "(session \<Rightarrow> session) \<Rightarrow> runtime \<Rightarrow> runtime" where
  "on_session f rt = rt\<lparr>rt_session := f (rt_session rt)\<rparr>"

definition add_inflight :: "int \<Rightarrow> session \<Rightarrow> session" where
  "add_inflight n s = s\<lparr>s_inflight := wrap32 (s_inflight s + n)\<rparr>"

definition slot_free :: "session \<Rightarrow> bool" where
  "slot_free s \<longleftrightarrow> s_inflight s < s_maxInFlight s"

inductive read_step :: "runtime \<Rightarrow> s_event list \<Rightarrow> runtime \<Rightarrow> bool" for rt where
  no_deps: "rt_read rt = R_start \<Longrightarrow> \<not> rt_deps rt \<Longrightarrow> read_step rt [] (rt\<lparr>rt_read := R_return\<rparr>)"
| deps: "rt_read rt = R_start \<Longrightarrow> rt_deps rt \<Longrightarrow> read_step rt [] (rt\<lparr>rt_read := R_check\<rparr>)"
| check_stop: "rt_read rt = R_check \<Longrightarrow> ShouldStop (rt_session rt) \<Longrightarrow>
    read_step rt [] (rt\<lparr>rt_read := R_return\<rparr>)"
| check: "rt_read rt = R_check \<Longrightarrow> \<not> ShouldStop (rt_session rt) \<Longrightarrow>
    read_step rt [] (rt\<lparr>rt_read := R_slot\<rparr>)"
| slot_stop: "rt_read rt = R_slot \<Longrightarrow> ShouldStop (rt_session rt) \<Longrightarrow>
    read_step rt [] (rt\<lparr>rt_read := R_return\<rparr>)"
| slot: "rt_read rt = R_slot \<Longrightarrow> \<not> ShouldStop (rt_session rt) \<Longrightarrow> slot_free (rt_session rt) \<Longrightarrow>
    read_step rt [] (rt\<lparr>rt_read := R_scope\<rparr>)"
| slot_full: "rt_read rt = R_slot \<Longrightarrow> \<not> ShouldStop (rt_session rt) \<Longrightarrow> \<not> slot_free (rt_session rt) \<Longrightarrow>
    read_step rt [] (rt\<lparr>rt_read := R_slot_wait\<rparr>)"
| wait_stop: "rt_read rt = R_slot_wait \<Longrightarrow> s_stopCh (rt_session rt) \<Longrightarrow>
    read_step rt [] (rt\<lparr>rt_read := R_return\<rparr>)"
| wait_timer: "rt_read rt = R_slot_wait \<Longrightarrow> read_step rt [] (rt\<lparr>rt_read := R_slot\<rparr>)"
| scope_nil: "rt_read rt = R_scope \<Longrightarrow> read_step rt [] (rt\<lparr>rt_read := R_return\<rparr>)"
| scope: "rt_read rt = R_scope \<Longrightarrow>
    read_step rt [Scope_opened (rt_next rt)]
      (rt\<lparr>rt_read := R_reading (rt_next rt), rt_next := Suc (rt_next rt)\<rparr>)"
| read_err: "rt_read rt = R_reading k \<Longrightarrow> read_step rt [Scope_closed k] (rt\<lparr>rt_read := R_return\<rparr>)"
| read_ok: "rt_read rt = R_reading k \<Longrightarrow> read_step rt [] (rt\<lparr>rt_read := R_got k v\<rparr>)"
| count: "rt_read rt = R_got k v \<Longrightarrow>
    read_step rt [] (on_session (add_inflight 1) rt\<lparr>rt_read := R_submit k v\<rparr>)"
| submit_ok: "rt_read rt = R_submit k v \<Longrightarrow>
    read_step rt [Submitted k v] (rt\<lparr>rt_read := R_check, rt_hand := rt_hand rt @ [H_wait k]\<rparr>)"
| submit_err: "rt_read rt = R_submit k v \<Longrightarrow>
    read_step rt [Scope_closed k] (on_session (add_inflight (- 1)) rt\<lparr>rt_read := R_return\<rparr>)"
| return: "rt_read rt = R_return \<Longrightarrow>
    read_step rt [] (on_session StopGracefully rt\<lparr>rt_read := R_gone\<rparr>)"

text \<open>
  The write loop. The second case of its select, \<^verbatim>\<open>stopCh\<close> with a response queued, takes the response
  like the first case; nobody else receives, so the length it has seen is still there.
\<close>

definition responses :: "runtime \<Rightarrow> queued list" where
  "responses rt = ch_buf (s_responses (rt_session rt))"

definition set_responses :: "queued list \<Rightarrow> session \<Rightarrow> session" where
  "set_responses qs s = s\<lparr>s_responses := s_responses s\<lparr>ch_buf := qs\<rparr>\<rparr>"

inductive write_step :: "runtime \<Rightarrow> s_event list \<Rightarrow> runtime \<Rightarrow> bool" for rt where
  no_writer: "rt_write rt = Wr_start \<Longrightarrow> \<not> rt_writer_set rt \<Longrightarrow> write_step rt [] (rt\<lparr>rt_write := Wr_gone\<rparr>)"
| writer: "rt_write rt = Wr_start \<Longrightarrow> rt_writer_set rt \<Longrightarrow> write_step rt [] (rt\<lparr>rt_write := Wr_top\<rparr>)"
| top_stop: "rt_write rt = Wr_top \<Longrightarrow> s_stopCh (rt_session rt) \<Longrightarrow> responses rt = [] \<Longrightarrow>
    write_step rt [] (rt\<lparr>rt_write := Wr_gone\<rparr>)"
| top: "rt_write rt = Wr_top \<Longrightarrow> \<not> (s_stopCh (rt_session rt) \<and> responses rt = []) \<Longrightarrow>
    write_step rt [] (rt\<lparr>rt_write := Wr_select\<rparr>)"
| select_stop: "rt_write rt = Wr_select \<Longrightarrow> s_stopCh (rt_session rt) \<Longrightarrow> responses rt = [] \<Longrightarrow>
    write_step rt [] (rt\<lparr>rt_write := Wr_gone\<rparr>)"
| select_first: "rt_write rt = Wr_select \<Longrightarrow> responses rt = (v, k) # qs \<Longrightarrow>
    write_step rt [] (on_session (set_responses qs) rt\<lparr>rt_write := Wr_write [k] v\<rparr>)"
| write_ok: "rt_write rt = Wr_write b v \<Longrightarrow> conn_free rt \<Longrightarrow>
    write_step rt [Written (last b) v] (rt\<lparr>rt_write := Wr_more b\<rparr>)"
| write_err: "rt_write rt = Wr_write b v \<Longrightarrow> conn_free rt \<Longrightarrow>
    write_step rt (map Scope_closed b) (rt\<lparr>rt_write := Wr_gone\<rparr>)"
| more: "rt_write rt = Wr_more b \<Longrightarrow> responses rt = (v, k) # qs \<Longrightarrow>
    write_step rt [] (on_session (set_responses qs) rt\<lparr>rt_write := Wr_write (b @ [k]) v\<rparr>)"
| no_more: "rt_write rt = Wr_more b \<Longrightarrow> responses rt = [] \<Longrightarrow>
    write_step rt [] (rt\<lparr>rt_write := Wr_flush b\<rparr>)"
| flush_ok: "rt_write rt = Wr_flush b \<Longrightarrow> conn_free rt \<Longrightarrow>
    write_step rt (Flushed # map Scope_closed b) (rt\<lparr>rt_write := Wr_top\<rparr>)"
| flush_err: "rt_write rt = Wr_flush b \<Longrightarrow> conn_free rt \<Longrightarrow>
    write_step rt (map Scope_closed b) (rt\<lparr>rt_write := Wr_gone\<rparr>)"

text \<open>
  One of the goroutines of \<^verbatim>\<open>UseDispatcher\<close>, with \<^verbatim>\<open>HandleResponse\<close> inlined. Its error is ignored, and
  with it the scope. A closed result channel (the dispatcher never closes one) ends it likewise.
\<close>

inductive hand_step :: "runtime \<Rightarrow> s_event list \<Rightarrow> runtime \<Rightarrow> bool" for rt where
  result: "rt_hand rt = hs @ H_wait k # hs' \<Longrightarrow>
    hand_step rt [Answered k v] (rt\<lparr>rt_hand := hs @ H_check k v # hs'\<rparr>)"
| no_result: "rt_hand rt = hs @ H_wait k # hs' \<Longrightarrow>
    hand_step rt [Scope_dropped k] (rt\<lparr>rt_hand := hs @ H_dec # hs'\<rparr>)"
| stopped: "rt_hand rt = hs @ H_check k v # hs' \<Longrightarrow> ShouldStop (rt_session rt) \<Longrightarrow>
    hand_step rt [Scope_dropped k] (rt\<lparr>rt_hand := hs @ H_dec # hs'\<rparr>)"
| running: "rt_hand rt = hs @ H_check k v # hs' \<Longrightarrow> \<not> ShouldStop (rt_session rt) \<Longrightarrow>
    hand_step rt [] (rt\<lparr>rt_hand := hs @ H_select k v # hs'\<rparr>)"
| queue: "rt_hand rt = hs @ H_select k v # hs' \<Longrightarrow>
    chan_send (v, k) (s_responses (rt_session rt)) = Some (Inr c) \<Longrightarrow>
    hand_step rt [] (on_session (s_responses_update (\<lambda>_. c)) rt\<lparr>rt_hand := hs @ H_dec # hs'\<rparr>)"
| select_stop: "rt_hand rt = hs @ H_select k v # hs' \<Longrightarrow> s_stopCh (rt_session rt) \<Longrightarrow>
    hand_step rt [Scope_dropped k] (rt\<lparr>rt_hand := hs @ H_dec # hs'\<rparr>)"
| dec: "rt_hand rt = hs @ H_dec # hs' \<Longrightarrow>
    hand_step rt [] (on_session decrementInflight rt\<lparr>rt_hand := hs @ hs'\<rparr>)"

text \<open>
  The goroutine that waits for both loops and then runs its deferred calls, and the callers of \<^verbatim>\<open>Stop\<close>,
  \<^verbatim>\<open>CloseNow\<close> and the methods that keep the statistics. Closing the connection needs its mutex.
\<close>

inductive sup_step :: "runtime \<Rightarrow> s_event list \<Rightarrow> runtime \<Rightarrow> bool" for rt where
  joined: "rt_sup rt = Sup_wait \<Longrightarrow> rt_read rt = R_gone \<Longrightarrow> rt_write rt = Wr_gone \<Longrightarrow>
    sup_step rt [] (rt\<lparr>rt_sup := Sup_close\<rparr>)"
| close_conn: "rt_sup rt = Sup_close \<Longrightarrow> closeConn (rt_session rt) = (s, cs) \<Longrightarrow>
    sup_step rt (map Conn_closed cs) (rt\<lparr>rt_session := s, rt_sup := Sup_remove\<rparr>)"
| on_remove: "rt_sup rt = Sup_remove \<Longrightarrow> sup_step rt [Removed] (rt\<lparr>rt_sup := Sup_finish\<rparr>)"
| finish: "rt_sup rt = Sup_finish \<Longrightarrow>
    sup_step rt [Done_closed] (on_session (s_done_update (\<lambda>_. True)) rt\<lparr>rt_sup := Sup_done\<rparr>)"

inductive caller_step :: "runtime \<Rightarrow> s_event list \<Rightarrow> runtime \<Rightarrow> bool" for rt where
  stop: "caller_step rt [] (on_session StopGracefully rt)"
| close_now: "conn_free rt \<or> s_closer (rt_session rt) = None \<or> s_closed (rt_session rt) \<Longrightarrow>
    CloseNow_begin (rt_session rt) = (s, cs) \<Longrightarrow>
    caller_step rt (map Conn_closed cs) (rt\<lparr>rt_session := s\<rparr>)"
| last_seen: "caller_step rt [] (on_session (UpdateLastSeen now) rt)"
| command: "caller_step rt [] (on_session IncrementCommands rt)"
| bytes_read: "caller_step rt [] (on_session (AddBytesRead m) rt)"
| bytes_written: "caller_step rt [] (on_session (AddBytesWritten m) rt)"

text \<open>The session's own steps, all steps, and runs, which count the own steps.\<close>

definition own_step :: "runtime \<Rightarrow> s_event list \<Rightarrow> runtime \<Rightarrow> bool" where
  "own_step rt ev rt' \<longleftrightarrow>
     read_step rt ev rt' \<or> write_step rt ev rt' \<or> hand_step rt ev rt' \<or> sup_step rt ev rt'"

inductive s_run :: "runtime \<Rightarrow> nat \<Rightarrow> s_event list \<Rightarrow> runtime \<Rightarrow> bool" for rt0 where
  s_init: "s_run rt0 0 [] rt0"
| s_own: "s_run rt0 n tr rt \<Longrightarrow> own_step rt ev rt' \<Longrightarrow> s_run rt0 (Suc n) (tr @ ev) rt'"
| s_caller: "s_run rt0 n tr rt \<Longrightarrow> caller_step rt ev rt' \<Longrightarrow> s_run rt0 n (tr @ ev) rt'"

inductive_simps read_step_iff: "read_step rt ev rt'"
inductive_simps write_step_iff: "write_step rt ev rt'"
inductive_cases sup_stepE: "sup_step rt ev rt'"
inductive_cases caller_stepE: "caller_step rt ev rt'"

end
