(* ===== verification/Server.thy ===== *)
theory Server
  imports Net_Conn Dispatcher Session
begin

text \<open>
  The request path of \<^verbatim>\<open>server.go\<close> and the configuration and allocator of \<^verbatim>\<open>respkit.go\<close>: defaults, how a
  session is set up for a connection, how it reads a request, hands it to the dispatcher as a
  \<^verbatim>\<open>Request\<close>, writes the response and keeps its statistics. The life of the server as a whole is in
  \<open>Server_Runs\<close>.
\<close>

section \<open>Configuration\<close>

text \<open>Durations are in nanoseconds; pool, logger and allocator are named by numbers.\<close>

record config =
  cf_Addr :: bytes
  cf_Network :: bytes
  cf_ReadBufferSize :: int
  cf_WriteBufferSize :: int
  cf_DispatcherWorkers :: int
  cf_QueueSize :: int
  cf_MaxInFlightPerSession :: int
  cf_IdleTimeout :: int
  cf_MemPool :: "nat option"
  cf_Logger :: "nat option"
  cf_SessionAllocator :: "nat option"

text \<open>\<^verbatim>\<open>blog.L()\<close> and a new \<^verbatim>\<open>DefaultSessionAllocator\<close> are the parameters \<open>logger\<close> and \<open>allocator\<close>.\<close>

definition defaultConfig :: "nat \<Rightarrow> nat \<Rightarrow> config \<Rightarrow> config" where
  "defaultConfig logger allocator cfg =
     (let cfg = (if cf_Addr cfg = [] then cfg\<lparr>cf_Addr := '':6379''\<rparr> else cfg);
          cfg = (if cf_Network cfg = [] then cfg\<lparr>cf_Network := ''tcp''\<rparr> else cfg);
          cfg = (if cf_ReadBufferSize cfg = 0 then cfg\<lparr>cf_ReadBufferSize := 16384\<rparr> else cfg);
          cfg = (if cf_WriteBufferSize cfg = 0 then cfg\<lparr>cf_WriteBufferSize := 4096\<rparr> else cfg);
          cfg = (if cf_DispatcherWorkers cfg = 0 then cfg\<lparr>cf_DispatcherWorkers := 1\<rparr> else cfg);
          cfg = (if cf_QueueSize cfg = 0 then cfg\<lparr>cf_QueueSize := 4096\<rparr> else cfg);
          cfg = (if cf_MaxInFlightPerSession cfg = 0 then cfg\<lparr>cf_MaxInFlightPerSession := 1\<rparr> else cfg);
          cfg = (if cf_Logger cfg = None then cfg\<lparr>cf_Logger := Some logger\<rparr> else cfg);
          cfg = (if cf_SessionAllocator cfg = None then cfg\<lparr>cf_SessionAllocator := Some allocator\<rparr> else cfg)
      in cfg)"

text \<open>\<^verbatim>\<open>NewServer\<close>: the configuration the server runs with; \<open>no_config\<close> is \<^verbatim>\<open>Config{}\<close>.\<close>

definition no_config :: config where
  "no_config =
     \<lparr>cf_Addr = [], cf_Network = [], cf_ReadBufferSize = 0, cf_WriteBufferSize = 0, cf_DispatcherWorkers = 0,
      cf_QueueSize = 0, cf_MaxInFlightPerSession = 0, cf_IdleTimeout = 0, cf_MemPool = None,
      cf_Logger = None, cf_SessionAllocator = None\<rparr>"

definition NewServer :: "nat \<Rightarrow> nat \<Rightarrow> config option \<Rightarrow> config" where
  "NewServer logger allocator cfg =
     defaultConfig logger allocator (case cfg of None \<Rightarrow> no_config | Some c \<Rightarrow> c)"

definition stopPollInterval :: int where
  "stopPollInterval = 100 * 1000000"

definition readDeadline :: "config \<Rightarrow> int \<Rightarrow> int" where
  "readDeadline cfg now =
     (if 0 < cf_IdleTimeout cfg then now + cf_IdleTimeout cfg else now + stopPollInterval)"

section \<open>Sessions of the server\<close>

text \<open>\<^verbatim>\<open>DefaultSessionAllocator\<close>: the state is its counter.\<close>

definition Allocate :: "nat \<Rightarrow> 64 word \<Rightarrow> session \<times> 64 word" where
  "Allocate now nextID = (NewSession (nextID + 1) now, nextID + 1)"

definition Release :: "session option \<Rightarrow> session option" where
  "Release s = map_option (SetData None) s"

text \<open>
  The settings \<^verbatim>\<open>serveDefaultRuntime\<close> makes before it starts the loops: the closer, and the limit of
  requests in flight, converted to 32 bits. Reader, submitter and scope factory are set.
\<close>

definition session_setup :: "config \<Rightarrow> nat \<Rightarrow> session \<Rightarrow> session" where
  "session_setup cfg conn_name s =
     (let s1 = SetCloser (Some conn_name) s in
      if 0 < cf_MaxInFlightPerSession cfg
      then SetMaxInFlight (wrap32 (cf_MaxInFlightPerSession cfg)) s1 else s1)"

text \<open>The request reader: an error of \<^verbatim>\<open>SetReadDeadline\<close> is the result; statistics count what was read.\<close>

definition read_request ::
  "'e option \<Rightarrow> scope_get \<Rightarrow> nat \<Rightarrow> session \<Rightarrow> conn \<Rightarrow> 'e source \<Rightarrow>
    'e read_outcome \<times> session \<times> conn \<times> 'e source" where
  "read_request deadline_err get now s c src =
     (case deadline_err of
        Some e \<Rightarrow> (Read_error e, s, c, src)
      | None \<Rightarrow>
          (case Conn_Read (Some get) c src of
             (Read_value pv, c', src') \<Rightarrow>
               (Read_value pv,
                AddBytesRead (word_of_nat (length (SerializeValue (resolve [] pv))))
                  (IncrementCommands (UpdateLastSeen now s)), c', src')
           | (out, c', src') \<Rightarrow> (out, s, c', src')))"

text \<open>The request that \<^verbatim>\<open>UseDispatcher\<close> makes of a value, with a new result channel \<open>ch\<close>.\<close>

definition make_request :: "(bytes \<Rightarrow> bytes) \<Rightarrow> session \<Rightarrow> nat \<Rightarrow> rvalue \<Rightarrow> request" where
  "make_request uni s ch v =
     \<lparr>req_SessionID = s_ID s, req_Name = CommandName uni v,
      req_Args = copyCommandArgs (CommandArgs v), req_Result = Some ch\<rparr>"

text \<open>\<^verbatim>\<open>sessionConnWriter\<close>: the number is \<^verbatim>\<open>pendingBytes\<close>, the bytes written but not yet flushed.\<close>

definition session_Write :: "rvalue \<Rightarrow> conn \<times> int64 \<Rightarrow> (conn \<times> int64) \<times> 'e option" where
  "session_Write v cw =
     (case cw of (c, pending) \<Rightarrow>
        (case Conn_Write c v of
           (c', Some e) \<Rightarrow> ((c', pending), Some e)
         | (c', None) \<Rightarrow> ((c', pending + word_of_nat (length (SerializeValue v))), None)))"

definition session_Flush ::
  "('n \<Rightarrow> bytes \<Rightarrow> 'n \<times> 'e option) \<Rightarrow> session \<Rightarrow> conn \<times> int64 \<Rightarrow> 'n \<Rightarrow>
    session \<times> (conn \<times> int64) \<times> 'n \<times> 'e flush_error option" where
  "session_Flush net_Write s cw n =
     (case cw of (c, pending) \<Rightarrow>
        (case Conn_Flush net_Write c n of
           (c', n', Some e) \<Rightarrow> (s, (c', pending), n', Some e)
         | (c', n', None) \<Rightarrow>
             if 0 < sint pending then (AddBytesWritten pending s, (c', 0), n', None)
             else (s, (c', pending), n', None)))"

section \<open>Requests and replies as bytes\<close>

text \<open>What the server has to answer to a request with this name and these arguments.\<close>

definition reply_spec :: "(bytes \<Rightarrow> bytes) \<Rightarrow> bytes \<Rightarrow> bytes list \<Rightarrow> rvalue" where
  "reply_spec uni name args =
     (let arity_error = (\<lambda>n. Error (''ERR wrong number of arguments for '' @ [SQUOTE] @ n @ [SQUOTE] @ '' command''));
          n = strings_ToLower uni name
      in if n = ''ping'' then
           (case args of [] \<Rightarrow> SimpleString ''PONG'' | [m] \<Rightarrow> BulkFromString m | _ \<Rightarrow> arity_error n)
         else if n = ''echo'' then (case args of [m] \<Rightarrow> BulkFromString m | _ \<Rightarrow> arity_error n)
         else Error (''ERR unknown command '' @ [SQUOTE] @ n @ [SQUOTE]))"

text \<open>A request as a client sends it: an array of bulk strings.\<close>

definition request_value :: "bytes \<Rightarrow> bytes list \<Rightarrow> rvalue" where
  "request_value name args = ArrayOf (map BulkFromString (name # args))"

lemma request_value_wire:
  "80 * (length args + 1) \<le> 2 ^ 48 \<Longrightarrow> wire_ok (request_value name args)"
  "wire_norm (request_value name args) = request_value name args"
  by (auto simp: request_value_def value_constructors)

lemma processRequest_reply:
  assumes "list_all is_ascii name" and "RegisterBuiltins uni (Some NewRegistry) = Some reg"
  shows "processRequest uni reg sid (CommandName uni (request_value name args))
      (CommandArgs (request_value name args)) = Inr (reply_spec uni name args)"
proof -
  have name: "CommandName uni (request_value name args) = strings_ToLower uni name"
    by (simp add: request_value_def CommandName_upper)
  have args: "CommandArgs (request_value name args) = map Some args"
    by (simp add: request_value_def CommandArgs_bulks)
  show ?thesis
    unfolding name args
    by (subst processRequest_builtins [OF strings_ToLower_ascii_idem [OF assms(1)] assms(2)])
      (auto simp: reply_spec_def Let_def buildPingCommand_def buildEchoCommand_def NotFoundError_def
        BulkBytes_def BulkFromString_def split: list.split)
qed

text \<open>A network that takes every write.\<close>

definition net_append :: "bytes \<Rightarrow> bytes \<Rightarrow> bytes \<times> 'e option" where
  "net_append n b = (n @ b, None)"

type_synonym client_request = "bytes \<times> bytes list"

definition request_ok :: "(bytes \<Rightarrow> bytes) \<Rightarrow> client_request \<Rightarrow> bool" where
  "request_ok uni rq \<longleftrightarrow> list_all is_ascii (fst rq) \<and> 80 * (length (snd rq) + 1) \<le> 2 ^ 48 \<and>
     length (encode (reply_spec uni (fst rq) (snd rq))) < 2 ^ 63"

definition request_bytes :: "client_request list \<Rightarrow> bytes" where
  "request_bytes rqs = concat (map (\<lambda>rq. SerializeValue (request_value (fst rq) (snd rq))) rqs)"

definition reply_bytes :: "(bytes \<Rightarrow> bytes) \<Rightarrow> client_request list \<Rightarrow> bytes" where
  "reply_bytes uni rqs = concat (map (\<lambda>rq. SerializeValue (reply_spec uni (fst rq) (snd rq))) rqs)"

end
