(* ===== verification/Session_Safety.thy ===== *)
theory Session_Safety
  imports Session "HOL-Library.Sublist"
begin

text \<open>
  The invariants of every state a session reaches: the number of requests in flight, the account of
  scopes, the order and the content of what is written, and the closing of the connection.
\<close>

section \<open>Where scopes are\<close>

fun read_hold :: "read_pc \<Rightarrow> nat list" where
  "read_hold (R_reading k) = [k]"
| "read_hold (R_got k v) = [k]"
| "read_hold (R_submit k v) = [k]"
| "read_hold _ = []"

fun hand_hold :: "hand_pc \<Rightarrow> nat list" where
  "hand_hold (H_wait k) = [k]"
| "hand_hold (H_check k v) = [k]"
| "hand_hold (H_select k v) = [k]"
| "hand_hold H_dec = []"

fun write_hold :: "write_pc \<Rightarrow> nat list" where
  "write_hold (Wr_write b v) = b"
| "write_hold (Wr_more b) = b"
| "write_hold (Wr_flush b) = b"
| "write_hold _ = []"

fun write_next :: "write_pc \<Rightarrow> nat list" where
  "write_next (Wr_write b v) = [last b]"
| "write_next _ = []"

text \<open>The numbers an event tells about.\<close>

fun opened_ev :: "s_event \<Rightarrow> nat list" where
  "opened_ev (Scope_opened k) = [k]"
| "opened_ev _ = []"

fun closed_ev :: "s_event \<Rightarrow> nat list" where
  "closed_ev (Scope_closed k) = [k]"
| "closed_ev _ = []"

fun dropped_ev :: "s_event \<Rightarrow> nat list" where
  "dropped_ev (Scope_dropped k) = [k]"
| "dropped_ev _ = []"

fun written_ev :: "s_event \<Rightarrow> nat list" where
  "written_ev (Written k v) = [k]"
| "written_ev _ = []"

fun conn_ev :: "s_event \<Rightarrow> nat list" where
  "conn_ev (Conn_closed c) = [c]"
| "conn_ev _ = []"

definition log_of :: "(s_event \<Rightarrow> nat list) \<Rightarrow> s_event list \<Rightarrow> nat list" where
  "log_of f tr = concat (map f tr)"

lemma log_of_simps [simp]:
  "log_of f [] = []" "log_of f (e # tr) = f e @ log_of f tr"
  "log_of f (tr @ tr') = log_of f tr @ log_of f tr'"
  by (simp_all add: log_of_def)

lemma log_of_closed [simp]:
  "log_of closed_ev (map Scope_closed ks) = ks" "log_of opened_ev (map Scope_closed ks) = []"
  "log_of dropped_ev (map Scope_closed ks) = []" "log_of written_ev (map Scope_closed ks) = []"
  "log_of conn_ev (map Scope_closed ks) = []"
  by (induction ks) auto

lemma log_of_conn [simp]:
  "log_of conn_ev (map Conn_closed cs) = cs" "log_of opened_ev (map Conn_closed cs) = []"
  "log_of closed_ev (map Conn_closed cs) = []" "log_of dropped_ev (map Conn_closed cs) = []"
  "log_of written_ev (map Conn_closed cs) = []"
  by (induction cs) auto

section \<open>The invariants\<close>

text \<open>Requests in flight: one per goroutine of \<^verbatim>\<open>UseDispatcher\<close>, and the one being submitted.\<close>

definition slots_inv :: "runtime \<Rightarrow> bool" where
  "slots_inv rt \<longleftrightarrow>
     (let s = rt_session rt; submitting = (\<exists>k v. rt_read rt = R_submit k v) in
      0 < s_maxInFlight s \<and> s_maxInFlight s < 2 ^ 31 \<and> s_inflight s \<le> s_maxInFlight s \<and>
      s_inflight s = int (length (rt_hand rt)) + (if submitting then 1 else 0) \<and>
      (rt_read rt = R_scope \<or> read_hold (rt_read rt) \<noteq> [] \<and> \<not> submitting \<longrightarrow>
         s_inflight s < s_maxInFlight s) \<and>
      ch_cap (s_responses s) = 16 \<and> \<not> ch_closed (s_responses s) \<and>
      length (ch_buf (s_responses s)) \<le> 16)"

text \<open>Every scope opened is closed, dropped, or in one place.\<close>

definition scope_places :: "runtime \<Rightarrow> nat list" where
  "scope_places rt =
     write_hold (rt_write rt) @ map snd (responses rt) @ concat (map hand_hold (rt_hand rt)) @
     read_hold (rt_read rt)"

definition scopes_inv :: "s_event list \<Rightarrow> runtime \<Rightarrow> bool" where
  "scopes_inv tr rt \<longleftrightarrow>
     log_of opened_ev tr = [0..<rt_next rt] \<and>
     mset (log_of opened_ev tr) =
       mset (log_of closed_ev tr) + mset (log_of dropped_ev tr) + mset (scope_places rt)"

text \<open>What is written, and what will be, in the order in which it was read.\<close>

definition in_order :: "s_event list \<Rightarrow> runtime \<Rightarrow> nat list" where
  "in_order tr rt =
     log_of written_ev tr @ write_next (rt_write rt) @ map snd (responses rt) @
     concat (map hand_hold (rt_hand rt)) @ read_hold (rt_read rt)"

definition order_inv :: "s_event list \<Rightarrow> runtime \<Rightarrow> bool" where
  "order_inv tr rt \<longleftrightarrow>
     sorted_wrt (<) (in_order tr rt) \<and> (\<forall>k \<in> set (in_order tr rt). k < rt_next rt)"

text \<open>What is written for a request is the answer to that request.\<close>

fun hand_answer :: "hand_pc \<Rightarrow> (nat \<times> rvalue) list" where
  "hand_answer (H_check k v) = [(k, v)]"
| "hand_answer (H_select k v) = [(k, v)]"
| "hand_answer _ = []"

fun write_answer :: "write_pc \<Rightarrow> (nat \<times> rvalue) list" where
  "write_answer (Wr_write b v) = [(last b, v)]"
| "write_answer _ = []"

definition answers_on_the_way :: "s_event list \<Rightarrow> runtime \<Rightarrow> (nat \<times> rvalue) set" where
  "answers_on_the_way tr rt =
     set (write_answer (rt_write rt)) \<union> set (map prod.swap (responses rt)) \<union>
     set (concat (map hand_answer (rt_hand rt))) \<union> {(k, v). Written k v \<in> set tr}"

definition content_inv :: "s_event list \<Rightarrow> runtime \<Rightarrow> bool" where
  "content_inv tr rt \<longleftrightarrow> (\<forall>(k, v) \<in> answers_on_the_way tr rt. Answered k v \<in> set tr)"

text \<open>The end of a session.\<close>

definition end_inv :: "nat option \<Rightarrow> s_event list \<Rightarrow> runtime \<Rightarrow> bool" where
  "end_inv closer tr rt \<longleftrightarrow>
     (let s = rt_session rt in
      (s_stopFlag s \<longleftrightarrow> s_stopCh s) \<and>
      (rt_read rt = R_gone \<longrightarrow> s_stopCh s) \<and>
      (rt_sup rt \<noteq> Sup_wait \<longrightarrow> rt_read rt = R_gone \<and> rt_write rt = Wr_gone) \<and>
      (rt_sup rt \<notin> {Sup_wait, Sup_close} \<longrightarrow> s_closed s \<and> s_closer s = None) \<and>
      (s_closed s \<longrightarrow> s_stopCh s \<and> s_closer s = None) \<and>
      (s_done s \<longleftrightarrow> rt_sup rt = Sup_done) \<and> (Done_closed \<in> set tr \<longleftrightarrow> rt_sup rt = Sup_done) \<and>
      log_of conn_ev tr @ (case s_closer s of None \<Rightarrow> [] | Some c \<Rightarrow> [c]) =
        (case closer of None \<Rightarrow> [] | Some c \<Rightarrow> [c]))"

lemmas session_ops = on_session_def add_inflight_def set_responses_def StopGracefully_def
  decrementInflight_def closeConn_def CloseNow_begin_def UpdateLastSeen_def IncrementCommands_def
  AddBytesRead_def AddBytesWritten_def

section \<open>Invariants of all runs\<close>

text \<open>What it takes for a property of the events so far and the state to hold in every run.\<close>

locale session_invariant =
  fixes I :: "s_event list \<Rightarrow> runtime \<Rightarrow> bool"
  assumes keep_read: "read_step rt ev rt' \<Longrightarrow> I tr rt \<Longrightarrow> I (tr @ ev) rt'"
    and keep_write: "write_step rt ev rt' \<Longrightarrow> I tr rt \<Longrightarrow> I (tr @ ev) rt'"
    and keep_hand: "hand_step rt ev rt' \<Longrightarrow> I tr rt \<Longrightarrow> I (tr @ ev) rt'"
    and keep_sup: "sup_step rt ev rt' \<Longrightarrow> I tr rt \<Longrightarrow> I (tr @ ev) rt'"
    and keep_caller: "caller_step rt ev rt' \<Longrightarrow> I tr rt \<Longrightarrow> I (tr @ ev) rt'"
begin

lemma keep_own: "own_step rt ev rt' \<Longrightarrow> I tr rt \<Longrightarrow> I (tr @ ev) rt'"
  using keep_read keep_write keep_hand keep_sup by (auto simp: own_step_def)

lemma continues: "s_run rt0 n tr rt \<Longrightarrow> I tr0 rt0 \<Longrightarrow> I (tr0 @ tr) rt"
  by (induction rule: s_run.induct) (auto intro: keep_own keep_caller simp flip: append_assoc)

lemma always: "s_run rt0 n tr rt \<Longrightarrow> I [] rt0 \<Longrightarrow> I tr rt"
  using continues [of rt0 n tr rt "[]"] by simp

end

lemmas place_defs = scope_places_def in_order_def responses_def
lemmas content_defs = content_inv_def answers_on_the_way_def responses_def

interpretation slots: session_invariant "\<lambda>tr. slots_inv"
proof
  show "read_step rt ev rt' \<Longrightarrow> slots_inv rt \<Longrightarrow> slots_inv rt'" for rt ev rt'
    by (induction rule: read_step.cases)
      (auto simp: slots_inv_def session_ops slot_free_def wrap32_id Let_def)
  show "write_step rt ev rt' \<Longrightarrow> slots_inv rt \<Longrightarrow> slots_inv rt'" for rt ev rt'
    by (induction rule: write_step.cases) (auto simp: slots_inv_def session_ops responses_def Let_def)
  show "hand_step rt ev rt' \<Longrightarrow> slots_inv rt \<Longrightarrow> slots_inv rt'" for rt ev rt'
    by (induction rule: hand_step.cases)
      (auto simp: slots_inv_def session_ops chan_send_cases wrap32_id Let_def)
  show "sup_step rt ev rt' \<Longrightarrow> slots_inv rt \<Longrightarrow> slots_inv rt'" for rt ev rt'
    by (induction rule: sup_step.cases) (auto simp: slots_inv_def session_ops Let_def)
  show "caller_step rt ev rt' \<Longrightarrow> slots_inv rt \<Longrightarrow> slots_inv rt'" for rt ev rt'
    by (induction rule: caller_step.cases)
      (auto simp: slots_inv_def session_ops Let_def split: if_splits)
qed

interpretation scopes: session_invariant scopes_inv
proof
  show "read_step rt ev rt' \<Longrightarrow> scopes_inv tr rt \<Longrightarrow> scopes_inv (tr @ ev) rt'" for rt ev rt' tr
    by (induction rule: read_step.cases) (auto simp: scopes_inv_def session_ops place_defs)
  show "write_step rt ev rt' \<Longrightarrow> scopes_inv tr rt \<Longrightarrow> scopes_inv (tr @ ev) rt'" for rt ev rt' tr
    by (induction rule: write_step.cases) (auto simp: scopes_inv_def session_ops place_defs)
  show "hand_step rt ev rt' \<Longrightarrow> scopes_inv tr rt \<Longrightarrow> scopes_inv (tr @ ev) rt'" for rt ev rt' tr
    by (induction rule: hand_step.cases)
      (auto simp: scopes_inv_def session_ops place_defs chan_send_cases)
  show "sup_step rt ev rt' \<Longrightarrow> scopes_inv tr rt \<Longrightarrow> scopes_inv (tr @ ev) rt'" for rt ev rt' tr
    by (induction rule: sup_step.cases) (auto simp: scopes_inv_def session_ops place_defs)
  show "caller_step rt ev rt' \<Longrightarrow> scopes_inv tr rt \<Longrightarrow> scopes_inv (tr @ ev) rt'" for rt ev rt' tr
    by (induction rule: caller_step.cases)
      (auto simp: scopes_inv_def session_ops place_defs Let_def split: if_splits)
qed

interpretation contents: session_invariant content_inv
proof
  show "read_step rt ev rt' \<Longrightarrow> content_inv tr rt \<Longrightarrow> content_inv (tr @ ev) rt'" for rt ev rt' tr
    by (induction rule: read_step.cases; force simp: content_defs session_ops)
  show "write_step rt ev rt' \<Longrightarrow> content_inv tr rt \<Longrightarrow> content_inv (tr @ ev) rt'" for rt ev rt' tr
    by (induction rule: write_step.cases; force simp: content_defs session_ops)
  show "hand_step rt ev rt' \<Longrightarrow> content_inv tr rt \<Longrightarrow> content_inv (tr @ ev) rt'" for rt ev rt' tr
    by (induction rule: hand_step.cases; force simp: content_defs session_ops chan_send_cases)
  show "sup_step rt ev rt' \<Longrightarrow> content_inv tr rt \<Longrightarrow> content_inv (tr @ ev) rt'" for rt ev rt' tr
    by (induction rule: sup_step.cases; force simp: content_defs session_ops)
  show "caller_step rt ev rt' \<Longrightarrow> content_inv tr rt \<Longrightarrow> content_inv (tr @ ev) rt'" for rt ev rt' tr
    by (induction rule: caller_step.cases; force simp: content_defs session_ops Let_def split: if_splits)
qed

lemma CloseNow_begin_facts:
  assumes "CloseNow_begin s = (s', cs)"
  shows "s_stopFlag s' \<and> s_stopCh s' \<and> s_closed s' \<and> s_done s' = s_done s"
    and "s_closed s \<Longrightarrow> s_closer s' = s_closer s \<and> cs = []"
    and "\<not> s_closed s \<Longrightarrow> s_closer s' = None \<and> cs = (case s_closer s of None \<Rightarrow> [] | Some c \<Rightarrow> [c])"
  using assms by (auto simp: CloseNow_begin_def StopGracefully_def Let_def split: if_splits)

lemma end_inv_caller: "caller_step rt ev rt' \<Longrightarrow> end_inv c tr rt \<Longrightarrow> end_inv c (tr @ ev) rt'"
proof (induction rule: caller_step.cases)
  case (close_now s cs)
  note facts = CloseNow_begin_facts [OF close_now(4)]
  show ?case
  proof (cases "s_closed (rt_session rt)")
    case True
    then have "s_closer (rt_session rt) = None" using close_now(5) by (simp add: end_inv_def Let_def)
    with True show ?thesis using close_now(1,2,5) facts by (simp add: end_inv_def Let_def)
  next
    case False
    then show ?thesis using close_now(1,2,5) facts by (simp add: end_inv_def Let_def log_of_conn image_iff)
  qed
qed (simp_all add: end_inv_def session_ops Let_def)

interpretation ending: session_invariant "end_inv c" for c
proof
  show "read_step rt ev rt' \<Longrightarrow> end_inv c tr rt \<Longrightarrow> end_inv c (tr @ ev) rt'" for rt ev rt' tr
    by (induction rule: read_step.cases) (simp_all add: end_inv_def session_ops Let_def)
  show "write_step rt ev rt' \<Longrightarrow> end_inv c tr rt \<Longrightarrow> end_inv c (tr @ ev) rt'" for rt ev rt' tr
    by (induction rule: write_step.cases) (simp_all add: end_inv_def session_ops Let_def image_iff)
  show "hand_step rt ev rt' \<Longrightarrow> end_inv c tr rt \<Longrightarrow> end_inv c (tr @ ev) rt'" for rt ev rt' tr
    by (induction rule: hand_step.cases) (simp_all add: end_inv_def session_ops Let_def)
  show "sup_step rt ev rt' \<Longrightarrow> end_inv c tr rt \<Longrightarrow> end_inv c (tr @ ev) rt'" for rt ev rt' tr
    by (induction rule: sup_step.cases) (auto simp: end_inv_def session_ops Let_def split: option.splits)
  show "caller_step rt ev rt' \<Longrightarrow> end_inv c tr rt \<Longrightarrow> end_inv c (tr @ ev) rt'" for rt ev rt' tr
    by (rule end_inv_caller)
qed

text \<open>
  With one request in flight at most, the goroutines of \<^verbatim>\<open>UseDispatcher\<close> are at most one, so nothing is
  overtaken.
\<close>

definition single_inv :: "s_event list \<Rightarrow> runtime \<Rightarrow> bool" where
  "single_inv tr rt \<longleftrightarrow> s_maxInFlight (rt_session rt) = 1 \<and> slots_inv rt \<and> order_inv tr rt"

lemma subseq_sorted_wrt: "subseq xs ys \<Longrightarrow> sorted_wrt P ys \<Longrightarrow> sorted_wrt P xs \<and> set xs \<subseteq> set ys"
  by (induction rule: list_emb.induct) auto

lemma subseq_drop [simp]: "subseq (xs @ ys) (xs @ k # ys)" "subseq xs (k # xs)"
  by (simp_all add: subseq_append' list_emb_Cons)

lemma in_order_write: "write_step rt ev rt' \<Longrightarrow> subseq (in_order (tr @ ev) rt') (in_order tr rt)"
  by (induction rule: write_step.cases) (auto simp: in_order_def responses_def session_ops)

lemma in_order_hand:
  "hand_step rt ev rt' \<Longrightarrow> length (rt_hand rt) \<le> 1 \<Longrightarrow> subseq (in_order (tr @ ev) rt') (in_order tr rt)"
  by (induction rule: hand_step.cases)
    (auto simp: in_order_def responses_def session_ops chan_send_cases subseq_append')

lemma in_order_rest:
  "sup_step rt ev rt' \<Longrightarrow> in_order (tr @ ev) rt' = in_order tr rt \<and> rt_next rt' = rt_next rt"
  "caller_step rt ev rt' \<Longrightarrow> in_order (tr @ ev) rt' = in_order tr rt \<and> rt_next rt' = rt_next rt"
   by (induction rule: sup_step.cases; auto simp: in_order_def responses_def session_ops)
    (induction rule: caller_step.cases;
      auto simp: in_order_def responses_def session_ops Let_def split: if_splits)

text \<open>A request that is read when no other is in flight comes last.\<close>

lemma in_order_read:
  assumes "read_step rt ev rt'" and "slots_inv rt" and "s_maxInFlight (rt_session rt) = 1"
  shows "subseq (in_order (tr @ ev) rt') (in_order tr rt) \<and> rt_next rt' = rt_next rt \<or>
    in_order (tr @ ev) rt' = in_order tr rt @ [rt_next rt] \<and> rt_next rt' = Suc (rt_next rt)"
  using assms
  by (induction rule: read_step.cases)
    (auto simp: in_order_def responses_def session_ops slots_inv_def Let_def)

lemma next_kept:
  "write_step rt ev rt' \<Longrightarrow> rt_next rt' = rt_next rt" "hand_step rt ev rt' \<Longrightarrow> rt_next rt' = rt_next rt"
  by (auto elim!: write_step.cases hand_step.cases simp: session_ops)

lemma max_kept:
  "read_step rt ev rt' \<Longrightarrow> s_maxInFlight (rt_session rt') = s_maxInFlight (rt_session rt)"
  "write_step rt ev rt' \<Longrightarrow> s_maxInFlight (rt_session rt') = s_maxInFlight (rt_session rt)"
  "hand_step rt ev rt' \<Longrightarrow> s_maxInFlight (rt_session rt') = s_maxInFlight (rt_session rt)"
  "sup_step rt ev rt' \<Longrightarrow> s_maxInFlight (rt_session rt') = s_maxInFlight (rt_session rt)"
  "caller_step rt ev rt' \<Longrightarrow> s_maxInFlight (rt_session rt') = s_maxInFlight (rt_session rt)"
  by (auto elim!: read_step.cases write_step.cases hand_step.cases sup_step.cases caller_step.cases
      simp: session_ops Let_def split: if_splits)

lemma order_inv_subseq:
  "order_inv tr rt \<Longrightarrow> subseq (in_order tr' rt') (in_order tr rt) \<Longrightarrow> rt_next rt' = rt_next rt \<Longrightarrow>
    order_inv tr' rt'"
  unfolding order_inv_def using subseq_sorted_wrt by (metis subsetD)

lemma order_inv_extend:
  "order_inv tr rt \<Longrightarrow> in_order tr' rt' = in_order tr rt @ [rt_next rt] \<Longrightarrow>
    rt_next rt' = Suc (rt_next rt) \<Longrightarrow> order_inv tr' rt'"
  by (auto simp: order_inv_def sorted_wrt_append less_Suc_eq)

lemma single_hand: "slots_inv rt \<Longrightarrow> s_maxInFlight (rt_session rt) = 1 \<Longrightarrow> length (rt_hand rt) \<le> 1"
  by (auto simp: slots_inv_def Let_def split: if_splits)

interpretation single: session_invariant single_inv
proof
  show "read_step rt ev rt' \<Longrightarrow> single_inv tr rt \<Longrightarrow> single_inv (tr @ ev) rt'" for rt ev rt' tr
    using in_order_read [of rt ev rt' tr] order_inv_subseq [of tr rt "tr @ ev" rt']
      order_inv_extend [of tr rt "tr @ ev" rt'] slots.keep_read [of rt ev rt'] max_kept(1) [of rt ev rt']
    by (auto simp: single_inv_def)
  show "write_step rt ev rt' \<Longrightarrow> single_inv tr rt \<Longrightarrow> single_inv (tr @ ev) rt'" for rt ev rt' tr
    using order_inv_subseq [of tr rt "tr @ ev" rt'] in_order_write [of rt ev rt' tr] next_kept(1) slots.keep_write
      max_kept(2)
    by (simp add: single_inv_def)
  show "hand_step rt ev rt' \<Longrightarrow> single_inv tr rt \<Longrightarrow> single_inv (tr @ ev) rt'" for rt ev rt' tr
    using order_inv_subseq [of tr rt "tr @ ev" rt'] in_order_hand [of rt ev rt' tr] next_kept(2) slots.keep_hand
      max_kept(3) single_hand
    by (simp add: single_inv_def)
  show "sup_step rt ev rt' \<Longrightarrow> single_inv tr rt \<Longrightarrow> single_inv (tr @ ev) rt'" for rt ev rt' tr
    using in_order_rest(1) [of rt ev rt' tr] slots.keep_sup max_kept(4)
    by (simp add: single_inv_def order_inv_def)
  show "caller_step rt ev rt' \<Longrightarrow> single_inv tr rt \<Longrightarrow> single_inv (tr @ ev) rt'" for rt ev rt' tr
    using in_order_rest(2) [of rt ev rt' tr] slots.keep_caller max_kept(5)
    by (simp add: single_inv_def order_inv_def)
qed

section \<open>The start\<close>

definition fresh_session :: "session \<Rightarrow> bool" where
  "fresh_session s \<longleftrightarrow>
     0 < s_maxInFlight s \<and> s_maxInFlight s < 2 ^ 31 \<and> s_inflight s = 0 \<and> s_responses s = make_chan 16 \<and>
     \<not> s_stopFlag s \<and> \<not> s_stopCh s \<and> \<not> s_closed s \<and> \<not> s_done s"

lemma fresh_start:
  assumes "fresh_session s"
  shows "slots_inv (StartLoops s deps wr shared)" and "scopes_inv [] (StartLoops s deps wr shared)"
    and "content_inv [] (StartLoops s deps wr shared)"
    and "end_inv (s_closer s) [] (StartLoops s deps wr shared)"
    and "s_maxInFlight s = 1 \<Longrightarrow> single_inv [] (StartLoops s deps wr shared)"
  using assms
  by (auto simp: fresh_session_def StartLoops_def slots_inv_def scopes_inv_def content_inv_def
      answers_on_the_way_def end_inv_def single_inv_def order_inv_def place_defs Let_def)

lemma fresh_NewSession [simp]:
  "n < 2 ^ 31 \<Longrightarrow> fresh_session (SetCloser c (SetMaxInFlight n (NewSession sid now)))"
  by (simp add: fresh_session_def SetCloser_def SetMaxInFlight_def NewSession_def)

end
