(* ===== verification/Session_Runs.thy ===== *)
theory Session_Runs
  imports Session_Safety
begin

text \<open>
  Concrete runs of a session: \<open>s_try\<close> performs one step of the goroutine chosen, with the choices the
  rules leave open, and \<open>s_play\<close> a list of them. Both are functions, and what they compute is a run.
\<close>

datatype s_choice =
    Go_read rvalue
  | Go_read_fails
  | Go_write
  | Go_write_fails
  | Go_hand rvalue
  | Go_sup

definition read_to :: "read_pc \<Rightarrow> runtime \<Rightarrow> s_event list \<times> runtime" where
  "read_to pc rt = ([], rt\<lparr>rt_read := pc\<rparr>)"

definition try_read :: "bool \<Rightarrow> rvalue \<Rightarrow> runtime \<Rightarrow> (s_event list \<times> runtime) option" where
  "try_read fail v rt =
     (case rt_read rt of
        R_start \<Rightarrow> Some (read_to (if rt_deps rt then R_check else R_return) rt)
      | R_check \<Rightarrow> Some (read_to (if ShouldStop (rt_session rt) then R_return else R_slot) rt)
      | R_slot \<Rightarrow> Some (read_to (if ShouldStop (rt_session rt) then R_return
                             else if slot_free (rt_session rt) then R_scope else R_slot_wait) rt)
      | R_slot_wait \<Rightarrow> Some (read_to (if s_stopCh (rt_session rt) then R_return else R_slot) rt)
      | R_scope \<Rightarrow> Some ([Scope_opened (rt_next rt)],
                     rt\<lparr>rt_read := R_reading (rt_next rt), rt_next := Suc (rt_next rt)\<rparr>)
      | R_reading k \<Rightarrow> Some (if fail then ([Scope_closed k], rt\<lparr>rt_read := R_return\<rparr>)
                         else read_to (R_got k v) rt)
      | R_got k w \<Rightarrow> Some ([], on_session (add_inflight 1) rt\<lparr>rt_read := R_submit k w\<rparr>)
      | R_submit k w \<Rightarrow>
          Some (if fail then ([Scope_closed k], on_session (add_inflight (- 1)) rt\<lparr>rt_read := R_return\<rparr>)
                else ([Submitted k w], rt\<lparr>rt_read := R_check, rt_hand := rt_hand rt @ [H_wait k]\<rparr>))
      | R_return \<Rightarrow> Some ([], on_session StopGracefully rt\<lparr>rt_read := R_gone\<rparr>)
      | R_gone \<Rightarrow> None)"

lemma try_read_step: "try_read fail v rt = Some (ev, rt') \<Longrightarrow> read_step rt ev rt'"
  by (auto simp: try_read_def read_to_def intro: read_step.intros split: read_pc.splits if_splits)

definition try_write :: "bool \<Rightarrow> runtime \<Rightarrow> (s_event list \<times> runtime) option" where
  "try_write fail rt =
     (let at_end = s_stopCh (rt_session rt) \<and> responses rt = [] in
      case rt_write rt of
        Wr_start \<Rightarrow> Some ([], rt\<lparr>rt_write := if rt_writer_set rt then Wr_top else Wr_gone\<rparr>)
      | Wr_top \<Rightarrow> Some ([], rt\<lparr>rt_write := if at_end then Wr_gone else Wr_select\<rparr>)
      | Wr_select \<Rightarrow>
          (case responses rt of
             [] \<Rightarrow> if at_end then Some ([], rt\<lparr>rt_write := Wr_gone\<rparr>) else None
           | (v, k) # qs \<Rightarrow> Some ([], on_session (set_responses qs) rt\<lparr>rt_write := Wr_write [k] v\<rparr>))
      | Wr_write b v \<Rightarrow>
          if \<not> conn_free rt then None
          else if fail then Some (map Scope_closed b, rt\<lparr>rt_write := Wr_gone\<rparr>)
          else Some ([Written (last b) v], rt\<lparr>rt_write := Wr_more b\<rparr>)
      | Wr_more b \<Rightarrow>
          (case responses rt of
             [] \<Rightarrow> Some ([], rt\<lparr>rt_write := Wr_flush b\<rparr>)
           | (v, k) # qs \<Rightarrow>
               Some ([], on_session (set_responses qs) rt\<lparr>rt_write := Wr_write (b @ [k]) v\<rparr>))
      | Wr_flush b \<Rightarrow>
          if \<not> conn_free rt then None
          else if fail then Some (map Scope_closed b, rt\<lparr>rt_write := Wr_gone\<rparr>)
          else Some (Flushed # map Scope_closed b, rt\<lparr>rt_write := Wr_top\<rparr>)
      | Wr_gone \<Rightarrow> None)"

lemma try_write_step: "try_write fail rt = Some (ev, rt') \<Longrightarrow> write_step rt ev rt'"
  by (auto simp: try_write_def Let_def intro: write_step.intros
      split: write_pc.splits list.splits prod.splits if_splits)

text \<open>The oldest goroutine of \<^verbatim>\<open>UseDispatcher\<close>.\<close>

definition try_hand :: "rvalue \<Rightarrow> runtime \<Rightarrow> (s_event list \<times> runtime) option" where
  "try_hand v rt =
     (case rt_hand rt of
        [] \<Rightarrow> None
      | H_wait k # hs \<Rightarrow> Some ([Answered k v], rt\<lparr>rt_hand := H_check k v # hs\<rparr>)
      | H_check k w # hs \<Rightarrow>
          Some (if ShouldStop (rt_session rt) then ([Scope_dropped k], rt\<lparr>rt_hand := H_dec # hs\<rparr>)
                else ([], rt\<lparr>rt_hand := H_select k w # hs\<rparr>))
      | H_select k w # hs \<Rightarrow>
          (case chan_send (w, k) (s_responses (rt_session rt)) of
             Some (Inr c) \<Rightarrow> Some ([], on_session (s_responses_update (\<lambda>_. c)) rt\<lparr>rt_hand := H_dec # hs\<rparr>)
           | _ \<Rightarrow> None)
      | H_dec # hs \<Rightarrow> Some ([], on_session decrementInflight rt\<lparr>rt_hand := hs\<rparr>))"

lemma try_hand_step: "try_hand v rt = Some (ev, rt') \<Longrightarrow> hand_step rt ev rt'"
  using hand_step.result [of rt "[]"] hand_step.stopped [of rt "[]"] hand_step.running [of rt "[]"]
    hand_step.queue [of rt "[]"] hand_step.dec [of rt "[]"]
  by (fastforce simp: try_hand_def split: list.splits hand_pc.splits if_splits option.splits sum.splits)

definition try_sup :: "runtime \<Rightarrow> (s_event list \<times> runtime) option" where
  "try_sup rt =
     (case rt_sup rt of
        Sup_wait \<Rightarrow> if rt_read rt = R_gone \<and> rt_write rt = Wr_gone
                   then Some ([], rt\<lparr>rt_sup := Sup_close\<rparr>) else None
      | Sup_close \<Rightarrow> (case closeConn (rt_session rt) of
                      (s, cs) \<Rightarrow> Some (map Conn_closed cs, rt\<lparr>rt_session := s, rt_sup := Sup_remove\<rparr>))
      | Sup_remove \<Rightarrow> Some ([Removed], rt\<lparr>rt_sup := Sup_finish\<rparr>)
      | Sup_finish \<Rightarrow> Some ([Done_closed], on_session (s_done_update (\<lambda>_. True)) rt\<lparr>rt_sup := Sup_done\<rparr>)
      | Sup_done \<Rightarrow> None)"

lemma try_sup_step: "try_sup rt = Some (ev, rt') \<Longrightarrow> sup_step rt ev rt'"
  by (auto simp: try_sup_def intro: sup_step.intros split: sup_pc.splits if_splits prod.splits)

fun s_try :: "s_choice \<Rightarrow> runtime \<Rightarrow> (s_event list \<times> runtime) option" where
  "s_try (Go_read v) rt = try_read False v rt"
| "s_try Go_read_fails rt = try_read True Null rt"
| "s_try Go_write rt = try_write False rt"
| "s_try Go_write_fails rt = try_write True rt"
| "s_try (Go_hand v) rt = try_hand v rt"
| "s_try Go_sup rt = try_sup rt"

lemma s_try_own: "s_try c rt = Some (ev, rt') \<Longrightarrow> own_step rt ev rt'"
  by (cases c) (auto simp: own_step_def dest: try_read_step try_write_step try_hand_step try_sup_step)

fun s_play :: "s_choice list \<Rightarrow> runtime \<Rightarrow> (s_event list \<times> runtime) option" where
  "s_play [] rt = Some ([], rt)"
| "s_play (c # cs) rt =
     (case s_try c rt of
        None \<Rightarrow> None
      | Some (ev, rt') \<Rightarrow>
          (case s_play cs rt' of None \<Rightarrow> None | Some (evs, rt'') \<Rightarrow> Some (ev @ evs, rt'')))"

lemma s_play_run:
  "s_play cs rt = Some (evs, rt') \<Longrightarrow> s_run rt0 n tr rt \<Longrightarrow> s_run rt0 (n + length cs) (tr @ evs) rt'"
proof (induction cs arbitrary: rt n tr evs)
  case (Cons c cs)
  then obtain ev rt1 evs' where "s_try c rt = Some (ev, rt1)" "s_play cs rt1 = Some (evs', rt')"
      "evs = ev @ evs'"
    by (auto split: option.splits)
  then show ?case using Cons.IH [of rt1 evs' "Suc n" "tr @ ev"] s_own [OF Cons.prems(2) s_try_own] by simp
qed simp

lemma s_play_init: "s_play cs rt = Some (evs, rt') \<Longrightarrow> s_run rt (length cs) evs rt'"
  using s_play_run [OF _ s_init] by fastforce

section \<open>A sample session\<close>

definition sample_runtime :: runtime where
  "sample_runtime = StartLoops (SetCloser (Some 7) (NewSession 1 0)) True True True"

text \<open>Reading a request and submitting it; its answer on the way to the queue; writing it out.\<close>

definition play_request :: "s_choice list" where
  "play_request = [Go_read Null, Go_read Null, Go_read Null, Go_read Null, Go_read Null, Go_read Null]"

definition play_answer :: "s_choice list" where
  "play_answer = [Go_hand Null, Go_hand Null, Go_hand Null, Go_hand Null]"

definition play_write :: "s_choice list" where
  "play_write = [Go_write, Go_write, Go_write, Go_write, Go_write]"

lemmas play_simps = sample_runtime_def StartLoops_def SetCloser_def NewSession_def play_request_def
  play_answer_def play_write_def try_read_def try_write_def try_hand_def try_sup_def read_to_def
  session_ops slot_free_def ShouldStop_def IsClosed_def responses_def conn_free_def wrap32_id
  chan_send_def

lemma sample_fresh:
  "fresh_session (SetCloser (Some 7) (NewSession 1 0))"
  "s_closer (SetCloser (Some 7) (NewSession 1 0)) = Some 7"
  "s_maxInFlight (SetCloser (Some 7) (NewSession 1 0)) = 1"
  by (simp_all add: fresh_session_def SetCloser_def NewSession_def)

text \<open>One request served from end to end.\<close>

lemma sample_served:
  "\<exists>n rt. s_run sample_runtime n
      [Scope_opened 0, Submitted 0 Null, Answered 0 Null, Written 0 Null, Flushed, Scope_closed 0] rt"
proof -
  let ?cs = "[Go_read Null] @ play_request @ play_answer @ [Go_write] @ play_write"
  obtain rt where "s_play ?cs sample_runtime = Some ([Scope_opened 0, Submitted 0 Null, Answered 0 Null,
      Written 0 Null, Flushed, Scope_closed 0], rt)"
    by (simp add: play_simps)
  then show ?thesis using s_play_init by blast
qed

end
