(* ===== verification/Session_Liveness.thy ===== *)
theory Session_Liveness
  imports Session_Runs
begin

text \<open>
  After the stop signal a session winds down: each of its own steps decreases \<open>s_measure\<close>, and it
  comes to rest only when both loops have returned and \<^verbatim>\<open>done\<close> is closed. Then the properties of the
  session, with the behaviours the code does not guard against.
\<close>

section \<open>Winding down\<close>

definition stopped :: "runtime \<Rightarrow> bool" where
  "stopped rt \<longleftrightarrow> s_stopFlag (rt_session rt) \<and> s_stopCh (rt_session rt)"

fun read_measure :: "read_pc \<Rightarrow> nat" where
  "read_measure R_start = 3"
| "read_measure R_check = 2"
| "read_measure R_slot = 2"
| "read_measure R_slot_wait = 3"
| "read_measure R_scope = 17"
| "read_measure (R_reading k) = 16"
| "read_measure (R_got k v) = 15"
| "read_measure (R_submit k v) = 14"
| "read_measure R_return = 1"
| "read_measure R_gone = 0"

fun write_measure :: "write_pc \<Rightarrow> nat" where
  "write_measure Wr_start = 4"
| "write_measure Wr_top = 3"
| "write_measure Wr_select = 2"
| "write_measure (Wr_write b v) = 8"
| "write_measure (Wr_more b) = 7"
| "write_measure (Wr_flush b) = 6"
| "write_measure Wr_gone = 0"

fun hand_measure :: "hand_pc \<Rightarrow> nat" where
  "hand_measure (H_wait k) = 11"
| "hand_measure (H_check k v) = 10"
| "hand_measure (H_select k v) = 9"
| "hand_measure H_dec = 1"

fun sup_measure :: "sup_pc \<Rightarrow> nat" where
  "sup_measure Sup_wait = 4"
| "sup_measure Sup_close = 3"
| "sup_measure Sup_remove = 2"
| "sup_measure Sup_finish = 1"
| "sup_measure Sup_done = 0"

definition s_measure :: "runtime \<Rightarrow> nat" where
  "s_measure rt =
     read_measure (rt_read rt) + write_measure (rt_write rt) + 7 * length (responses rt) +
     sum_list (map hand_measure (rt_hand rt)) + sup_measure (rt_sup rt)"

lemma read_step_measure: "read_step rt ev rt' \<Longrightarrow> stopped rt \<Longrightarrow> s_measure rt' < s_measure rt \<and> stopped rt'"
  by (induction rule: read_step.cases)
    (auto simp: s_measure_def stopped_def session_ops responses_def ShouldStop_def)

lemma write_step_measure: "write_step rt ev rt' \<Longrightarrow> stopped rt \<Longrightarrow> s_measure rt' < s_measure rt \<and> stopped rt'"
  by (induction rule: write_step.cases)
    (auto simp: s_measure_def stopped_def session_ops responses_def)

lemma hand_step_measure: "hand_step rt ev rt' \<Longrightarrow> stopped rt \<Longrightarrow> s_measure rt' < s_measure rt \<and> stopped rt'"
  by (induction rule: hand_step.cases)
    (auto simp: s_measure_def stopped_def session_ops responses_def chan_send_cases)

lemma sup_step_measure: "sup_step rt ev rt' \<Longrightarrow> stopped rt \<Longrightarrow> s_measure rt' < s_measure rt \<and> stopped rt'"
  by (induction rule: sup_step.cases)
    (auto simp: s_measure_def stopped_def session_ops responses_def)

lemma caller_step_measure:
  "caller_step rt ev rt' \<Longrightarrow> stopped rt \<Longrightarrow> s_measure rt' = s_measure rt \<and> stopped rt'"
  by (induction rule: caller_step.cases)
    (auto simp: s_measure_def stopped_def session_ops responses_def Let_def split: if_splits)

lemmas own_step_measure =
  read_step_measure write_step_measure hand_step_measure sup_step_measure

lemma s_run_measure: "s_run rt0 n tr rt \<Longrightarrow> stopped rt0 \<Longrightarrow> n + s_measure rt \<le> s_measure rt0 \<and> stopped rt"
proof (induction rule: s_run.induct)
  case (s_own n tr rt ev rt')
  then show ?case using own_step_measure [of rt ev rt'] by (auto simp: own_step_def)
next
  case (s_caller n tr rt ev rt')
  then show ?case using caller_step_measure [of rt ev rt'] by auto
qed simp

definition s_stuck :: "runtime \<Rightarrow> bool" where
  "s_stuck rt \<longleftrightarrow> (\<forall>ev rt'. \<not> own_step rt ev rt')"

lemma s_stuck_hand: "s_stuck rt \<Longrightarrow> stopped rt \<Longrightarrow> rt_hand rt = []"
proof (rule ccontr)
  assume st: "s_stuck rt" "stopped rt" and "rt_hand rt \<noteq> []"
  then obtain h hs where h: "rt_hand rt = [] @ h # hs" by (cases "rt_hand rt") auto
  have "\<exists>ev rt'. hand_step rt ev rt'"
  proof (cases h)
    case (H_wait k)
    with h show ?thesis using hand_step.result by blast
  next
    case (H_check k v)
    then have "rt_hand rt = [] @ H_check k v # hs" "ShouldStop (rt_session rt)"
      using h st(2) by (simp_all add: stopped_def ShouldStop_def)
    then show ?thesis using hand_step.stopped by blast
  next
    case (H_select k v)
    then have "rt_hand rt = [] @ H_select k v # hs" "s_stopCh (rt_session rt)"
      using h st(2) by (simp_all add: stopped_def)
    then show ?thesis using hand_step.select_stop by blast
  next
    case H_dec
    with h show ?thesis using hand_step.dec by blast
  qed
  with st(1) show False by (auto simp: s_stuck_def own_step_def)
qed

lemma s_stuck_read: "s_stuck rt \<Longrightarrow> rt_read rt = R_gone"
proof (rule ccontr)
  assume st: "s_stuck rt" and "rt_read rt \<noteq> R_gone"
  then have "\<exists>ev rt'. read_step rt ev rt'"
    by (cases "rt_read rt"; cases "rt_deps rt"; cases "ShouldStop (rt_session rt)";
        cases "slot_free (rt_session rt)") (blast intro: read_step.intros)+
  with st show False by (auto simp: s_stuck_def own_step_def)
qed

lemma s_stuck_write: "s_stuck rt \<Longrightarrow> stopped rt \<Longrightarrow> rt_write rt = Wr_gone"
proof (rule ccontr)
  assume st: "s_stuck rt" "stopped rt" and "rt_write rt \<noteq> Wr_gone"
  then have "conn_free rt" using s_stuck_read by (simp add: conn_free_def)
  have "\<exists>ev rt'. write_step rt ev rt'"
  proof (cases "responses rt")
    case Nil
    with \<open>rt_write rt \<noteq> Wr_gone\<close> \<open>conn_free rt\<close> st(2) show ?thesis
      by (cases "rt_write rt"; cases "rt_writer_set rt") (auto simp: stopped_def intro: write_step.intros)
  next
    case (Cons q qs)
    with \<open>rt_write rt \<noteq> Wr_gone\<close> \<open>conn_free rt\<close> show ?thesis
      using write_step.top [of rt]
      by (cases q; cases "rt_write rt"; cases "rt_writer_set rt") (auto intro: write_step.intros)
  qed
  with st(1) show False by (auto simp: s_stuck_def own_step_def)
qed

lemma s_stuck_sup: "s_stuck rt \<Longrightarrow> stopped rt \<Longrightarrow> rt_sup rt = Sup_done"
proof (rule ccontr)
  assume st: "s_stuck rt" "stopped rt" and "rt_sup rt \<noteq> Sup_done"
  then have "\<exists>ev rt'. sup_step rt ev rt'"
    using s_stuck_read [OF st(1)] s_stuck_write [OF st]
    by (cases "rt_sup rt"; cases "closeConn (rt_session rt)") (auto intro: sup_step.intros)
  with st(1) show False by (auto simp: s_stuck_def own_step_def)
qed

section \<open>Properties\<close>

text \<open>
  C19: At no time are more requests of a session in flight than configured, nor more goroutines
  waiting for results, nor more than 16 responses queued; the counter never wraps or goes negative.
\<close>

theorem session_in_flight_bounded:
  assumes "s_run (StartLoops s deps wr shared) n tr rt" and "fresh_session s"
  shows "0 \<le> s_inflight (rt_session rt) \<and>
    s_inflight (rt_session rt) \<le> s_maxInFlight (rt_session rt) \<and>
    int (length (rt_hand rt)) \<le> s_inflight (rt_session rt) \<and> length (responses rt) \<le> 16"
  using slots.always [OF assms(1) fresh_start(1) [OF assms(2)]]
  by (auto simp: slots_inv_def responses_def Let_def)

theorem session_in_flight_bounded_witness:
  "\<exists>n rt. s_run sample_runtime n [Scope_opened 0, Submitted 0 Null, Answered 0 Null, Written 0 Null,
      Flushed, Scope_closed 0] rt \<and> length (responses rt) \<le> 16"
  using sample_served session_in_flight_bounded [OF _ sample_fresh(1)]
  unfolding sample_runtime_def by blast

text \<open>
  C15: Every scope a session opens for a request is closed at most once, and never while the request is
  still being read, executed, queued or written: at any time it is closed, or dropped, or in exactly
  one of these places.
\<close>

theorem session_scopes_accounted:
  assumes "s_run (StartLoops s deps wr shared) n tr rt" and "fresh_session s"
  shows "distinct (log_of closed_ev tr @ log_of dropped_ev tr @ scope_places rt) \<and>
    set (log_of closed_ev tr @ log_of dropped_ev tr @ scope_places rt) = {..<rt_next rt}"
proof -
  have "scopes_inv tr rt" by (rule scopes.always [OF assms(1) fresh_start(2) [OF assms(2)]])
  then have "mset (log_of closed_ev tr @ log_of dropped_ev tr @ scope_places rt) = mset [0..<rt_next rt]"
    unfolding scopes_inv_def by (metis mset_append add.assoc)
  then show ?thesis
    by (metis atLeast_upt distinct_upt mset_eq_imp_distinct_iff mset_eq_setD)
qed

theorem session_scopes_accounted_witness:
  "\<exists>n rt. s_run sample_runtime n [Scope_opened 0, Submitted 0 Null, Answered 0 Null, Written 0 Null,
      Flushed, Scope_closed 0] rt \<and> distinct (0 # scope_places rt)"
proof -
  obtain n rt where run: "s_run sample_runtime n [Scope_opened 0, Submitted 0 Null, Answered 0 Null,
      Written 0 Null, Flushed, Scope_closed 0] rt"
    using sample_served by blast
  show ?thesis
    using session_scopes_accounted [OF run [unfolded sample_runtime_def] sample_fresh(1)] run by auto
qed

text \<open>
  With one request in flight at most (the default), the responses go out in the order in which
  the requests came in, at most one for each request.
\<close>

theorem session_responses_in_order:
  assumes "s_run (StartLoops s deps wr shared) n tr rt" and "fresh_session s" and "s_maxInFlight s = 1"
  shows "sorted_wrt (<) (log_of written_ev tr)"
  using single.always [OF assms(1) fresh_start(5) [OF assms(2,3)]]
  by (simp add: single_inv_def order_inv_def in_order_def sorted_wrt_append)

theorem session_responses_in_order_witness:
  "sorted_wrt (<) (log_of written_ev [Scope_opened 0, Submitted 0 Null, Answered 0 Null, Written 0 Null,
      Flushed, Scope_closed 0])"
  using sample_served session_responses_in_order [OF _ sample_fresh(1) sample_fresh(3)]
  unfolding sample_runtime_def by blast

text \<open>What is written for a request is the answer given to that request, never another one.\<close>

theorem session_writes_own_answer:
  assumes "s_run (StartLoops s deps wr shared) n tr rt" and "fresh_session s"
    and "Written k v \<in> set tr"
  shows "Answered k v \<in> set tr"
  using contents.always [OF assms(1) fresh_start(3) [OF assms(2)]] assms(3)
  by (auto simp: content_inv_def answers_on_the_way_def)

theorem session_writes_own_answer_witness:
  "Answered 0 Null \<in> set [Scope_opened 0, Submitted 0 Null, Answered 0 Null, Written 0 Null, Flushed,
      Scope_closed 0]"
proof -
  obtain n rt where run: "s_run sample_runtime n [Scope_opened 0, Submitted 0 Null, Answered 0 Null,
      Written 0 Null, Flushed, Scope_closed 0] rt"
    using sample_served by blast
  show ?thesis
    by (rule session_writes_own_answer [OF run [unfolded sample_runtime_def] sample_fresh(1)]) simp
qed

text \<open>
  C23: Whatever the interleaving of stops and forced closes, the connection is closed at most once, and
  when \<^verbatim>\<open>done\<close> is closed both loops have returned and the connection is closed exactly once.
\<close>

theorem session_closes_once:
  assumes "s_run (StartLoops s deps wr shared) n tr rt" and "fresh_session s" and "s_closer s = Some c"
  shows "log_of conn_ev tr \<in> {[], [c]} \<and>
    (s_done (rt_session rt) \<longrightarrow> log_of conn_ev tr = [c] \<and> rt_read rt = R_gone \<and> rt_write rt = Wr_gone)"
proof -
  have "end_inv (Some c) tr rt"
    using ending.always [OF assms(1)] fresh_start(4) [OF assms(2)] assms(3) by metis
  then show ?thesis
    by (cases "s_closer (rt_session rt)") (auto simp: end_inv_def Let_def)
qed

theorem session_closes_once_witness:
  "\<exists>n tr rt. s_run sample_runtime n tr rt \<and> s_done (rt_session rt) \<and> log_of conn_ev tr = [7]"
proof -
  let ?cs = "[Go_read Null, Go_read Null, Go_read Null, Go_read Null, Go_read_fails, Go_read Null,
    Go_write, Go_write, Go_sup, Go_sup, Go_sup, Go_sup]"
  obtain tr rt where "s_play ?cs sample_runtime = Some (tr, rt)" "s_done (rt_session rt)"
    by (simp add: play_simps)
  then have run: "s_run sample_runtime (length ?cs) tr rt" "s_done (rt_session rt)"
    using s_play_init by blast+
  then have "log_of conn_ev tr = [7]"
    using session_closes_once [OF run(1) [unfolded sample_runtime_def] sample_fresh(1,2)] by blast
  with run show ?thesis by blast
qed

text \<open>
  C22: After the stop signal a session takes only a bounded number of further steps, whatever the
  callers do, and it comes to rest only with \<^verbatim>\<open>done\<close> closed, its connection, if it has one, closed
  exactly once, both loops returned and no goroutine left: \<^verbatim>\<open>Stop\<close> returns as soon as the pending read
  does.
\<close>

theorem session_stop_terminates:
  assumes "s_run (StartLoops s deps wr shared) n tr rt" and "fresh_session s" and "stopped rt"
    and "s_run rt n' tr' rt'"
  shows "n' \<le> s_measure rt \<and>
    (s_stuck rt' \<longrightarrow> s_done (rt_session rt') \<and> s_closed (rt_session rt') \<and>
       log_of conn_ev (tr @ tr') = (case s_closer s of None \<Rightarrow> [] | Some c \<Rightarrow> [c]) \<and>
       rt_read rt' = R_gone \<and> rt_write rt' = Wr_gone \<and> rt_hand rt' = [])"
proof -
  have "end_inv (s_closer s) tr rt" by (rule ending.always [OF assms(1) fresh_start(4) [OF assms(2)]])
  then have "end_inv (s_closer s) (tr @ tr') rt'" by (rule ending.continues [OF assms(4)])
  then show ?thesis
    using s_run_measure [OF assms(4,3)] s_stuck_hand [of rt'] s_stuck_read [of rt'] s_stuck_write [of rt']
      s_stuck_sup [of rt']
    by (auto simp: end_inv_def Let_def)
qed

theorem session_stop_terminates_witness:
  "\<exists>tr rt n tr' rt'. s_run sample_runtime 0 tr rt \<and> s_run rt n tr' rt' \<and> s_stuck rt' \<and> s_done (rt_session rt') \<and>
    n \<le> s_measure rt \<and> log_of conn_ev (tr @ tr') = [7]"
proof -
  let ?cs = "[Go_read Null, Go_read Null, Go_read Null, Go_write, Go_write, Go_sup, Go_sup, Go_sup, Go_sup]"
  define rt where "rt = on_session StopGracefully sample_runtime"
  define rt' where "rt' = snd (the (s_play ?cs rt))"
  have run: "s_run sample_runtime 0 ([] @ []) rt"
    unfolding rt_def by (rule s_caller [OF s_init caller_step.stop])
  have st: "stopped rt" by (simp add: rt_def stopped_def play_simps)
  have "s_play ?cs rt = Some ([Conn_closed 7, Removed, Done_closed], rt')"
    by (simp add: rt'_def rt_def play_simps)
  then have run': "s_run rt (length ?cs) [Conn_closed 7, Removed, Done_closed] rt'" by (rule s_play_init)
  have gone: "rt_read rt' = R_gone" "rt_write rt' = Wr_gone" "rt_hand rt' = []" "rt_sup rt' = Sup_done"
    by (simp_all add: rt'_def rt_def play_simps)
  have stuck: "s_stuck rt'"
    using gone by (auto simp: s_stuck_def own_step_def read_step_iff write_step_iff
        elim: hand_step.cases sup_step.cases)
  note ends = session_stop_terminates [OF run [unfolded sample_runtime_def] sample_fresh(1) st run']
  from ends stuck have "s_done (rt_session rt')" "length ?cs \<le> s_measure rt" by blast+
  moreover have "log_of conn_ev (([] @ []) @ [Conn_closed 7, Removed, Done_closed]) = [7]"
    using ends stuck sample_fresh(2) by simp
  ultimately show ?thesis using run run' stuck by blast
qed

text \<open>
  A request whose answer arrives after the stop signal loses its scope: the session ends with
  \<^verbatim>\<open>done\<close> closed, and the scope is never closed.
\<close>

theorem session_scope_leak:
  "\<exists>n tr rt. s_run sample_runtime n tr rt \<and> s_done (rt_session rt) \<and> s_stuck rt \<and>
    Answered 0 Null \<in> set tr \<and> 0 \<notin> set (log_of closed_ev tr)"
proof -
  define rt1 where "rt1 = snd (the (s_play ([Go_read Null] @ play_request) sample_runtime))"
  define rt2 where "rt2 = on_session StopGracefully rt1"
  let ?cs = "[Go_hand Null, Go_hand Null, Go_hand Null, Go_read Null, Go_read Null, Go_write, Go_write,
    Go_sup, Go_sup, Go_sup, Go_sup]"
  let ?tr = "[Answered 0 Null, Scope_dropped 0, Conn_closed 7, Removed, Done_closed]"
  define rt where "rt = snd (the (s_play ?cs rt2))"
  have "s_play ([Go_read Null] @ play_request) sample_runtime =
      Some ([Scope_opened 0, Submitted 0 Null], rt1)"
    by (simp add: rt1_def play_simps)
  then have "s_run sample_runtime (length ([Go_read Null] @ play_request))
      [Scope_opened 0, Submitted 0 Null] rt1"
    by (rule s_play_init)
  then have "s_run sample_runtime (length ([Go_read Null] @ play_request))
      ([Scope_opened 0, Submitted 0 Null] @ []) rt2"
    unfolding rt2_def by (rule s_caller [OF _ caller_step.stop])
  moreover have "s_play ?cs rt2 = Some (?tr, rt)"
    by (simp add: rt_def rt2_def rt1_def play_simps)
  ultimately have run: "s_run sample_runtime (length ([Go_read Null] @ play_request) + length ?cs)
      (([Scope_opened 0, Submitted 0 Null] @ []) @ ?tr) rt"
    by (rule s_play_run [rotated])
  have gone: "rt_read rt = R_gone" "rt_write rt = Wr_gone" "rt_hand rt = []" "rt_sup rt = Sup_done"
      "s_done (rt_session rt)"
    by (simp_all add: rt_def rt2_def rt1_def play_simps)
  then have "s_stuck rt"
    by (auto simp: s_stuck_def own_step_def read_step_iff write_step_iff
        elim: hand_step.cases sup_step.cases)
  with gone(5) show ?thesis
    by (intro exI [of _ "length ([Go_read Null] @ play_request) + length ?cs"]
        exI [of _ "([Scope_opened 0, Submitted 0 Null] @ []) @ ?tr"] exI [of _ rt] conjI run) simp_all
qed

text \<open>
  A response can be held back by the next read: the read loop may take the connection's mutex for
  the next request before the write loop has written the response to the last one, and then no write
  is possible until that read returns.
\<close>

theorem session_response_held_back:
  "\<exists>n tr rt. s_run sample_runtime n tr rt \<and> Answered 0 Null \<in> set tr \<and>
    rt_write rt = Wr_write [0] Null \<and> rt_read rt = R_reading 1 \<and> (\<forall>ev rt'. \<not> write_step rt ev rt')"
proof -
  let ?cs = "[Go_read Null] @ play_request @ play_answer @ [Go_write, Go_write, Go_write] @
    [Go_read Null, Go_read Null, Go_read Null]"
  let ?tr = "[Scope_opened 0, Submitted 0 Null, Answered 0 Null, Scope_opened 1]"
  define rt where "rt = snd (the (s_play ?cs sample_runtime))"
  have "s_play ?cs sample_runtime = Some (?tr, rt)" by (simp add: rt_def play_simps)
  then have "s_run sample_runtime (length ?cs) ?tr rt" by (rule s_play_init)
  moreover have pcs: "rt_write rt = Wr_write [0] Null" "rt_read rt = R_reading 1" "\<not> conn_free rt"
    by (simp_all add: rt_def play_simps)
  moreover have "\<not> write_step rt ev rt'" for ev rt'
    using pcs by (simp add: write_step_iff)
  ultimately show ?thesis
    by (intro exI [of _ "length ?cs"] exI [of _ ?tr] exI [of _ rt]) simp
qed

end
