(* ===== verification/Server_Session.thy ===== *)
theory Server_Session
  imports Server Session_Liveness
begin

text \<open>
  The session that \<^verbatim>\<open>serveDefaultRuntime\<close> of \<^verbatim>\<open>server.go\<close> starts for a connection: the functions it installs
  with the setters of \<^verbatim>\<open>session.go\<close>, and what the properties of sessions say about it under the
  configuration of \<^verbatim>\<open>NewServer\<close>.
\<close>

section \<open>The functions a session works with\<close>

text \<open>Functions are named by numbers; \<open>None\<close> is the nil function.\<close>

record hooks =
  hk_onRemove :: "nat option"
  hk_readRequest :: "nat option"
  hk_submitRequest :: "nat option"
  hk_newScope :: "nat option"

text \<open>Those of a new session: scopes come from the default pool (function 0).\<close>

definition NewSession_hooks :: hooks where
  "NewSession_hooks =
     \<lparr>hk_onRemove = None, hk_readRequest = None, hk_submitRequest = None, hk_newScope = Some 0\<rparr>"

definition SetOnRemove :: "nat option \<Rightarrow> hooks \<Rightarrow> hooks" where
  "SetOnRemove fn h = h\<lparr>hk_onRemove := fn\<rparr>"

definition SetOnClose :: "nat option \<Rightarrow> hooks \<Rightarrow> hooks" where
  "SetOnClose fn h = SetOnRemove fn h"

definition SetScopeFactory :: "nat option \<Rightarrow> hooks \<Rightarrow> hooks" where
  "SetScopeFactory fn h = h\<lparr>hk_newScope := fn\<rparr>"

definition SetRequestReader :: "nat option \<Rightarrow> hooks \<Rightarrow> hooks" where
  "SetRequestReader fn h = h\<lparr>hk_readRequest := fn\<rparr>"

definition SetRequestSubmitter :: "nat option \<Rightarrow> hooks \<Rightarrow> hooks" where
  "SetRequestSubmitter fn h = h\<lparr>hk_submitRequest := fn\<rparr>"

text \<open>The submitter made for a dispatcher carries its number.\<close>

definition UseDispatcher :: "nat option \<Rightarrow> hooks \<Rightarrow> hooks" where
  "UseDispatcher d h =
     (case d of None \<Rightarrow> SetRequestSubmitter None h | Some k \<Rightarrow> SetRequestSubmitter (Some k) h)"

definition getReadDependencies :: "hooks \<Rightarrow> nat option \<times> nat option \<times> nat option" where
  "getReadDependencies h = (hk_readRequest h, hk_submitRequest h, hk_newScope h)"

text \<open>The test at the head of \<^verbatim>\<open>readLoop\<close>.\<close>

definition deps_set :: "hooks \<Rightarrow> bool" where
  "deps_set h \<longleftrightarrow>
     (case getReadDependencies h of (reader, submitter, factory) \<Rightarrow>
        \<not> (reader = None \<or> submitter = None \<or> factory = None))"

text \<open>
  \<^verbatim>\<open>Start\<close> runs a handler of the user in place of the two loops. The state in which the handler has
  returned; the deferred calls that follow are those of \<^verbatim>\<open>StartLoops\<close>.
\<close>

definition Start_handled :: "session \<Rightarrow> runtime" where
  "Start_handled s = (StartLoops s False False False)\<lparr>rt_read := R_gone, rt_write := Wr_gone\<rparr>"

lemma Start_handled_ends:
  "\<exists>tr rt. s_run (Start_handled s) 4 tr rt \<and> s_done (rt_session rt) \<and> s_closed (rt_session rt) \<and>
    log_of conn_ev tr = (case s_closer s of None \<Rightarrow> [] | Some c \<Rightarrow> [c])"
proof -
  let ?rt0 = "Start_handled s" and ?cs = "case s_closer s of None \<Rightarrow> [] | Some c \<Rightarrow> [c]"
  let ?rt1 = "?rt0\<lparr>rt_sup := Sup_close\<rparr>"
  let ?rt2 = "?rt1\<lparr>rt_session := s\<lparr>s_closer := None, s_closed := True\<rparr>, rt_sup := Sup_remove\<rparr>"
  let ?rt3 = "?rt2\<lparr>rt_sup := Sup_finish\<rparr>"
  let ?rt4 = "on_session (s_done_update (\<lambda>_. True)) ?rt3\<lparr>rt_sup := Sup_done\<rparr>"
  have 1: "sup_step ?rt0 [] ?rt1" by (rule joined) (simp_all add: Start_handled_def StartLoops_def)
  have 2: "sup_step ?rt1 (map Conn_closed ?cs) ?rt2"
    by (rule close_conn) (simp_all add: Start_handled_def StartLoops_def closeConn_def)
  have 3: "sup_step ?rt2 [Removed] ?rt3" by (rule on_remove) simp
  have 4: "sup_step ?rt3 [Done_closed] ?rt4" by (rule finish) simp
  have own: "s_run rt0 n tr rt \<Longrightarrow> sup_step rt ev rt' \<Longrightarrow> s_run rt0 (Suc n) (tr @ ev) rt'" for rt0 n tr rt ev rt'
    using s_own [of rt0 n tr rt ev rt'] by (simp add: own_step_def)
  have "s_run ?rt0 (Suc (Suc (Suc (Suc 0)))) (((([] @ []) @ map Conn_closed ?cs) @ [Removed]) @ [Done_closed]) ?rt4"
    by (rule own [OF own [OF own [OF own [OF s_init 1] 2] 3] 4])
  then show ?thesis by (intro exI conjI) (auto simp: eval_nat_numeral on_session_def)
qed

section \<open>A session of the server\<close>

text \<open>
  What \<^verbatim>\<open>serveDefaultRuntime\<close> installs, in its order; its three closures are the functions 1, 2 and 3.
  \<open>d\<close> is \<^verbatim>\<open>s.dispatcher\<close>, which the cleanup of \<^verbatim>\<open>Start\<close> resets.
\<close>

definition serve_hooks :: "config \<Rightarrow> nat option \<Rightarrow> hooks \<Rightarrow> hooks" where
  "serve_hooks cfg d h =
     (let h1 = SetOnClose (Some 1) h;
          h2 = (if cf_MemPool cfg \<noteq> None then SetScopeFactory (Some 2) h1 else h1)
      in UseDispatcher d (SetRequestReader (Some 3) h2))"

definition serve_runtime :: "config \<Rightarrow> nat \<Rightarrow> nat option \<Rightarrow> session \<Rightarrow> runtime" where
  "serve_runtime cfg conn_name d s =
     StartLoops (session_setup cfg conn_name s) (deps_set (serve_hooks cfg d NewSession_hooks)) True True"

lemma deps_set_serve: "deps_set (serve_hooks cfg d NewSession_hooks) \<longleftrightarrow> d \<noteq> None"
  by (auto simp: deps_set_def getReadDependencies_def serve_hooks_def UseDispatcher_def SetRequestSubmitter_def
      SetRequestReader_def SetScopeFactory_def SetOnClose_def SetOnRemove_def NewSession_hooks_def Let_def
      split: option.split)

text \<open>Without its dependencies a session reads nothing: no scope is ever opened.\<close>

definition idle_inv :: "s_event list \<Rightarrow> runtime \<Rightarrow> bool" where
  "idle_inv tr rt \<longleftrightarrow> \<not> rt_deps rt \<and> rt_read rt \<in> {R_start, R_return, R_gone} \<and> log_of opened_ev tr = []"

interpretation idle: session_invariant idle_inv
proof
  show "read_step rt ev rt' \<Longrightarrow> idle_inv tr rt \<Longrightarrow> idle_inv (tr @ ev) rt'" for rt ev rt' tr
    by (induction rule: read_step.cases) (simp_all add: idle_inv_def session_ops)
  show "write_step rt ev rt' \<Longrightarrow> idle_inv tr rt \<Longrightarrow> idle_inv (tr @ ev) rt'" for rt ev rt' tr
    by (induction rule: write_step.cases) (simp_all add: idle_inv_def session_ops)
  show "hand_step rt ev rt' \<Longrightarrow> idle_inv tr rt \<Longrightarrow> idle_inv (tr @ ev) rt'" for rt ev rt' tr
    by (induction rule: hand_step.cases) (simp_all add: idle_inv_def session_ops)
  show "sup_step rt ev rt' \<Longrightarrow> idle_inv tr rt \<Longrightarrow> idle_inv (tr @ ev) rt'" for rt ev rt' tr
    by (induction rule: sup_step.cases) (simp_all add: idle_inv_def session_ops)
  show "caller_step rt ev rt' \<Longrightarrow> idle_inv tr rt \<Longrightarrow> idle_inv (tr @ ev) rt'" for rt ev rt' tr
    by (induction rule: caller_step.cases) (simp_all add: idle_inv_def session_ops)
qed

text \<open>The configuration a server gets when the limit of requests in flight is left at zero.\<close>

lemma NewServer_limit:
  "cf_MaxInFlightPerSession (case cfg of None \<Rightarrow> no_config | Some c \<Rightarrow> c) = 0 \<Longrightarrow>
    cf_MaxInFlightPerSession (NewServer logger allocator cfg) = 1"
  by (simp add: NewServer_def defaultConfig_def Let_def)

lemma session_setup_one:
  "cf_MaxInFlightPerSession cfg = 1 \<Longrightarrow>
    session_setup cfg name (NewSession sid now) = SetCloser (Some name) (SetMaxInFlight 1 (NewSession sid now))"
  by (simp add: session_setup_def wrap32_id SetMaxInFlight_def SetCloser_def Let_def)

text \<open>
  A session of a server whose configuration does not set the limit of requests in flight executes
  one request at a time and writes the responses in the order of the requests; if the server has no
  dispatcher any more when the session is set up, the session reads nothing.
\<close>

theorem server_session_in_order:
  assumes "s_run (serve_runtime (NewServer logger allocator cfg) name d (fst (Allocate now nextID))) n tr rt"
    and "cf_MaxInFlightPerSession (case cfg of None \<Rightarrow> no_config | Some c \<Rightarrow> c) = 0"
  shows "sorted_wrt (<) (log_of written_ev tr) \<and> s_inflight (rt_session rt) \<le> 1 \<and>
    (d = None \<longrightarrow> log_of opened_ev tr = [])"
proof -
  let ?s = "SetCloser (Some name) (SetMaxInFlight 1 (NewSession (nextID + 1) now))"
  have run: "s_run (StartLoops ?s (d \<noteq> None) True True) n tr rt"
    using assms(1) session_setup_one [OF NewServer_limit [OF assms(2)]]
    by (simp add: serve_runtime_def deps_set_serve Allocate_def)
  have fresh: "fresh_session ?s" by simp
  have one: "s_maxInFlight ?s = 1" by (simp add: SetCloser_def SetMaxInFlight_def)
  have "single_inv tr rt" by (rule single.always [OF run fresh_start(5) [OF fresh one]])
  moreover have "idle_inv tr rt" if "d = None"
    by (rule idle.always [OF run]) (simp add: idle_inv_def StartLoops_def that)
  ultimately show ?thesis
    by (auto simp: single_inv_def slots_inv_def order_inv_def in_order_def sorted_wrt_append idle_inv_def Let_def)
qed

theorem server_session_in_order_witness:
  "\<exists>n rt. s_run (serve_runtime (NewServer 0 0 None) 7 (Some 0) (fst (Allocate 0 0))) n
      [Scope_opened 0, Submitted 0 Null, Answered 0 Null, Written 0 Null, Flushed, Scope_closed 0] rt \<and>
    s_inflight (rt_session rt) \<le> 1"
proof -
  have sample: "serve_runtime (NewServer 0 0 None) 7 (Some 0) (fst (Allocate 0 0)) = sample_runtime"
    using session_setup_one [OF NewServer_limit [of None]]
    by (simp add: serve_runtime_def deps_set_serve Allocate_def sample_runtime_def no_config_def
        SetMaxInFlight_def NewSession_def)
  obtain n rt where run: "s_run sample_runtime n [Scope_opened 0, Submitted 0 Null, Answered 0 Null,
      Written 0 Null, Flushed, Scope_closed 0] rt"
    using sample_served by blast
  have "s_inflight (rt_session rt) \<le> 1"
    using server_session_in_order [OF run [folded sample]] by (simp add: no_config_def)
  with run show ?thesis unfolding sample by blast
qed

end
