(* ===== verification/Session_Sequence.thy ===== *)
theory Session_Sequence
  imports Session_Liveness
begin

text \<open>
  The requests and responses of a session as sequences: requests are submitted in the order of their
  numbers, and with one request in flight at most, as long as no response has been dropped, the
  responses written are those to the first requests, none left out.
\<close>

section \<open>Requests and responses of a run\<close>

fun submit_ev :: "s_event \<Rightarrow> (nat \<times> rvalue) list" where
  "submit_ev (Submitted k v) = [(k, v)]"
| "submit_ev _ = []"

fun write_ev :: "s_event \<Rightarrow> (nat \<times> rvalue) list" where
  "write_ev (Written k v) = [(k, v)]"
| "write_ev _ = []"

definition submits :: "s_event list \<Rightarrow> (nat \<times> rvalue) list" where
  "submits tr = concat (map submit_ev tr)"

definition writes :: "s_event list \<Rightarrow> (nat \<times> rvalue) list" where
  "writes tr = concat (map write_ev tr)"

lemma submits_simps [simp]:
  "submits [] = []" "submits (e # tr) = submit_ev e @ submits tr" "submits (tr @ tr') = submits tr @ submits tr'"
  by (simp_all add: submits_def)

lemma writes_simps [simp]:
  "writes [] = []" "writes (e # tr) = write_ev e @ writes tr" "writes (tr @ tr') = writes tr @ writes tr'"
  by (simp_all add: writes_def)

lemma submits_closed [simp]: "submits (map Scope_closed ks) = []" "submits (map Conn_closed cs) = []"
  by (induction ks) (simp_all add: submits_def)

lemma writes_closed [simp]: "writes (map Scope_closed ks) = []" "writes (map Conn_closed cs) = []"
  by (induction ks) (simp_all add: writes_def)

lemma submits_iff: "(k, v) \<in> set (submits tr) \<longleftrightarrow> Submitted k v \<in> set tr"
proof (induction tr)
  case (Cons e tr)
  then show ?case by (cases e) auto
qed simp

lemma writes_iff: "(k, v) \<in> set (writes tr) \<longleftrightarrow> Written k v \<in> set tr"
proof (induction tr)
  case (Cons e tr)
  then show ?case by (cases e) auto
qed simp

lemma map_fst_writes: "map fst (writes tr) = log_of written_ev tr"
proof (induction tr)
  case (Cons e tr)
  then show ?case by (cases e) auto
qed simp

section \<open>Submission in order\<close>

text \<open>While the read loop goes on, every scope it has opened so far belongs to a request it has submitted,
  except the last one if it is still at work on it.\<close>

definition submit_inv :: "s_event list \<Rightarrow> runtime \<Rightarrow> bool" where
  "submit_inv tr rt \<longleftrightarrow>
     (\<exists>n. map fst (submits tr) = [0..<n]) \<and>
     (rt_read rt \<notin> {R_return, R_gone} \<longrightarrow> map fst (submits tr) @ read_hold (rt_read rt) = [0..<rt_next rt])"

lemma upt_prefix: "xs @ ys = [0..<m] \<Longrightarrow> xs = [0..<length xs]"
proof -
  assume eq: "xs @ ys = [0..<m]"
  then have "length xs + length ys = m" by (metis length_append length_upt diff_zero)
  moreover have "xs = take (length xs) [0..<m]" by (simp flip: eq)
  ultimately show ?thesis by (metis add_0 le_add1 take_upt)
qed

definition reads_alone :: "s_event list \<Rightarrow> runtime \<Rightarrow> runtime \<Rightarrow> bool" where
  "reads_alone ev rt rt' \<longleftrightarrow> submits ev = [] \<and> rt_read rt' = rt_read rt \<and> rt_next rt' = rt_next rt"

lemma step_submits:
  "write_step rt ev rt' \<Longrightarrow> reads_alone ev rt rt'"
  "hand_step rt ev rt' \<Longrightarrow> reads_alone ev rt rt'"
  "sup_step rt ev rt' \<Longrightarrow> reads_alone ev rt rt'"
  "caller_step rt ev rt' \<Longrightarrow> reads_alone ev rt rt'"
  by (auto simp: reads_alone_def session_ops elim!: write_step.cases hand_step.cases sup_step.cases caller_step.cases)

lemma submit_inv_alone: "reads_alone ev rt rt' \<Longrightarrow> submit_inv tr rt \<Longrightarrow> submit_inv (tr @ ev) rt'"
  by (simp add: submit_inv_def reads_alone_def)

interpretation submitting: session_invariant submit_inv
proof
  show "read_step rt ev rt' \<Longrightarrow> submit_inv tr rt \<Longrightarrow> submit_inv (tr @ ev) rt'" for rt ev rt' tr
    by (induction rule: read_step.cases) (auto simp: submit_inv_def session_ops dest: upt_prefix)
qed (rule submit_inv_alone; (rule step_submits)?; assumption)+

lemma submit_inv_start: "submit_inv [] (StartLoops s deps wr shared)"
  by (auto simp: submit_inv_def StartLoops_def intro: exI [of _ 0])

section \<open>No response twice\<close>

text \<open>However many requests are in flight, a response is on its way in one place, and written once.\<close>

definition once_inv :: "s_event list \<Rightarrow> runtime \<Rightarrow> bool" where
  "once_inv tr rt \<longleftrightarrow> distinct (in_order tr rt) \<and> (\<forall>k \<in> set (in_order tr rt). k < rt_next rt)"

definition moves :: "s_event list \<Rightarrow> s_event list \<Rightarrow> runtime \<Rightarrow> runtime \<Rightarrow> bool" where
  "moves tr ev rt rt' \<longleftrightarrow> mset (in_order (tr @ ev) rt') \<subseteq># mset (in_order tr rt) \<and> rt_next rt' = rt_next rt"

lemma distinct_submset:
  assumes "mset xs \<subseteq># mset ys" and "distinct ys"
  shows "distinct xs"
proof -
  obtain zs where "mset ys = mset (xs @ zs)"
    using assms(1) by (metis ex_mset mset_append mset_subset_eq_exists_conv)
  then show ?thesis using assms(2) by (metis distinct_append mset_eq_imp_distinct_iff)
qed

lemma once_inv_moves:
  assumes "moves tr ev rt rt'" and "once_inv tr rt"
  shows "once_inv (tr @ ev) rt'"
proof -
  have "distinct (in_order (tr @ ev) rt')"
    using assms by (auto simp: once_inv_def moves_def intro: distinct_submset)
  moreover have "set (in_order (tr @ ev) rt') \<subseteq> set (in_order tr rt)"
    using assms(1) unfolding moves_def by (metis set_mset_mono set_mset_mset)
  ultimately show ?thesis using assms unfolding once_inv_def moves_def by auto
qed

lemma step_moves:
  shows "write_step rt ev rt' \<Longrightarrow> moves tr ev rt rt'" and "hand_step rt ev rt' \<Longrightarrow> moves tr ev rt rt'"
    and "sup_step rt ev rt' \<Longrightarrow> moves tr ev rt rt'" and "caller_step rt ev rt' \<Longrightarrow> moves tr ev rt rt'"
proof -
  show "write_step rt ev rt' \<Longrightarrow> moves tr ev rt rt'"
    by (auto simp: moves_def in_order_def responses_def session_ops elim!: write_step.cases)
  show "hand_step rt ev rt' \<Longrightarrow> moves tr ev rt rt'"
    by (auto simp: moves_def in_order_def responses_def session_ops chan_send_cases elim!: hand_step.cases)
qed (simp_all add: moves_def in_order_rest)

lemma read_moves:
  "read_step rt ev rt' \<Longrightarrow> moves tr ev rt rt' \<or>
    in_order (tr @ ev) rt' = in_order tr rt @ [rt_next rt] \<and> rt_next rt' = Suc (rt_next rt)"
  by (auto simp: moves_def in_order_def responses_def session_ops elim!: read_step.cases)

interpretation once: session_invariant once_inv
proof
  show "read_step rt ev rt' \<Longrightarrow> once_inv tr rt \<Longrightarrow> once_inv (tr @ ev) rt'" for rt ev rt' tr
    using read_moves [of rt ev rt' tr] once_inv_moves [of tr ev rt rt'] by (fastforce simp: once_inv_def)
qed (rule once_inv_moves; (rule step_moves)?; assumption)+

lemma once_inv_start: "fresh_session s \<Longrightarrow> once_inv [] (StartLoops s deps wr shared)"
  by (simp add: once_inv_def in_order_def responses_def fresh_session_def StartLoops_def)

section \<open>No response left out\<close>

text \<open>What every step does to the numbers that are written or on their way.\<close>

lemma in_order_write_eq:
  "write_step rt ev rt' \<Longrightarrow> rt_write rt' \<noteq> Wr_gone \<Longrightarrow> in_order (tr @ ev) rt' = in_order tr rt"
  by (induction rule: write_step.cases) (auto simp: in_order_def responses_def session_ops)

lemma write_gone:
  "write_step rt ev rt' \<Longrightarrow> rt_write rt \<noteq> Wr_gone \<and>
    (rt_write rt' = Wr_gone \<longrightarrow> log_of written_ev ev = [])"
  by (induction rule: write_step.cases) auto

lemma write_step_dropped: "write_step rt ev rt' \<Longrightarrow> log_of dropped_ev ev = []"
  by (induction rule: write_step.cases) simp_all

lemma in_order_hand_eq:
  "hand_step rt ev rt' \<Longrightarrow> length (rt_hand rt) \<le> 1 \<Longrightarrow> log_of dropped_ev ev = [] \<Longrightarrow>
    in_order (tr @ ev) rt' = in_order tr rt"
  by (induction rule: hand_step.cases) (auto simp: in_order_def responses_def session_ops chan_send_cases)

lemma in_order_read_eq:
  assumes "read_step rt ev rt'" and "in_order tr rt = [0..<m]"
    and "rt_read rt \<notin> {R_return, R_gone} \<longrightarrow> m = rt_next rt"
  shows "\<exists>m. in_order (tr @ ev) rt' = [0..<m] \<and> (rt_read rt' \<notin> {R_return, R_gone} \<longrightarrow> m = rt_next rt')"
  using assms
proof (induction rule: read_step.cases)
  case (read_err k)
  then have "in_order (tr @ ev) rt' @ [k] = [0..<m]" by (simp add: in_order_def responses_def)
  with read_err(1,2) show ?case using upt_prefix by auto
next
  case (submit_err k v)
  then have "in_order (tr @ ev) rt' @ [k] = [0..<m]" by (simp add: in_order_def responses_def session_ops)
  with submit_err(1,2) show ?case using upt_prefix by (auto simp: session_ops)
qed (auto simp: in_order_def responses_def session_ops)

text \<open>Without a dropped response nothing is missing among the numbers written or on their way.\<close>

definition sequence_inv :: "s_event list \<Rightarrow> runtime \<Rightarrow> bool" where
  "sequence_inv tr rt \<longleftrightarrow>
     s_maxInFlight (rt_session rt) = 1 \<and> slots_inv rt \<and>
     (log_of dropped_ev tr = [] \<longrightarrow>
        (if rt_write rt = Wr_gone then \<exists>n. log_of written_ev tr = [0..<n]
         else \<exists>m. in_order tr rt = [0..<m] \<and> (rt_read rt \<notin> {R_return, R_gone} \<longrightarrow> m = rt_next rt)))"

lemma sequence_read:
  assumes "read_step rt ev rt'" and "sequence_inv tr rt"
  shows "sequence_inv (tr @ ev) rt'"
proof -
  have "rt_write rt' = rt_write rt" "log_of written_ev ev = []" "log_of dropped_ev ev = []"
    using assms(1) by (auto elim!: read_step.cases simp: session_ops)
  with assms(2) show ?thesis
    using slots.keep_read [OF assms(1)] max_kept(1) [OF assms(1)] in_order_read_eq [OF assms(1)]
    by (auto simp: sequence_inv_def)
qed

lemma sequence_write:
  assumes "write_step rt ev rt'" and "sequence_inv tr rt"
  shows "sequence_inv (tr @ ev) rt'"
proof (cases "rt_write rt' = Wr_gone")
  case True
  with assms show ?thesis
    using slots.keep_write [OF assms(1)] max_kept(2) [OF assms(1)] write_gone [OF assms(1)]
      write_step_dropped [OF assms(1)]
    by (auto simp: sequence_inv_def in_order_def dest: upt_prefix)
next
  case False
  with assms(2) show ?thesis
    using slots.keep_write [OF assms(1)] max_kept(2) [OF assms(1)] write_gone [OF assms(1)]
      write_step_dropped [OF assms(1)] in_order_write_eq [OF assms(1) False, of tr] step_submits(1) [OF assms(1)]
    by (auto simp: sequence_inv_def reads_alone_def)
qed

lemma sequence_hand:
  assumes "hand_step rt ev rt'" and "sequence_inv tr rt"
  shows "sequence_inv (tr @ ev) rt'"
proof -
  have "rt_write rt' = rt_write rt" "log_of written_ev ev = []"
    using assms(1) by (auto elim!: hand_step.cases simp: session_ops)
  moreover have "length (rt_hand rt) \<le> 1" using assms(2) single_hand by (simp add: sequence_inv_def)
  ultimately show ?thesis
    using assms(2) slots.keep_hand [OF assms(1)] max_kept(3) [OF assms(1)] in_order_hand_eq [OF assms(1), of tr]
      step_submits(2) [OF assms(1)]
    by (auto simp: sequence_inv_def reads_alone_def)
qed

lemma sequence_rest:
  assumes "sup_step rt ev rt' \<or> caller_step rt ev rt'" and "sequence_inv tr rt"
  shows "sequence_inv (tr @ ev) rt'"
proof -
  have "rt_write rt' = rt_write rt" "log_of written_ev ev = []" "log_of dropped_ev ev = []"
    using assms(1) by (auto elim!: sup_step.cases caller_step.cases simp: session_ops)
  moreover have "in_order (tr @ ev) rt' = in_order tr rt" "slots_inv rt'" "reads_alone ev rt rt'"
      "s_maxInFlight (rt_session rt') = s_maxInFlight (rt_session rt)"
    using assms slots.keep_sup slots.keep_caller max_kept(4,5) in_order_rest step_submits(3,4)
    by (auto simp: sequence_inv_def)
  ultimately show ?thesis using assms(2) by (auto simp: sequence_inv_def reads_alone_def)
qed

interpretation sequence: session_invariant sequence_inv
  by unfold_locales (auto intro: sequence_read sequence_write sequence_hand sequence_rest)

lemma sequence_inv_start:
  "fresh_session s \<Longrightarrow> s_maxInFlight s = 1 \<Longrightarrow> sequence_inv [] (StartLoops s deps wr shared)"
  using fresh_start(1) [of s deps wr shared]
  by (auto simp: sequence_inv_def in_order_def responses_def fresh_session_def StartLoops_def)

lemma sequence_written:
  "sequence_inv tr rt \<Longrightarrow> log_of dropped_ev tr = [] \<Longrightarrow> \<exists>n. log_of written_ev tr = [0..<n]"
  by (auto simp: sequence_inv_def in_order_def dest: upt_prefix split: if_splits)

end
