(* ===== verification/Served_Connection.thy ===== *)
theory Served_Connection
  imports Server_Session Session_Sequence Dispatcher_Answers
begin

text \<open>
  A session at work: the goroutines of \<^verbatim>\<open>Session\<close>, the dispatcher they share with the other sessions, and
  the connection, as one system. The steps of the parts happen together where the code calls from one
  into the other: the request reader of \<^verbatim>\<open>serveDefaultRuntime\<close> reads from the connection, the submitter of
  \<^verbatim>\<open>UseDispatcher\<close> calls \<^verbatim>\<open>Enqueue\<close> with a new result channel, its goroutine receives from that channel, and
  the write loop writes to the connection and flushes it through \<^verbatim>\<open>sessionConnWriter\<close>. The request reader and
  that writer keep the statistics of the session, which nothing but their getters reads; they are
  updated together with the call that is counted. Lemmas: every run of the system is a run of the session.
\<close>

section \<open>The system\<close>

text \<open>
  \<open>v_calling\<close>: the submitter's call of \<^verbatim>\<open>Enqueue\<close> is in its select. \<open>v_net\<close> is the state of the
  \<^verbatim>\<open>net.Conn\<close>, with its \<^verbatim>\<open>Write\<close> given by \<open>net_Write\<close>; \<open>v_src\<close> is what its reads will deliver. \<open>v_pending\<close> is
  \<^verbatim>\<open>pendingBytes\<close> of the writer.
\<close>

record ('e, 'n) served =
  v_rt :: runtime
  v_d :: dispatcher
  v_calling :: bool
  v_conn :: conn
  v_src :: "'e source"
  v_net :: 'n
  v_pending :: int64

definition waiting_hands :: "runtime \<Rightarrow> hand_pc list" where
  "waiting_hands rt = filter (\<lambda>h. \<exists>k. h = H_wait k) (rt_hand rt)"

text \<open>
  The result channel of request \<open>k\<close> is \<open>ch k\<close>; the channels of other sessions are not among these. The
  requests that wait in \<^verbatim>\<open>Enqueue\<close> are the other sessions', but for the submitter's own call.
\<close>

definition own_request :: "(nat \<Rightarrow> nat) \<Rightarrow> request \<Rightarrow> bool" where
  "own_request ch r \<longleftrightarrow> (\<exists>k. req_Result r = Some (ch k))"

definition foreign_action :: "(nat \<Rightarrow> nat) \<Rightarrow> d_action \<Rightarrow> dispatcher \<Rightarrow> bool" where
  "foreign_action ch act d =
     (case act of
        D_enqueue (Some r) \<Rightarrow> \<not> own_request ch r
      | D_send i \<Rightarrow> i < length (d_senders d) \<longrightarrow> \<not> own_request ch (d_senders d ! i)
      | D_abort i \<Rightarrow> i < length (d_senders d) \<longrightarrow> \<not> own_request ch (d_senders d ! i)
      | D_receive c \<Rightarrow> c \<notin> range ch
      | _ \<Rightarrow> True)"

text \<open>
  The steps in which the session calls nothing outside it, and those of callers of \<^verbatim>\<open>Stop\<close> and \<^verbatim>\<open>CloseNow\<close>:
  nobody but the request reader and the writer counts requests and bytes.
\<close>

definition statistics :: "session \<Rightarrow> 64 word \<times> 64 word \<times> 64 word" where
  "statistics s = (CommandsCount s, BytesReadCount s, BytesWrittenCount s)"

lemmas statistics_getters = CommandsCount_def BytesReadCount_def BytesWrittenCount_def

inductive session_alone :: "runtime \<Rightarrow> s_event list \<Rightarrow> runtime \<Rightarrow> bool" for rt where
  read_alone: "read_step rt ev rt' \<Longrightarrow> (\<forall>k. rt_read rt \<noteq> R_reading k) \<Longrightarrow> (\<forall>k v. rt_read rt \<noteq> R_submit k v) \<Longrightarrow>
    session_alone rt ev rt'"
| write_alone: "write_step rt ev rt' \<Longrightarrow> (\<forall>b v. rt_write rt \<noteq> Wr_write b v) \<Longrightarrow> (\<forall>b. rt_write rt \<noteq> Wr_flush b) \<Longrightarrow>
    session_alone rt ev rt'"
| hand_alone: "hand_step rt ev rt' \<Longrightarrow> waiting_hands rt' = waiting_hands rt \<Longrightarrow> session_alone rt ev rt'"
| sup_alone: "sup_step rt ev rt' \<Longrightarrow> session_alone rt ev rt'"
| caller_alone: "caller_step rt ev rt' \<Longrightarrow> statistics (rt_session rt') = statistics (rt_session rt) \<Longrightarrow>
    session_alone rt ev rt'"

inductive served_step ::
  "(bytes \<Rightarrow> bytes) \<Rightarrow> (nat \<Rightarrow> nat) \<Rightarrow> scope_get \<Rightarrow> ('n \<Rightarrow> bytes \<Rightarrow> 'n \<times> 'e option) \<Rightarrow>
    ('e, 'n) served \<Rightarrow> s_event list \<Rightarrow> ('e, 'n) served \<Rightarrow> bool"
  for uni ch get net_Write st where
  alone: "session_alone (v_rt st) ev rt' \<Longrightarrow> served_step uni ch get net_Write st ev (st\<lparr>v_rt := rt'\<rparr>)"
| dispatch: "d_act uni act (v_d st) = Some (d', dev) \<Longrightarrow> foreign_action ch act (v_d st) \<Longrightarrow>
    served_step uni ch get net_Write st [] (st\<lparr>v_d := d'\<rparr>)"
| read_fails: "rt_read (v_rt st) = R_reading k \<Longrightarrow>
    read_request deadline_err get now (rt_session (v_rt st)) (v_conn st) (v_src st) = (Read_error e, s', c', src') \<Longrightarrow>
    served_step uni ch get net_Write st [Scope_closed k]
      (st\<lparr>v_rt := v_rt st\<lparr>rt_session := s', rt_read := R_return\<rparr>, v_conn := c', v_src := src'\<rparr>)"
| read_value: "rt_read (v_rt st) = R_reading k \<Longrightarrow>
    read_request deadline_err get now (rt_session (v_rt st)) (v_conn st) (v_src st) = (Read_value pv, s', c', src') \<Longrightarrow>
    served_step uni ch get net_Write st []
      (st\<lparr>v_rt := v_rt st\<lparr>rt_session := s', rt_read := R_got k (resolve [] pv)\<rparr>, v_conn := c', v_src := src'\<rparr>)"
| call: "rt_read (v_rt st) = R_submit k x \<Longrightarrow> \<not> v_calling st \<Longrightarrow>
    d_act uni (D_enqueue (Some (make_request uni (rt_session (v_rt st)) (ch k) x))) (v_d st) = Some (d', []) \<Longrightarrow>
    served_step uni ch get net_Write st [] (st\<lparr>v_d := d', v_calling := True\<rparr>)"
| call_refused: "rt_read (v_rt st) = R_submit k x \<Longrightarrow> \<not> v_calling st \<Longrightarrow>
    d_act uni (D_enqueue (Some (make_request uni (rt_session (v_rt st)) (ch k) x))) (v_d st) =
      Some (d', [Refused rq e]) \<Longrightarrow>
    served_step uni ch get net_Write st [Scope_closed k]
      (st\<lparr>v_rt := on_session (add_inflight (- 1)) (v_rt st)\<lparr>rt_read := R_return\<rparr>, v_d := d'\<rparr>)"
| sent: "rt_read (v_rt st) = R_submit k x \<Longrightarrow> v_calling st \<Longrightarrow>
    d_act uni (D_send i) (v_d st) = Some (d', [Accepted r]) \<Longrightarrow> req_Result r = Some (ch k) \<Longrightarrow>
    served_step uni ch get net_Write st [Submitted k x]
      (st\<lparr>v_rt := v_rt st\<lparr>rt_read := R_check, rt_hand := rt_hand (v_rt st) @ [H_wait k]\<rparr>,
         v_d := d', v_calling := False\<rparr>)"
| call_aborted: "rt_read (v_rt st) = R_submit k x \<Longrightarrow> v_calling st \<Longrightarrow>
    d_act uni (D_abort i) (v_d st) = Some (d', [Refused (Some r) e]) \<Longrightarrow> req_Result r = Some (ch k) \<Longrightarrow>
    served_step uni ch get net_Write st [Scope_closed k]
      (st\<lparr>v_rt := on_session (add_inflight (- 1)) (v_rt st)\<lparr>rt_read := R_return\<rparr>, v_d := d',
         v_calling := False\<rparr>)"
| answered: "rt_hand (v_rt st) = hs @ H_wait k # hs' \<Longrightarrow>
    d_act uni (D_receive (ch k)) (v_d st) = Some (d', [Received (ch k) v]) \<Longrightarrow>
    served_step uni ch get net_Write st [Answered k v]
      (st\<lparr>v_rt := v_rt st\<lparr>rt_hand := hs @ H_check k v # hs'\<rparr>, v_d := d'\<rparr>)"
| written: "rt_write (v_rt st) = Wr_write b v \<Longrightarrow> conn_free (v_rt st) \<Longrightarrow>
    session_Write v (v_conn st, v_pending st) = ((c', p'), None :: 'e option) \<Longrightarrow>
    served_step uni ch get net_Write st [Written (last b) v]
      (st\<lparr>v_rt := v_rt st\<lparr>rt_write := Wr_more b\<rparr>, v_conn := c', v_pending := p'\<rparr>)"
| write_fails: "rt_write (v_rt st) = Wr_write b v \<Longrightarrow> conn_free (v_rt st) \<Longrightarrow>
    session_Write v (v_conn st, v_pending st) = ((c', p'), Some (e :: 'e)) \<Longrightarrow>
    served_step uni ch get net_Write st (map Scope_closed b)
      (st\<lparr>v_rt := v_rt st\<lparr>rt_write := Wr_gone\<rparr>, v_conn := c', v_pending := p'\<rparr>)"
| flushed: "rt_write (v_rt st) = Wr_flush b \<Longrightarrow> conn_free (v_rt st) \<Longrightarrow>
    session_Flush net_Write (rt_session (v_rt st)) (v_conn st, v_pending st) (v_net st) = (s', (c', p'), n', None) \<Longrightarrow>
    served_step uni ch get net_Write st (Flushed # map Scope_closed b)
      (st\<lparr>v_rt := v_rt st\<lparr>rt_session := s', rt_write := Wr_top\<rparr>, v_conn := c', v_net := n', v_pending := p'\<rparr>)"
| flush_fails: "rt_write (v_rt st) = Wr_flush b \<Longrightarrow> conn_free (v_rt st) \<Longrightarrow>
    session_Flush net_Write (rt_session (v_rt st)) (v_conn st, v_pending st) (v_net st) = (s', (c', p'), n', Some fe) \<Longrightarrow>
    served_step uni ch get net_Write st (map Scope_closed b)
      (st\<lparr>v_rt := v_rt st\<lparr>rt_session := s', rt_write := Wr_gone\<rparr>, v_conn := c', v_net := n', v_pending := p'\<rparr>)"

inductive served_run ::
  "(bytes \<Rightarrow> bytes) \<Rightarrow> (nat \<Rightarrow> nat) \<Rightarrow> scope_get \<Rightarrow> ('n \<Rightarrow> bytes \<Rightarrow> 'n \<times> 'e option) \<Rightarrow>
    ('e, 'n) served \<Rightarrow> s_event list \<Rightarrow> ('e, 'n) served \<Rightarrow> bool"
  for uni ch get net_Write st0 where
  served_init: "served_run uni ch get net_Write st0 [] st0"
| served_more: "served_run uni ch get net_Write st0 tr st \<Longrightarrow> served_step uni ch get net_Write st ev st' \<Longrightarrow>
    served_run uni ch get net_Write st0 (tr @ ev) st'"

text \<open>A connection just accepted by a server that has a dispatcher: nothing read, written or asked yet.\<close>

definition serve_start ::
  "config \<Rightarrow> registry \<Rightarrow> nat \<Rightarrow> 64 word \<Rightarrow> 'e source \<Rightarrow> 'n \<Rightarrow> ('e, 'n) served" where
  "serve_start cfg reg now nextID src n =
     \<lparr>v_rt = serve_runtime cfg 0 (Some 0) (fst (Allocate now nextID)),
      v_d = NewDispatcher reg (cf_DispatcherWorkers cfg) (cf_QueueSize cfg) (\<lambda>c. make_chan 1),
      v_calling = False, v_conn = NewConn None None, v_src = src, v_net = n,
      v_pending = 0\<rparr>"

section \<open>What the statistics take part in\<close>

lemma read_request_error:
  "read_request deadline_err get now s c src = (Read_error e, s', c', src') \<Longrightarrow>
    s' = s \<and> (c' = c \<and> src' = src \<or> Conn_Read (Some get) c src = (Read_error e, c', src'))"
  by (auto simp: read_request_def split: option.splits prod.splits read_outcome.splits)

lemma read_request_value:
  "read_request deadline_err get now s c src = (Read_value pv, s', c', src') \<Longrightarrow>
    Conn_Read (Some get) c src = (Read_value pv, c', src') \<and>
    s' = AddBytesRead (word_of_nat (length (encode (resolve [] pv)))) (IncrementCommands (UpdateLastSeen now s))"
  by (auto simp: read_request_def split: option.splits prod.splits read_outcome.splits)

lemma session_Write_ok:
  "session_Write v (c, p) = ((c', p'), None :: 'e option) \<Longrightarrow>
    Conn_Write c v = (c', None :: 'e option) \<and> p' = p + word_of_nat (length (encode v))"
  by (auto simp: session_Write_def split: prod.splits option.splits)

lemma session_Write_takes: "session_Write v cw \<noteq> (cw', Some e)"
  by (cases cw) (simp add: session_Write_def Conn_Write_buf)

lemma session_Flush_ok:
  "session_Flush net_Write s (c, p) n = (s', (c', p'), n', None) \<Longrightarrow>
    Conn_Flush net_Write c n = (c', n', None) \<and>
    (if 0 < sint p then s' = AddBytesWritten p s \<and> p' = 0 else s' = s \<and> p' = p)"
  by (auto simp: session_Flush_def split: prod.splits option.splits if_splits)

lemma session_Flush_error:
  "session_Flush net_Write s (c, p) n = (s', (c', p'), n', Some e) \<Longrightarrow>
    Conn_Flush net_Write c n = (c', n', Some e) \<and> s' = s \<and> p' = p"
  by (auto simp: session_Flush_def split: prod.splits option.splits if_splits)

section \<open>Every run is a run of the session\<close>

lemma s_run_then: "s_run rt1 m ev rt2 \<Longrightarrow> s_run rt0 n tr rt1 \<Longrightarrow> \<exists>n. s_run rt0 n (tr @ ev) rt2"
proof (induction rule: s_run.induct)
  case s_init
  then show ?case by auto
qed (metis append_assoc s_own, metis append_assoc s_caller)

lemma session_alone_step: "session_alone rt ev rt' \<Longrightarrow> own_step rt ev rt' \<or> caller_step rt ev rt'"
  by (induction rule: session_alone.cases) (simp_all add: own_step_def)

lemma s_run_one: "own_step rt ev rt' \<or> caller_step rt ev rt' \<Longrightarrow> \<exists>n. s_run rt n ev rt'"
  using s_own [OF s_init] s_caller [OF s_init] by fastforce

lemma s_run_counted:
  "read_step (on_session (\<lambda>s. AddBytesRead m (IncrementCommands (UpdateLastSeen t s))) rt) ev rt' \<Longrightarrow>
    \<exists>n. s_run rt n ev rt'"
  "write_step (on_session (AddBytesWritten m) rt) ev rt' \<Longrightarrow> \<exists>n. s_run rt n ev rt'"
proof -
  have read: "s_run rt 0 [] (on_session (\<lambda>s. AddBytesRead m (IncrementCommands (UpdateLastSeen t s))) rt)"
    using s_caller [OF s_caller [OF s_caller [OF s_init last_seen [of rt t]] command] bytes_read [of _ m]]
    by (simp add: on_session_def)
  then show "read_step (on_session (\<lambda>s. AddBytesRead m (IncrementCommands (UpdateLastSeen t s))) rt) ev rt' \<Longrightarrow>
      \<exists>n. s_run rt n ev rt'"
    using s_own [OF read] by (fastforce simp: own_step_def)
  have written: "s_run rt 0 [] (on_session (AddBytesWritten m) rt)"
    using s_caller [OF s_init bytes_written [of rt m]] by simp
  then show "write_step (on_session (AddBytesWritten m) rt) ev rt' \<Longrightarrow> \<exists>n. s_run rt n ev rt'"
    using s_own [OF written] by (fastforce simp: own_step_def)
qed

lemma served_step_session:
  assumes "served_step uni ch get net_Write st ev st'"
  shows "\<exists>n. s_run (v_rt st) n ev (v_rt st')"
  using assms
proof (induction rule: served_step.cases)
  case (alone ev rt')
  then show ?case using session_alone_step [OF alone(3)] s_run_one by simp
next
  case (read_value k derr now pv s' c' src')
  let ?rt = "on_session (\<lambda>s. AddBytesRead (word_of_nat (length (encode (resolve [] pv))))
    (IncrementCommands (UpdateLastSeen now s))) (v_rt st)"
  have "read_step ?rt [] (?rt\<lparr>rt_read := R_got k (resolve [] pv)\<rparr>)"
    by (rule read_ok) (simp add: on_session_def read_value(3))
  then show ?case
    using s_run_counted(1) read_request_value [OF read_value(4)] read_value(1,2) by (simp add: on_session_def)
next
  case (flushed b s' c' p' n')
  let ?rt = "if 0 < sint (v_pending st) then on_session (AddBytesWritten (v_pending st)) (v_rt st) else v_rt st"
  have step: "write_step ?rt (Flushed # map Scope_closed b) (?rt\<lparr>rt_write := Wr_top\<rparr>)"
    by (rule flush_ok) (use flushed(3,4) in \<open>simp_all add: on_session_def conn_free_def\<close>)
  have "v_rt st' = ?rt\<lparr>rt_write := Wr_top\<rparr>"
    using session_Flush_ok [OF flushed(5)] flushed(2) by (simp add: on_session_def split: if_splits)
  then show ?case
    using step s_run_counted(2) s_run_one flushed(1) by (auto simp: own_step_def split: if_splits)
next
  case (answered hs k hs' d' v)
  then show ?case using hand_step.result [of "v_rt st" hs k hs' v] s_run_one by (simp add: own_step_def)
next
  case dispatch
  then show ?case using s_init by auto
next
  case call
  then show ?case using s_init by auto
qed (auto simp: own_step_def dest!: read_request_error session_Flush_error session_Write_ok
    intro!: s_run_one intro: read_step.intros write_step.intros s_init)

lemma served_run_session: "served_run uni ch get net_Write st0 tr st \<Longrightarrow> \<exists>n. s_run (v_rt st0) n tr (v_rt st)"
proof (induction rule: served_run.induct)
  case served_init
  show ?case using s_init by blast
next
  case (served_more tr st ev st')
  then show ?case using served_step_session [OF served_more(2)] s_run_then by blast
qed

section \<open>Invariants of the system\<close>

text \<open>What it takes for a property of the events of the session and the state to hold in every run.\<close>

locale served_invariant =
  fixes uni :: "bytes \<Rightarrow> bytes" and ch :: "nat \<Rightarrow> nat" and get :: scope_get
    and net_Write :: "'n \<Rightarrow> bytes \<Rightarrow> 'n \<times> 'e option"
    and I :: "s_event list \<Rightarrow> ('e, 'n) served \<Rightarrow> bool"
  assumes keep: "served_step uni ch get net_Write st ev st' \<Longrightarrow> I tr st \<Longrightarrow> I (tr @ ev) st'"
begin

lemma continues: "served_run uni ch get net_Write st0 tr st \<Longrightarrow> I tr0 st0 \<Longrightarrow> I (tr0 @ tr) st"
  by (induction rule: served_run.induct) (auto intro: keep simp flip: append_assoc)

lemma always: "served_run uni ch get net_Write st0 tr st \<Longrightarrow> I [] st0 \<Longrightarrow> I tr st"
  using continues [of st0 tr st "[]"] by simp

end

end
