(* ===== verification/Served_Invariants.thy ===== *)
theory Served_Invariants
  imports Served_Connection
begin

text \<open>
  The invariants of a session at work, each proved for every step of the system: the submitter has at
  most one call of \<^verbatim>\<open>Enqueue\<close> open and the result channels of the session carry the answers of the commands
  to its requests; what was written is what the network got and what the buffer holds; what was read are
  the requests the client sent; responses are dropped only by a session that is to stop.
\<close>

section \<open>Answers come from the commands\<close>

lemma make_request_cong: "s_ID s = s_ID s' \<Longrightarrow> make_request uni s c x = make_request uni s' c x"
  by (simp add: make_request_def)

lemma make_request_Result [simp]: "req_Result (make_request uni s c x) = Some c"
  by (simp add: make_request_def)

lemma ID_kept:
  "read_step rt ev rt' \<Longrightarrow> s_ID (rt_session rt') = s_ID (rt_session rt)"
  "write_step rt ev rt' \<Longrightarrow> s_ID (rt_session rt') = s_ID (rt_session rt)"
  "hand_step rt ev rt' \<Longrightarrow> s_ID (rt_session rt') = s_ID (rt_session rt)"
  "sup_step rt ev rt' \<Longrightarrow> s_ID (rt_session rt') = s_ID (rt_session rt)"
  "caller_step rt ev rt' \<Longrightarrow> s_ID (rt_session rt') = s_ID (rt_session rt)"
  by (auto elim!: read_step.cases write_step.cases hand_step.cases sup_step.cases caller_step.cases
      simp: session_ops Let_def split: if_splits)

text \<open>What the session does alone.\<close>

lemma alone_ID: "session_alone rt ev rt' \<Longrightarrow> s_ID (rt_session rt') = s_ID (rt_session rt)"
  by (induction rule: session_alone.cases) (simp_all add: ID_kept)

lemma alone_submits: "session_alone rt ev rt' \<Longrightarrow> submits ev = []"
proof (induction rule: session_alone.cases)
  case (read_alone ev rt')
  then show ?case by (auto elim!: read_step.cases)
qed (auto dest: step_submits simp: reads_alone_def)

lemma alone_answered: "session_alone rt ev rt' \<Longrightarrow> Answered k v \<notin> set ev"
proof (induction rule: session_alone.cases)
  case (hand_alone ev rt')
  then show ?case by (auto elim!: hand_step.cases simp: waiting_hands_def)
qed (auto elim!: read_step.cases write_step.cases sup_step.cases caller_step.cases)

lemma alone_submitting:
  "session_alone rt ev rt' \<Longrightarrow> rt_read rt = R_submit k x \<Longrightarrow> rt_read rt' = R_submit k x"
  by (induction rule: session_alone.cases) (auto dest: step_submits simp: reads_alone_def)

text \<open>The submitter's call is the only one for a channel of this session.\<close>

definition own_calls :: "(bytes \<Rightarrow> bytes) \<Rightarrow> (nat \<Rightarrow> nat) \<Rightarrow> ('e, 'n) served \<Rightarrow> request multiset" where
  "own_calls uni ch st =
     (case rt_read (v_rt st) of
        R_submit k x \<Rightarrow> if v_calling st then {#make_request uni (rt_session (v_rt st)) (ch k) x#} else {#}
      | _ \<Rightarrow> {#})"

definition call_inv :: "(bytes \<Rightarrow> bytes) \<Rightarrow> (nat \<Rightarrow> nat) \<Rightarrow> ('e, 'n) served \<Rightarrow> bool" where
  "call_inv uni ch st \<longleftrightarrow>
     filter_mset (own_request ch) (mset (d_senders (v_d st))) = own_calls uni ch st \<and>
     (v_calling st \<longrightarrow> (\<exists>k x. rt_read (v_rt st) = R_submit k x))"

definition accepted_own :: "(bytes \<Rightarrow> bytes) \<Rightarrow> (nat \<Rightarrow> nat) \<Rightarrow> session \<Rightarrow> s_event list \<Rightarrow> request \<Rightarrow> bool" where
  "accepted_own uni ch s tr r \<longleftrightarrow>
     (\<forall>k. req_Result r = Some (ch k) \<longrightarrow> (\<exists>x. Submitted k x \<in> set tr \<and> r = make_request uni s (ch k) x))"

definition answer_inv ::
  "(bytes \<Rightarrow> bytes) \<Rightarrow> (nat \<Rightarrow> nat) \<Rightarrow> registry \<Rightarrow> session \<Rightarrow> s_event list \<Rightarrow> ('e, 'n) served \<Rightarrow> bool" where
  "answer_inv uni ch reg s tr st \<longleftrightarrow>
     s_ID (rt_session (v_rt st)) = s_ID s \<and> d_answers uni reg (accepted_own uni ch s tr) (v_d st) \<and>
     (\<forall>k v. Answered k v \<in> set tr \<longrightarrow>
        (\<exists>x. Submitted k x \<in> set tr \<and> command_answer uni reg (make_request uni s (ch k) x) v))"

lemma add_filter_mset:
  "add_mset a M = N \<Longrightarrow> filter_mset P N = (if P a then add_mset a (filter_mset P M) else filter_mset P M)"
  by auto

lemma filter_mset_last:
  assumes "add_mset a M = N" and "P a" and "filter_mset P N = {#b#}"
  shows "filter_mset P M = {#}"
  using assms by (metis add_filter_mset single_eq_add_mset)

lemma call_inv_foreign:
  assumes "d_act uni act d = Some (d', ev)" and "foreign_action ch act d"
  shows "filter_mset (own_request ch) (mset (d_senders d')) = filter_mset (own_request ch) (mset (d_senders d))"
proof -
  note senders = d_act_senders [OF assms(1)]
  show ?thesis
  proof (cases act)
    case (D_enqueue req)
    with senders show ?thesis
      using assms(2) d_actE [OF assms(1)]
      by (cases req) (auto simp: foreign_action_def enqueue_begin_def enqueue_check_def split: if_splits)
  next
    case (D_send i)
    with senders show ?thesis using assms(2) add_filter_mset [of "d_senders d ! i"]
      by (fastforce simp: foreign_action_def)
  next
    case (D_abort i)
    with senders show ?thesis using assms(2) add_filter_mset [of "d_senders d ! i"]
      by (fastforce simp: foreign_action_def)
  qed (use senders in simp_all)
qed

text \<open>The step of every rule, as far as the calls and the answers go.\<close>

lemma call_inv_step:
  assumes "served_step uni ch get net_Write st ev st'" and "call_inv uni ch st" and "inj ch"
  shows "call_inv uni ch st'"
  using assms
proof (induction rule: served_step.cases)
  case (alone ev rt')
  then have "own_calls uni ch st' = own_calls uni ch st"
    using alone_submitting [OF alone(3)] make_request_cong [OF alone_ID [OF alone(3)]]
    by (auto simp: call_inv_def own_calls_def split: read_pc.splits)
  then show ?case using alone alone_submitting [OF alone(3)] by (auto simp: call_inv_def)
next
  case (dispatch act d' dev)
  then show ?case using call_inv_foreign [OF dispatch(3,4)]
    by (simp add: call_inv_def own_calls_def split: read_pc.splits)
next
  case (call k x d')
  have "mset (d_senders d') = add_mset (make_request uni (rt_session (v_rt st)) (ch k) x) (mset (d_senders (v_d st)))"
    using d_act_senders [OF call(5)] by simp
  with call show ?case by (auto simp: call_inv_def own_calls_def own_request_def)
next
  case (call_refused k x d' rq e)
  then show ?case using d_act_senders [OF call_refused(5)] by (simp add: call_inv_def own_calls_def)
next
  case (sent k x i d' r)
  have "add_mset r (mset (d_senders d')) = mset (d_senders (v_d st))"
    using d_act_senders [OF sent(5)] by auto
  moreover have "own_request ch r" using sent(6) by (auto simp: own_request_def)
  ultimately have "filter_mset (own_request ch) (mset (d_senders d')) = {#}"
    using sent(3,4,7) by (intro filter_mset_last) (auto simp: call_inv_def own_calls_def)
  with sent show ?case by (simp add: call_inv_def own_calls_def)
next
  case (call_aborted k x i d' r e)
  have "add_mset r (mset (d_senders d')) = mset (d_senders (v_d st))"
    using d_act_senders [OF call_aborted(5)] by auto
  moreover have "own_request ch r" using call_aborted(6) by (auto simp: own_request_def)
  ultimately have "filter_mset (own_request ch) (mset (d_senders d')) = {#}"
    using call_aborted(3,4,7) by (intro filter_mset_last) (auto simp: call_inv_def own_calls_def)
  with call_aborted show ?case by (simp add: call_inv_def own_calls_def)
next
  case (answered hs k hs' d' v)
  then show ?case using d_act_senders [OF answered(4)]
    by (simp add: call_inv_def own_calls_def split: read_pc.splits)
next
  case (flushed b s' c' p' n')
  have "s_ID s' = s_ID (rt_session (v_rt st))"
    using session_Flush_ok [OF flushed(5)] by (auto simp: session_ops split: if_splits)
  then show ?case using flushed(2,6) make_request_cong [of s'] by (simp add: call_inv_def own_calls_def split: read_pc.splits)
next
  case (flush_fails b s' c' p' n' fe)
  then show ?case
    using session_Flush_error [OF flush_fails(5)] by (simp add: call_inv_def own_calls_def split: read_pc.splits)
qed (auto simp: call_inv_def own_calls_def split: read_pc.splits)

lemma own_sender:
  assumes "call_inv uni ch st" and "rt_read (v_rt st) = R_submit k x"
    and "r \<in># mset (d_senders (v_d st))" and "req_Result r = Some (ch k')"
  shows "r = make_request uni (rt_session (v_rt st)) (ch k) x"
proof -
  have "r \<in># filter_mset (own_request ch) (mset (d_senders (v_d st)))" using assms(3,4) by (auto simp: own_request_def)
  then have "r \<in># own_calls uni ch st" using assms(1) by (metis call_inv_def)
  then show ?thesis using assms(2) by (simp add: own_calls_def split: if_splits)
qed

lemma answer_inv_alone:
  assumes "answer_inv uni ch reg s tr st" and "s_ID (rt_session (v_rt st')) = s_ID (rt_session (v_rt st))"
    and "v_d st' = v_d st" and "submits ev = []" and "\<And>k v. Answered k v \<notin> set ev"
  shows "answer_inv uni ch reg s (tr @ ev) st'"
proof -
  have "Submitted k x \<in> set (tr @ ev) \<longleftrightarrow> Submitted k x \<in> set tr" for k x
    using assms(4) submits_iff [of k x ev] by simp
  moreover from this have "accepted_own uni ch s (tr @ ev) = accepted_own uni ch s tr"
    by (simp add: accepted_own_def fun_eq_iff)
  ultimately show ?thesis using assms by (simp add: answer_inv_def)
qed

lemma answer_inv_act:
  assumes "answer_inv uni ch reg s tr st" and "s_ID (rt_session (v_rt st')) = s_ID (rt_session (v_rt st))"
    and "d_act uni act (v_d st) = Some (v_d st', dev)"
    and "\<And>r. Accepted r \<in> set dev \<Longrightarrow> accepted_own uni ch s (tr @ ev) r"
    and "\<And>k v. Answered k v \<in> set ev \<Longrightarrow> \<exists>r. req_Result r = Some (ch k) \<and> accepted_own uni ch s tr r \<and> command_answer uni reg r v"
  shows "answer_inv uni ch reg s (tr @ ev) st'"
proof -
  have mono: "accepted_own uni ch s tr r \<Longrightarrow> accepted_own uni ch s (tr @ ev) r" for r
    unfolding accepted_own_def by fastforce
  have "d_answers uni reg (accepted_own uni ch s (tr @ ev)) (v_d st)"
    using assms(1) mono unfolding answer_inv_def by (blast intro: d_answers_mono)
  then have "d_answers uni reg (accepted_own uni ch s (tr @ ev)) (v_d st')"
    using d_answers_act [OF assms(3)] assms(4) by blast
  moreover have "\<exists>x. Submitted k x \<in> set (tr @ ev) \<and> command_answer uni reg (make_request uni s (ch k) x) v"
    if "Answered k v \<in> set (tr @ ev)" for k v
  proof (cases "Answered k v \<in> set tr")
    case True
    then show ?thesis using assms(1) unfolding answer_inv_def by fastforce
  next
    case False
    with that assms(5) [of k v] show ?thesis by (auto simp: accepted_own_def)
  qed
  ultimately show ?thesis using assms(1,2) by (simp add: answer_inv_def)
qed

lemma foreign_accepted:
  assumes "d_act uni act d = Some (d', dev)" and "foreign_action ch act d" and "Accepted r \<in> set dev"
  shows "\<not> own_request ch r"
  using d_act_senders [OF assms(1)] assms(2,3)
  by (cases act) (auto simp: foreign_action_def)

lemma answer_inv_step:
  assumes "served_step uni ch get net_Write st ev st'" and "call_inv uni ch st" and "answer_inv uni ch reg s tr st"
    and "inj ch"
  shows "answer_inv uni ch reg s (tr @ ev) st'"
  using assms
proof (induction rule: served_step.cases)
  case (alone ev rt')
  then show ?case
    using answer_inv_alone [OF alone(5), of st' ev] alone_ID [OF alone(3)] alone_submits [OF alone(3)] alone_answered [OF alone(3)]
    by simp
next
  case (dispatch act d' dev)
  have "accepted_own uni ch s (tr @ ev) r" if "Accepted r \<in> set dev" for r
    using foreign_accepted [OF dispatch(3,4) that] by (auto simp: accepted_own_def own_request_def)
  then show ?case using answer_inv_act [OF dispatch(6), of st' act dev ev] dispatch(1-3) by simp
next
  case (call k x d')
  then show ?case using answer_inv_act [OF call(7), of st' _ "[]" ev] by simp
next
  case (call_refused k x d' rq e)
  then show ?case using answer_inv_act [OF call_refused(7), of st' _ "[Refused rq e]" ev] by (simp add: session_ops)
next
  case (sent k x i d' r)
  have "r \<in># mset (d_senders (v_d st))" using d_act_senders [OF sent(5)] by auto
  then have "r = make_request uni (rt_session (v_rt st)) (ch k) x"
    using own_sender [OF sent(7,3) _ sent(6)] by simp
  also have "\<dots> = make_request uni s (ch k) x"
    using sent(8) by (intro make_request_cong) (simp add: answer_inv_def)
  finally have "accepted_own uni ch s (tr @ [Submitted k x]) r"
    using sent(9) by (auto simp: accepted_own_def inj_eq)
  with sent show ?case using answer_inv_act [OF sent(8), of st' _ "[Accepted r]" ev] by simp
next
  case (call_aborted k x i d' r e)
  then show ?case using answer_inv_act [OF call_aborted(8), of st' _ "[Refused (Some r) e]" ev] by (simp add: session_ops)
next
  case (answered hs k hs' d' v)
  have "\<exists>r. accepted_own uni ch s tr r \<and> req_Result r = Some (ch k) \<and> command_answer uni reg r v"
    using d_answers_receive [OF answered(4)] answered(6) by (auto simp: answer_inv_def)
  then show ?case using answer_inv_act [OF answered(6), of st' _ "[Received (ch k) v]" ev] answered(1-4) by auto
next
  case (read_value k derr t pv s' c' src')
  then show ?case
    using answer_inv_alone [OF read_value(6), of st' "[]"] read_request_value [OF read_value(4)]
    by (simp add: session_ops)
qed (auto simp: session_ops dest!: read_request_error session_Flush_ok session_Flush_error
    intro!: answer_inv_alone split: if_splits)

section \<open>What is read and what is sent\<close>

definition io_writer :: "('n \<Rightarrow> bytes \<Rightarrow> 'n \<times> 'e option) \<Rightarrow> ('n \<Rightarrow> bytes) \<Rightarrow> bool" where
  "io_writer net_Write wire_out \<longleftrightarrow>
     (\<forall>n b n' err. net_Write n b = (n', err) \<longrightarrow>
        (\<exists>c. prefix c b \<and> wire_out n' = wire_out n @ c \<and> (err = None \<longrightarrow> c = b)))"

text \<open>What the write loop has written is on the wire or in the buffer, until it gives up.\<close>

definition output_inv :: "('n \<Rightarrow> bytes) \<Rightarrow> bytes \<Rightarrow> s_event list \<Rightarrow> ('e, 'n) served \<Rightarrow> bool" where
  "output_inv wire_out out0 tr st \<longleftrightarrow>
     (let out = out0 @ concat (map encode (map snd (writes tr))) in
      prefix (wire_out (v_net st)) out \<and>
      (rt_write (v_rt st) \<noteq> Wr_gone \<longrightarrow> wire_out (v_net st) @ w_buf (cn_writer (v_conn st)) = out))"

lemma write_kept:
  "read_step rt ev rt' \<Longrightarrow> rt_write rt' = rt_write rt \<and> writes ev = []"
  "hand_step rt ev rt' \<Longrightarrow> rt_write rt' = rt_write rt \<and> writes ev = []"
  "sup_step rt ev rt' \<Longrightarrow> rt_write rt' = rt_write rt \<and> writes ev = []"
  "caller_step rt ev rt' \<Longrightarrow> rt_write rt' = rt_write rt \<and> writes ev = []"
  by (auto elim!: read_step.cases hand_step.cases sup_step.cases caller_step.cases simp: session_ops)

lemma alone_writes:
  "session_alone rt ev rt' \<Longrightarrow> writes ev = [] \<and> (rt_write rt = Wr_gone \<longrightarrow> rt_write rt' = Wr_gone)"
proof (induction rule: session_alone.cases)
  case (write_alone ev rt')
  then show ?case by (auto elim!: write_step.cases)
qed (simp_all add: write_kept)

lemma output_inv_step:
  assumes "served_step uni ch get net_Write st ev st'" and "output_inv wire_out out0 tr st"
    and "io_writer net_Write wire_out"
  shows "output_inv wire_out out0 (tr @ ev) st'"
  using assms
proof (induction rule: served_step.cases)
  case (alone ev rt')
  then show ?case using alone_writes [OF alone(3)] by (auto simp: output_inv_def Let_def)
next
  case (written b v c' p')
  then show ?case
    using session_Write_ok [OF written(5)] by (auto simp: output_inv_def Let_def Conn_Write_buf simp flip: append_assoc)
next
  case (flushed b s' c' p' n')
  have fl: "Flush net_Write (cn_writer (v_conn st)) (v_net st) = (cn_writer c', n', None)"
    using session_Flush_ok [OF flushed(5)] by (auto simp: Conn_Flush_def split: prod.splits)
  then have "w_buf (cn_writer c') = [] \<and> wire_out n' = wire_out (v_net st) @ w_buf (cn_writer (v_conn st))"
    using flushed(7)
    by (auto simp: Flush_def Reset_def io_writer_def Let_def dest: arg_cong [where f = w_buf] split: if_splits prod.splits)
  with flushed show ?case by (auto simp: output_inv_def Let_def)
next
  case (flush_fails b s' c' p' n' fe)
  have "\<exists>c. prefix c (w_buf (cn_writer (v_conn st))) \<and> wire_out n' = wire_out (v_net st) @ c"
    using session_Flush_error [OF flush_fails(5)] flush_fails(7)
    by (fastforce simp: Conn_Flush_def Flush_def io_writer_def Let_def split: if_splits prod.splits)
  then have "prefix (wire_out n') (wire_out (v_net st) @ w_buf (cn_writer (v_conn st)))" by auto
  with flush_fails show ?case by (auto simp: output_inv_def Let_def)
next
  case (write_fails b v c' p' e)
  then show ?case by (simp add: session_Write_takes)
next
  case (read_fails k derr t e s' c' src')
  then show ?case
    using read_request_error [OF read_fails(4)] by (auto simp: output_inv_def Let_def Conn_Read_def split: prod.splits)
next
  case (read_value k derr t pv s' c' src')
  then show ?case
    using read_request_value [OF read_value(4)] by (auto simp: output_inv_def Let_def Conn_Read_def split: prod.splits)
qed (auto simp: output_inv_def Let_def session_ops)

text \<open>The values a session has read, and the requests they are.\<close>

fun read_values :: "read_pc \<Rightarrow> rvalue list" where
  "read_values (R_got k v) = [v]"
| "read_values (R_submit k v) = [v]"
| "read_values _ = []"

definition values_read :: "s_event list \<Rightarrow> runtime \<Rightarrow> rvalue list" where
  "values_read tr rt = map snd (submits tr) @ read_values (rt_read rt)"

definition input_inv :: "client_request list \<Rightarrow> s_event list \<Rightarrow> ('e, 'n) served \<Rightarrow> bool" where
  "input_inv rqs tr st \<longleftrightarrow>
     (let vs = values_read tr (v_rt st) in
      prefix vs (map (\<lambda>rq. request_value (fst rq) (snd rq)) rqs) \<and>
      (rt_read (v_rt st) \<notin> {R_return, R_gone} \<longrightarrow>
         prefix (r_buf (cn_reader (v_conn st)) @ source_bytes (v_src st)) (request_bytes (drop (length vs) rqs))))"

lemma alone_values:
  "session_alone rt ev rt' \<Longrightarrow> values_read (tr @ ev) rt' = values_read tr rt \<and>
    (rt_read rt \<in> {R_return, R_gone} \<longrightarrow> rt_read rt' \<in> {R_return, R_gone})"
proof (induction rule: session_alone.cases)
  case (read_alone ev rt')
  then show ?case by (auto elim!: read_step.cases simp: values_read_def)
qed (auto dest!: step_submits simp: reads_alone_def values_read_def)

lemma Conn_writer_reader:
  "Conn_Write c v = (c', err) \<Longrightarrow> cn_reader c' = cn_reader c"
  "Conn_Flush net_Write c n = (c', n', ferr) \<Longrightarrow> cn_reader c' = cn_reader c"
  by (auto simp: Conn_Write_def Conn_Flush_def split: prod.splits)

lemma input_inv_read:
  fixes st :: "('e, 'n) served"
  assumes "input_inv rqs tr st" and "rt_read (v_rt st) = R_reading k"
    and "Conn_Read (Some get) (v_conn st) (v_src st) = (Read_value pv, c', src')"
    and "scope_sized get" and "list_all (request_ok uni) rqs" and "length (request_bytes rqs) < 2 ^ 63 - 2"
  shows "input_inv rqs tr
      (st\<lparr>v_rt := v_rt st\<lparr>rt_session := s', rt_read := R_got k (resolve [] pv)\<rparr>, v_conn := c', v_src := src'\<rparr>)"
    (is "input_inv rqs tr ?st")
proof -
  define n where "n = length (values_read tr (v_rt st))"
  have vs: "values_read tr (v_rt st) = map snd (submits tr)" using assms(2) by (simp add: values_read_def)
  obtain r' where rd: "Read_loop get (cn_reader (v_conn st)) (v_src st) = (Read_value pv, r', src')"
      "c' = (v_conn st)\<lparr>cn_reader := r'\<rparr>"
    using assms(3) by (auto simp: Conn_Read_def Read_def split: prod.splits)
  have inp: "prefix (r_buf (cn_reader (v_conn st)) @ source_bytes (v_src st)) (request_bytes (drop n rqs))"
      "prefix (values_read tr (v_rt st)) (map (\<lambda>rq. request_value (fst rq) (snd rq)) rqs)"
    using assms(1,2) by (simp_all add: input_inv_def Let_def n_def)
  show ?thesis
  proof (cases "drop n rqs")
    case Nil
    then have "r_buf (cn_reader (v_conn st)) = []" "source_bytes (v_src st) = []"
      using inp(1) by (simp_all add: request_bytes_def)
    then show ?thesis using Read_loop_nothing rd(1) by blast
  next
    case (Cons rq rest)
    have bytes: "request_bytes (drop n rqs) = encode (request_value (fst rq) (snd rq)) @ request_bytes rest"
      by (simp add: Cons request_bytes_def)
    have "rq \<in> set rqs" using in_set_dropD [of rq n rqs] Cons by simp
    then have wire: "wire_ok (request_value (fst rq) (snd rq))"
      using assms(5) by (intro request_value_wire) (auto simp: list_all_iff request_ok_def)
    have "request_bytes rqs = request_bytes (take n rqs) @ request_bytes (drop n rqs)"
      unfolding request_bytes_def by (metis append_take_drop_id concat_append map_append)
    then have len: "length (encode (request_value (fst rq) (snd rq)) @ request_bytes rest) < 2 ^ 63 - 2"
      using assms(6) bytes by simp
    note parsed = Read_loop_prefix [OF wire assms(4) len inp(1) [unfolded bytes] rd(1), of "[]"]
    have "n < length rqs" using Cons by (metis drop_all not_less list.distinct(1))
    then have "take (Suc n) rqs = take n rqs @ [rq]" "drop (Suc n) rqs = rest"
      using Cons Cons_nth_drop_Suc [of n rqs] by (auto simp: take_Suc_conv_app_nth)
    moreover have "map snd (submits tr) = map (\<lambda>rq. request_value (fst rq) (snd rq)) (take n rqs)"
      using inp(2) by (auto simp: n_def vs prefix_def simp flip: take_map)
    moreover have "resolve [] pv = request_value (fst rq) (snd rq)"
      using parsed by (simp add: request_value_wire)
    ultimately have new: "values_read tr (v_rt ?st) = map (\<lambda>rq. request_value (fst rq) (snd rq)) (take (Suc n) rqs)"
        "drop (Suc n) rqs = rest"
      by (simp_all add: values_read_def)
    have len: "length (values_read tr (v_rt ?st)) = Suc n" using \<open>n < length rqs\<close> unfolding new(1) by simp
    have "prefix (values_read tr (v_rt ?st)) (map (\<lambda>rq. request_value (fst rq) (snd rq)) rqs)"
      unfolding new(1) by (metis take_is_prefix take_map)
    moreover have "prefix (r_buf r' @ source_bytes src') (request_bytes rest)"
      using parsed inp(1) bytes by auto
    ultimately show ?thesis
      unfolding input_inv_def Let_def len new(2) by (simp add: rd(2))
  qed
qed

lemma input_inv_kept:
  assumes "input_inv rqs tr st" and "values_read (tr @ ev) (v_rt st') = values_read tr (v_rt st)"
    and "rt_read (v_rt st) \<in> {R_return, R_gone} \<longrightarrow> rt_read (v_rt st') \<in> {R_return, R_gone}"
    and "cn_reader (v_conn st') = cn_reader (v_conn st)" and "v_src st' = v_src st"
  shows "input_inv rqs (tr @ ev) st'"
  using assms by (auto simp: input_inv_def Let_def)

lemma input_inv_end:
  assumes "input_inv rqs tr st" and "submits ev = []" and "rt_read (v_rt st') = R_return"
  shows "input_inv rqs (tr @ ev) st'"
  using assms by (auto simp: input_inv_def Let_def values_read_def dest: append_prefixD)

lemma input_inv_step:
  assumes "served_step uni ch get net_Write st ev st'" and "input_inv rqs tr st"
    and "scope_sized get" and "list_all (request_ok uni) rqs" and "length (request_bytes rqs) < 2 ^ 63 - 2"
  shows "input_inv rqs (tr @ ev) st'"
  using assms
proof (induction rule: served_step.cases)
  case (alone ev rt')
  then show ?case using alone_values [OF alone(3), of tr] input_inv_kept [OF alone(4), of ev st'] by simp
next
  case (read_value k derr t pv s' c' src')
  then show ?case
    using input_inv_read [OF read_value(5,3) _ read_value(6-8)] read_request_value [OF read_value(4)] by simp
next
  case (sent k x i d' r)
  then show ?case using input_inv_kept [OF sent(7), of ev st'] by (simp add: values_read_def)
next
  case (written b v c' p')
  then show ?case
    using input_inv_kept [OF written(6), of ev st'] Conn_writer_reader(1) [OF conjunct1 [OF session_Write_ok [OF written(5)]]] by (simp add: values_read_def)
next
  case (write_fails b v c' p' e)
  then show ?case by (simp add: session_Write_takes)
next
  case (flushed b s' c' p' n')
  then show ?case
    using input_inv_kept [OF flushed(6), of ev st'] Conn_writer_reader(2) [OF conjunct1 [OF session_Flush_ok [OF flushed(5)]]]
    by (simp add: values_read_def)
next
  case (flush_fails b s' c' p' n' fe)
  then show ?case
    using input_inv_kept [OF flush_fails(6), of ev st'] Conn_writer_reader(2) [OF conjunct1 [OF session_Flush_error [OF flush_fails(5)]]]
    by (simp add: values_read_def)
next
  case (answered hs k hs' d' v)
  then show ?case using input_inv_kept [OF answered(5), of ev st'] by (simp add: values_read_def)
next
  case (dispatch act d' dev)
  then show ?case using input_inv_kept [OF dispatch(5), of ev st'] by (simp add: values_read_def)
next
  case (call k x d')
  then show ?case using input_inv_kept [OF call(6), of ev st'] by (simp add: values_read_def)
next
  case (read_fails k derr t e s' c' src')
  then show ?case using input_inv_end [OF read_fails(5), of ev st'] by simp
next
  case (call_refused k x d' rq e)
  then show ?case using input_inv_end [OF call_refused(6), of ev st'] by simp
next
  case (call_aborted k x i d' r e)
  then show ?case using input_inv_end [OF call_aborted(7), of ev st'] by simp
qed

text \<open>A response is dropped only when the session is to stop.\<close>

definition stopping :: "runtime \<Rightarrow> bool" where
  "stopping rt \<longleftrightarrow> s_stopCh (rt_session rt) \<or> ShouldStop (rt_session rt)"

lemma stopping_kept:
  "read_step rt ev rt' \<Longrightarrow> stopping rt \<Longrightarrow> stopping rt'"
  "write_step rt ev rt' \<Longrightarrow> stopping rt \<Longrightarrow> stopping rt'"
  "hand_step rt ev rt' \<Longrightarrow> stopping rt \<Longrightarrow> stopping rt'"
  "sup_step rt ev rt' \<Longrightarrow> stopping rt \<Longrightarrow> stopping rt'"
  "caller_step rt ev rt' \<Longrightarrow> stopping rt \<Longrightarrow> stopping rt'"
  by (auto elim!: read_step.cases write_step.cases hand_step.cases sup_step.cases caller_step.cases
      simp: stopping_def ShouldStop_def IsClosed_def session_ops Let_def split: if_splits)

lemma dropped_by:
  "read_step rt ev rt' \<Longrightarrow> log_of dropped_ev ev = []"
  "sup_step rt ev rt' \<Longrightarrow> log_of dropped_ev ev = []"
  "caller_step rt ev rt' \<Longrightarrow> log_of dropped_ev ev = []"
  "hand_step rt ev rt' \<Longrightarrow> waiting_hands rt' = waiting_hands rt \<Longrightarrow> log_of dropped_ev ev = [] \<or> stopping rt"
  by (auto elim!: read_step.cases hand_step.cases sup_step.cases caller_step.cases
      simp: stopping_def waiting_hands_def)

interpretation stops: session_invariant "\<lambda>tr. stopping"
  by unfold_locales (simp_all add: stopping_kept)

definition drop_inv :: "s_event list \<Rightarrow> ('e, 'n) served \<Rightarrow> bool" where
  "drop_inv tr st \<longleftrightarrow> (log_of dropped_ev tr \<noteq> [] \<longrightarrow> stopping (v_rt st))"

lemma drop_inv_step:
  assumes "served_step uni ch get net_Write st ev st'" and "drop_inv tr st"
  shows "drop_inv (tr @ ev) st'"
proof -
  have "stopping (v_rt st) \<longrightarrow> stopping (v_rt st')"
    using served_step_session [OF assms(1)] stops.continues by blast
  moreover have "log_of dropped_ev ev = [] \<or> stopping (v_rt st)"
    using assms(1)
  proof (induction rule: served_step.cases)
    case (alone ev1 rt')
    from alone(3) show ?case
    proof (cases rule: session_alone.cases)
      case hand_alone
      then show ?thesis using dropped_by(4) alone(1) by simp
    qed (simp_all add: alone(1) dropped_by(1-3) write_step_dropped)
  qed simp_all
  ultimately show ?thesis using assms(2) by (auto simp: drop_inv_def)
qed

section \<open>All runs\<close>

lemma serve_start_simps [simp]:
  "v_calling (serve_start cfg reg now nextID src n) = False" "v_src (serve_start cfg reg now nextID src n) = src"
  "v_net (serve_start cfg reg now nextID src n) = n"
  "v_conn (serve_start cfg reg now nextID src n) = NewConn None None"
  "v_d (serve_start cfg reg now nextID src n) =
    NewDispatcher reg (cf_DispatcherWorkers cfg) (cf_QueueSize cfg) (\<lambda>c. make_chan 1)"
  "v_rt (serve_start cfg reg now nextID src n) = serve_runtime cfg 0 (Some 0) (fst (Allocate now nextID))"
  by (simp_all add: serve_start_def)

definition served_inv ::
  "(bytes \<Rightarrow> bytes) \<Rightarrow> (nat \<Rightarrow> nat) \<Rightarrow> registry \<Rightarrow> session \<Rightarrow> client_request list \<Rightarrow> ('n \<Rightarrow> bytes) \<Rightarrow> bytes \<Rightarrow>
    s_event list \<Rightarrow> ('e, 'n) served \<Rightarrow> bool" where
  "served_inv uni ch reg s rqs wire_out out0 tr st \<longleftrightarrow>
     call_inv uni ch st \<and> answer_inv uni ch reg s tr st \<and> output_inv wire_out out0 tr st \<and>
     input_inv rqs tr st \<and> drop_inv tr st"

lemma served_inv_step:
  assumes "served_step uni ch get net_Write st ev st'" and "served_inv uni ch reg s rqs wire_out out0 tr st"
    and "inj ch" and "io_writer net_Write wire_out" and "scope_sized get" and "list_all (request_ok uni) rqs"
    and "length (request_bytes rqs) < 2 ^ 63 - 2"
  shows "served_inv uni ch reg s rqs wire_out out0 (tr @ ev) st'"
  using assms(2) call_inv_step [OF assms(1) _ assms(3)] answer_inv_step [OF assms(1) _ _ assms(3)]
    output_inv_step [OF assms(1) _ assms(4)] input_inv_step [OF assms(1) _ assms(5-7)] drop_inv_step [OF assms(1)]
  by (simp add: served_inv_def)

text \<open>What is asked of the code outside the program and of the client.\<close>

definition served_setting ::
  "(bytes \<Rightarrow> bytes) \<Rightarrow> (nat \<Rightarrow> nat) \<Rightarrow> scope_get \<Rightarrow> ('n \<Rightarrow> bytes \<Rightarrow> 'n \<times> 'e option) \<Rightarrow> ('n \<Rightarrow> bytes) \<Rightarrow>
    client_request list \<Rightarrow> bool" where
  "served_setting uni ch get net_Write wire_out rqs \<longleftrightarrow>
     inj ch \<and> io_writer net_Write wire_out \<and> scope_sized get \<and> list_all (request_ok uni) rqs \<and>
     length (request_bytes rqs) < 2 ^ 63 - 2"

interpretation serving: served_invariant uni ch get net_Write
    "\<lambda>tr st. served_setting uni ch get net_Write wire_out rqs \<longrightarrow> served_inv uni ch reg s rqs wire_out out0 tr st"
  for uni ch get and net_Write :: "'n \<Rightarrow> bytes \<Rightarrow> 'n \<times> 'e option" and wire_out rqs reg s out0
  by unfold_locales (use served_inv_step in \<open>fastforce simp: served_setting_def\<close>)

lemma served_inv_start:
  assumes "prefix (source_bytes src) (request_bytes rqs)"
  shows "served_inv uni ch reg (session_setup cfg 0 (fst (Allocate now nextID))) rqs wire_out (wire_out n) []
    (serve_start cfg reg now nextID src n)"
proof -
  have senders: "d_senders (NewDispatcher reg w q res) = []" for w q res by (simp add: NewDispatcher_def Let_def)
  have answers: "d_answers uni reg acc (NewDispatcher reg w q (\<lambda>c. make_chan m))" for acc w q m
    by (rule d_answers_start) simp
  show ?thesis
    using assms
    by (simp add: served_inv_def call_inv_def own_calls_def answer_inv_def output_inv_def input_inv_def
        drop_inv_def senders answers serve_runtime_def StartLoops_def NewConn_def NewReader_def NewWriter_def
        values_read_def)
qed

text \<open>The reply to the \<open>k\<close>-th request, when its answer has come.\<close>

lemma served_answer:
  assumes "served_inv uni ch reg s rqs wire_out out0 tr st" and "submit_inv tr (v_rt st)"
    and "RegisterBuiltins uni (Some NewRegistry) = Some reg" and "list_all (request_ok uni) rqs"
    and "Answered k v \<in> set tr"
  shows "k < length rqs \<and> v = reply_spec uni (fst (rqs ! k)) (snd (rqs ! k))"
proof -
  obtain x where x: "Submitted k x \<in> set tr" "command_answer uni reg (make_request uni s (ch k) x) v"
    using assms(1,5) by (auto simp: served_inv_def answer_inv_def)
  obtain n where n: "map fst (submits tr) = [0..<n]" using assms(2) by (auto simp: submit_inv_def)
  obtain i where i: "i < length (submits tr)" "submits tr ! i = (k, x)"
    using x(1) by (metis in_set_conv_nth submits_iff)
  have "i < n" "[0..<n] ! i = k" using i by (metis length_map n length_upt diff_zero) (metis i fst_conv n nth_map)
  then have k: "i = k" by simp
  let ?f = "\<lambda>rq. request_value (fst rq) (snd rq)"
  have "prefix (map snd (submits tr)) (map ?f rqs)"
    using assms(1) by (auto simp: served_inv_def input_inv_def values_read_def Let_def dest: append_prefixD)
  then obtain zs where zs: "map ?f rqs = map snd (submits tr) @ zs" by (auto simp: prefix_def)
  have len: "k < length rqs" using arg_cong [OF zs, of length] i(1) k by simp
  have "map ?f rqs ! k = x" using i k by (simp add: zs nth_append)
  then have val: "k < length rqs" "x = ?f (rqs ! k)" using len by simp_all
  have "list_all is_ascii (fst (rqs ! k))" using assms(4) val(1) by (simp add: list_all_length request_ok_def)
  then show ?thesis
    using x(2) val processRequest_reply [OF _ assms(3)]
    by (simp add: command_answer_def make_request_def)
qed

end
