(* ===== verification/Served_Replies.thy ===== *)
theory Served_Replies
  imports Served_Invariants
begin

text \<open>
  What a client of a server sees, whatever the goroutines, the other sessions and the network do: its
  replies, in the order of its requests. Concrete runs of the system are computed by \<open>v_play\<close>.
\<close>

section \<open>Runs computed\<close>

text \<open>The next step of one goroutine, calls included; \<open>V_call\<close> and \<open>V_send\<close>: the submitter's \<^verbatim>\<open>Enqueue\<close>.\<close>

datatype v_choice = V_read | V_write | V_hand | V_call | V_send nat | V_dispatch d_action

fun v_try ::
  "(bytes \<Rightarrow> bytes) \<Rightarrow> (nat \<Rightarrow> nat) \<Rightarrow> scope_get \<Rightarrow> ('n \<Rightarrow> bytes \<Rightarrow> 'n \<times> 'e option) \<Rightarrow> v_choice \<Rightarrow>
    ('e, 'n) served \<Rightarrow> (s_event list \<times> ('e, 'n) served) option" where
  "v_try uni ch get net_Write V_read st =
     (case rt_read (v_rt st) of
        R_reading k \<Rightarrow>
          (case read_request None get 0 (rt_session (v_rt st)) (v_conn st) (v_src st) of
             (Read_value pv, s', c', src') \<Rightarrow>
               Some ([], st\<lparr>v_rt := v_rt st\<lparr>rt_session := s', rt_read := R_got k (resolve [] pv)\<rparr>,
                 v_conn := c', v_src := src'\<rparr>)
           | _ \<Rightarrow> None)
      | R_submit k x \<Rightarrow> None
      | _ \<Rightarrow> map_option (\<lambda>(ev, rt'). (ev, st\<lparr>v_rt := rt'\<rparr>)) (try_read False Null (v_rt st)))"
| "v_try uni ch get net_Write V_write st =
     (case rt_write (v_rt st) of
        Wr_write b v \<Rightarrow>
          (if \<not> conn_free (v_rt st) then None
           else case session_Write v (v_conn st, v_pending st) of
                  ((c', p'), None :: 'e option) \<Rightarrow>
                    Some ([Written (last b) v],
                      st\<lparr>v_rt := v_rt st\<lparr>rt_write := Wr_more b\<rparr>, v_conn := c', v_pending := p'\<rparr>)
                | (cw', Some e) \<Rightarrow> None)
      | Wr_flush b \<Rightarrow>
          (if \<not> conn_free (v_rt st) then None
           else case session_Flush net_Write (rt_session (v_rt st)) (v_conn st, v_pending st) (v_net st) of
                  (s', (c', p'), n', None) \<Rightarrow>
                    Some (Flushed # map Scope_closed b,
                      st\<lparr>v_rt := v_rt st\<lparr>rt_session := s', rt_write := Wr_top\<rparr>, v_conn := c', v_net := n',
                        v_pending := p'\<rparr>)
                | (s', cw', n', Some e) \<Rightarrow> None)
      | _ \<Rightarrow> map_option (\<lambda>(ev, rt'). (ev, st\<lparr>v_rt := rt'\<rparr>)) (try_write False (v_rt st)))"
| "v_try uni ch get net_Write V_hand st =
     (case rt_hand (v_rt st) of
        H_wait k # hs \<Rightarrow>
          (case d_act uni (D_receive (ch k)) (v_d st) of
             Some (d', [Received c v]) \<Rightarrow>
               if c = ch k
               then Some ([Answered k v], st\<lparr>v_rt := v_rt st\<lparr>rt_hand := H_check k v # hs\<rparr>, v_d := d'\<rparr>) else None
           | _ \<Rightarrow> None)
      | _ \<Rightarrow> map_option (\<lambda>(ev, rt'). (ev, st\<lparr>v_rt := rt'\<rparr>)) (try_hand Null (v_rt st)))"
| "v_try uni ch get net_Write V_call st =
     (case rt_read (v_rt st) of
        R_submit k x \<Rightarrow>
          (case d_act uni (D_enqueue (Some (make_request uni (rt_session (v_rt st)) (ch k) x))) (v_d st) of
             Some (d', []) \<Rightarrow> if v_calling st then None else Some ([], st\<lparr>v_d := d', v_calling := True\<rparr>)
           | _ \<Rightarrow> None)
      | _ \<Rightarrow> None)"
| "v_try uni ch get net_Write (V_send i) st =
     (case rt_read (v_rt st) of
        R_submit k x \<Rightarrow>
          (case d_act uni (D_send i) (v_d st) of
             Some (d', [Accepted r]) \<Rightarrow>
               if v_calling st \<and> req_Result r = Some (ch k)
               then Some ([Submitted k x],
                 st\<lparr>v_rt := v_rt st\<lparr>rt_read := R_check, rt_hand := rt_hand (v_rt st) @ [H_wait k]\<rparr>,
                   v_d := d', v_calling := False\<rparr>)
               else None
           | _ \<Rightarrow> None)
      | _ \<Rightarrow> None)"
| "v_try uni ch get net_Write (V_dispatch act) st =
     (case act of
        D_enqueue req \<Rightarrow> None | D_send i \<Rightarrow> None | D_abort i \<Rightarrow> None | D_receive c \<Rightarrow> None
      | _ \<Rightarrow> (case d_act uni act (v_d st) of
                None \<Rightarrow> None
              | Some (d', ev) \<Rightarrow> Some ([], st\<lparr>v_d := d'\<rparr>)))"

lemma try_hand_waiting:
  "try_hand v rt = Some (ev, rt') \<Longrightarrow> (\<forall>k hs. rt_hand rt \<noteq> H_wait k # hs) \<Longrightarrow> waiting_hands rt' = waiting_hands rt"
  by (auto simp: try_hand_def waiting_hands_def on_session_def split: list.splits hand_pc.splits if_splits option.splits sum.splits)

lemma v_try_step:
  assumes "v_try uni ch get net_Write c st = Some (ev, st')"
  shows "served_step uni ch get net_Write st ev st'"
proof (cases c)
  case V_read
  have alone: "session_alone (v_rt st) ev rt'"
    if "try_read False Null (v_rt st) = Some (ev, rt')" "\<forall>k. rt_read (v_rt st) \<noteq> R_reading k"
      "\<forall>k x. rt_read (v_rt st) \<noteq> R_submit k x" for rt'
    using that by (intro read_alone try_read_step)
  show ?thesis
    using assms V_read alone
    by (auto split: read_pc.splits prod.splits read_outcome.splits intro: read_value served_step.alone)
next
  case V_write
  have alone: "session_alone (v_rt st) ev rt'"
    if "try_write False (v_rt st) = Some (ev, rt')" "\<forall>b v. rt_write (v_rt st) \<noteq> Wr_write b v"
      "\<forall>b. rt_write (v_rt st) \<noteq> Wr_flush b" for rt'
    using that by (intro write_alone try_write_step)
  show ?thesis
    using assms V_write alone
    by (auto split: write_pc.splits prod.splits option.splits if_splits intro: written flushed served_step.alone)
next
  case V_hand
  have alone: "session_alone (v_rt st) ev rt'"
    if "try_hand Null (v_rt st) = Some (ev, rt')" "\<forall>k hs. rt_hand (v_rt st) \<noteq> H_wait k # hs" for rt'
    using that by (intro hand_alone try_hand_step try_hand_waiting)
  show ?thesis
    using assms V_hand alone answered [of st "[]"]
    by (auto split: list.splits hand_pc.splits prod.splits option.splits d_event.splits if_splits
        intro: served_step.alone)
next
  case V_call
  with assms show ?thesis
    by (auto split: read_pc.splits prod.splits option.splits list.splits if_splits intro: call)
next
  case (V_send i)
  with assms show ?thesis
    by (auto split: read_pc.splits prod.splits option.splits list.splits d_event.splits if_splits intro: sent)
next
  case (V_dispatch act)
  with assms show ?thesis
    by (cases act) (auto split: option.splits simp: foreign_action_def intro: dispatch)
qed

fun v_play ::
  "(bytes \<Rightarrow> bytes) \<Rightarrow> (nat \<Rightarrow> nat) \<Rightarrow> scope_get \<Rightarrow> ('n \<Rightarrow> bytes \<Rightarrow> 'n \<times> 'e option) \<Rightarrow> v_choice list \<Rightarrow>
    ('e, 'n) served \<Rightarrow> (s_event list \<times> ('e, 'n) served) option" where
  "v_play uni ch get net_Write [] st = Some ([], st)"
| "v_play uni ch get net_Write (c # cs) st =
     (case v_try uni ch get net_Write c st of
        None \<Rightarrow> None
      | Some (ev, st') \<Rightarrow> map_option (\<lambda>(evs, st''). (ev @ evs, st'')) (v_play uni ch get net_Write cs st'))"

lemma v_play_run:
  "v_play uni ch get net_Write cs st = Some (evs, st') \<Longrightarrow> served_run uni ch get net_Write st0 tr st \<Longrightarrow>
    served_run uni ch get net_Write st0 (tr @ evs) st'"
proof (induction cs arbitrary: st tr evs)
  case (Cons c cs)
  then obtain ev st1 evs' where step: "v_try uni ch get net_Write c st = Some (ev, st1)"
      "v_play uni ch get net_Write cs st1 = Some (evs', st')" "evs = ev @ evs'"
    by (auto split: option.splits)
  then show ?case
    using Cons.IH [OF step(2) served_more [OF Cons.prems(2) v_try_step [OF step(1)]]] by simp
qed simp

section \<open>A sample connection\<close>

text \<open>
  A client sends one \<^verbatim>\<open>PING\<close>. In the first run the reply goes out; in the second the session reads the next
  request before the write loop has written the reply.
\<close>

definition ping_start :: "registry \<Rightarrow> (unit, bytes) served" where
  "ping_start reg = serve_start (NewServer 0 0 None) reg 0 0 [(request_bytes [(''PING'', [])], None)] []"

abbreviation ping_run :: "(unit, bytes) served \<Rightarrow> s_event list \<Rightarrow> (unit, bytes) served \<Rightarrow> bool" where
  "ping_run \<equiv> served_run id id (\<lambda>n. replicate n SP) net_append"

definition play_to_answer :: "v_choice list" where
  "play_to_answer = [V_dispatch D_start, V_dispatch D_spawn, V_read, V_read, V_read, V_read, V_read, V_read, V_call,
     V_send 0, V_dispatch D_accept, V_dispatch D_place, V_dispatch (D_worker 0), V_dispatch (D_worker 0),
     V_dispatch (D_worker 0), V_hand, V_hand, V_hand, V_write, V_write]"

lemma ping_reply: "reply_spec id ''PING'' [] = SimpleString ''PONG''"
proof -
  have "strings_ToLower id ''PING'' = ''ping''" by code_simp
  then show ?thesis by (simp add: reply_spec_def)
qed

lemma ping_played:
  assumes "RegisterBuiltins id (Some NewRegistry) = Some reg"
  shows "\<exists>tr st. ping_run (ping_start reg) tr st \<and> v_net st = ''+PONG'' @ CRLF \<and>
      \<not> ShouldStop (rt_session (v_rt st)) \<and> rt_write (v_rt st) = Wr_top \<and>
      s_commands (rt_session (v_rt st)) = 1 \<and> s_bytesRead (rt_session (v_rt st)) = 14 \<and>
      s_bytesWrite (rt_session (v_rt st)) = 7"
    and "\<exists>tr st. ping_run (ping_start reg) tr st \<and> rt_read (v_rt st) = R_reading 1 \<and>
      Answered 0 (SimpleString ''PONG'') \<in> set tr \<and> v_net st = [] \<and>
      (\<exists>st'. ping_run st [] st' \<and> rt_read (v_rt st') = R_reading 1 \<and>
        rt_write (v_rt st') = Wr_write [0] (SimpleString ''PONG''))"
proof -
  let ?src = "[(request_bytes [(''PING'', [])], None :: unit option)]"
  let ?get = "\<lambda>n. replicate n SP" and ?v = "request_value ''PING'' []"
  have start: "serve_runtime (NewServer 0 0 None) 0 (Some 0) (fst (Allocate 0 0)) =
      StartLoops (SetCloser (Some 0) (NewSession 1 0)) True True True"
    using session_setup_one [OF NewServer_limit [of None]]
    by (simp add: serve_runtime_def deps_set_serve Allocate_def no_config_def SetMaxInFlight_def NewSession_def)
  have sizes: "cf_DispatcherWorkers (NewServer 0 0 None) = 1" "cf_QueueSize (NewServer 0 0 None) = 4096"
    by (simp_all add: NewServer_def defaultConfig_def no_config_def Let_def)
  have bytes: "request_bytes [(''PING'', [])] = encode ?v" by (simp add: request_bytes_def)
  have len: "length (encode ?v) = 14"
    by (simp add: request_value_def value_constructors encode_line_def formatInt_def formatUint.simps digit_byte_literals)
  then obtain pv c' src' where rd: "Conn_Read (Some ?get) (NewConn None None) ?src = (Read_value pv, c', src')"
      "resolve [] pv = ?v" "cn_writer c' = NewWriter 64"
    using Conn_Read_value [of ?v ?get ?src "NewConn None None" "[]" "[]"] len
    by (auto simp: request_value_wire scope_sized_def bytes NewConn_def NewReader_def)
  have reply: "processRequest id reg 1 (CommandName id ?v) (CommandArgs ?v) = Inr (SimpleString ''PONG'')"
    using processRequest_reply [OF _ assms, of "''PING''" 1 "[]"]
    by (simp add: ping_reply is_ascii_def)
  have pong: "encode (SimpleString ''PONG'') = ''+PONG'' @ CRLF"
    by (simp add: value_constructors encode_line_def stripNewlines_def)
  note eval = play_simps read_request_def len session_Write_def session_Flush_def serve_start_def sizes d_act_def d_defs enqueue_check_def NewDispatcher_def rd
    make_request_def chan_recv_def reply set_worker_def sched_stops_def remove_nth_def Conn_Write_buf Conn_Flush_def
    Flush_def net_append_def start pong NewWriter_def Reset_def ping_start_def play_to_answer_def
  obtain tr st where "v_play id id ?get net_append (play_to_answer @ [V_write, V_write, V_write, V_write])
        (ping_start reg) = Some (tr, st)"
      "v_net st = ''+PONG'' @ CRLF" "\<not> ShouldStop (rt_session (v_rt st))" "rt_write (v_rt st) = Wr_top"
      "s_commands (rt_session (v_rt st)) = 1" "s_bytesRead (rt_session (v_rt st)) = 14"
      "s_bytesWrite (rt_session (v_rt st)) = 7"
    by (simp add: eval)
  then show "\<exists>tr st. ping_run (ping_start reg) tr st \<and> v_net st = ''+PONG'' @ CRLF \<and>
      \<not> ShouldStop (rt_session (v_rt st)) \<and> rt_write (v_rt st) = Wr_top \<and>
      s_commands (rt_session (v_rt st)) = 1 \<and> s_bytesRead (rt_session (v_rt st)) = 14 \<and>
      s_bytesWrite (rt_session (v_rt st)) = 7"
    using v_play_run [OF _ served_init] by fastforce
  obtain tr st st' where play: "v_play id id ?get net_append (play_to_answer @ [V_hand, V_read, V_read, V_read])
        (ping_start reg) = Some (tr, st)"
      "rt_read (v_rt st) = R_reading 1" "Answered 0 (SimpleString ''PONG'') \<in> set tr" "v_net st = []"
      "v_play id id ?get net_append [V_write] st = Some ([], st')" "rt_read (v_rt st') = R_reading 1"
      "rt_write (v_rt st') = Wr_write [0] (SimpleString ''PONG'')"
    by (simp add: eval)
  have "ping_run (ping_start reg) tr st" using v_play_run [OF play(1) served_init] by simp
  moreover have "ping_run st [] st'" using v_play_run [OF play(5) served_init] by simp
  ultimately show "\<exists>tr st. ping_run (ping_start reg) tr st \<and> rt_read (v_rt st) = R_reading 1 \<and>
      Answered 0 (SimpleString ''PONG'') \<in> set tr \<and> v_net st = [] \<and>
      (\<exists>st'. ping_run st [] st' \<and> rt_read (v_rt st') = R_reading 1 \<and>
        rt_write (v_rt st') = Wr_write [0] (SimpleString ''PONG''))"
    using play(2-4,6,7) by blast
qed

section \<open>Properties\<close>

lemma session_setup_fresh:
  "fresh_session (session_setup cfg name (NewSession sid now))"
  "cf_MaxInFlightPerSession cfg = 1 \<Longrightarrow> s_maxInFlight (session_setup cfg name (NewSession sid now)) = 1"
proof -
  have "wrap32 n < 2 ^ 31" for n using sint_lt [of "word_of_int n :: 32 word"] by (simp add: wrap32_def)
  then show "fresh_session (session_setup cfg name (NewSession sid now))"
    by (simp add: session_setup_def fresh_session_def SetCloser_def SetMaxInFlight_def NewSession_def Let_def)
  show "cf_MaxInFlightPerSession cfg = 1 \<Longrightarrow> s_maxInFlight (session_setup cfg name (NewSession sid now)) = 1"
    by (simp add: session_setup_one SetCloser_def SetMaxInFlight_def)
qed

text \<open>What was written are replies to different requests of the client.\<close>

lemma served_writes:
  fixes net_Write :: "'n \<Rightarrow> bytes \<Rightarrow> 'n \<times> 'e option"
  assumes run: "served_run uni ch get net_Write (serve_start cfg reg now nextID src n0) tr st"
    and reg: "RegisterBuiltins uni (Some NewRegistry) = Some reg" and ok: "list_all (request_ok uni) rqs"
    and src: "prefix (source_bytes src) (request_bytes rqs)"
    and setting: "served_setting uni ch get net_Write wire_out rqs"
  shows "served_inv uni ch reg (session_setup cfg 0 (fst (Allocate now nextID))) rqs wire_out (wire_out n0) tr st"
    and "distinct (map fst (writes tr)) \<and> set (map fst (writes tr)) \<subseteq> {..<length rqs} \<and>
      concat (map encode (map snd (writes tr))) = reply_bytes uni (map ((!) rqs) (map fst (writes tr)))"
proof -
  let ?s = "session_setup cfg 0 (fst (Allocate now nextID))" and ?ks = "map fst (writes tr)"
  obtain n where alone: "s_run (StartLoops ?s True True True) n tr (v_rt st)"
    using served_run_session [OF run] by (auto simp: serve_runtime_def deps_set_serve)
  have fresh: "fresh_session ?s" by (simp add: Allocate_def session_setup_fresh)
  show inv: "served_inv uni ch reg ?s rqs wire_out (wire_out n0) tr st"
    using serving.always [OF run impI [OF served_inv_start [OF src]]] setting by blast
  have answer: "k < length rqs \<and> v = reply_spec uni (fst (rqs ! k)) (snd (rqs ! k))" if "(k, v) \<in> set (writes tr)" for k v
  proof (rule served_answer [OF inv _ reg ok])
    show "submit_inv tr (v_rt st)" by (rule submitting.always [OF alone submit_inv_start])
    show "Answered k v \<in> set tr"
      using contents.always [OF alone fresh_start(3) [OF fresh]] that
      by (auto simp: content_inv_def answers_on_the_way_def writes_iff)
  qed
  then have replies: "map snd (writes tr) = map (\<lambda>k. reply_spec uni (fst (rqs ! k)) (snd (rqs ! k))) ?ks" by auto
  have "concat (map encode (map snd (writes tr))) = reply_bytes uni (map ((!) rqs) ?ks)"
    unfolding replies by (simp add: reply_bytes_def comp_def)
  moreover have "distinct ?ks"
    using once.always [OF alone once_inv_start [OF fresh]] by (simp add: once_inv_def in_order_def map_fst_writes)
  ultimately show "distinct ?ks \<and> set ?ks \<subseteq> {..<length rqs} \<and>
      concat (map encode (map snd (writes tr))) = reply_bytes uni (map ((!) rqs) ?ks)"
    using answer by auto
qed

text \<open>
  C1: A client sees its replies: whatever the goroutines of the session, the dispatcher, the other sessions
  and the network do, the bytes sent are a first part of the serialised replies to some of its requests,
  none twice, each the reply that its name and arguments call for. With one request in flight at most
  (the default) they are in the order of the requests, and as long as the session is not told to stop,
  no reply is left out.
\<close>

theorem connection_replies_in_order:
  fixes net_Write :: "'n \<Rightarrow> bytes \<Rightarrow> 'n \<times> 'e option"
  assumes "served_run uni ch get net_Write (serve_start cfg reg now nextID src n0) tr st"
    and "RegisterBuiltins uni (Some NewRegistry) = Some reg" and "list_all (request_ok uni) rqs"
    and "prefix (source_bytes src) (request_bytes rqs)" and "length (request_bytes rqs) < 2 ^ 63 - 2"
    and "inj ch" and "scope_sized get" and "io_writer net_Write wire_out"
  shows "\<exists>ks. distinct ks \<and> set ks \<subseteq> {..<length rqs} \<and>
    prefix (wire_out (v_net st)) (wire_out n0 @ reply_bytes uni (map ((!) rqs) ks)) \<and>
    (cf_MaxInFlightPerSession cfg = 1 \<longrightarrow>
       sorted_wrt (<) ks \<and> (\<not> ShouldStop (rt_session (v_rt st)) \<longrightarrow> ks = [0..<length ks]))"
proof -
  let ?s = "session_setup cfg 0 (fst (Allocate now nextID))"
  obtain n where run: "s_run (StartLoops ?s True True True) n tr (v_rt st)"
    using served_run_session [OF assms(1)] by (auto simp: serve_runtime_def deps_set_serve)
  have fresh: "fresh_session ?s" by (simp add: Allocate_def session_setup_fresh)
  have setting: "served_setting uni ch get net_Write wire_out rqs"
    using assms(3,5-8) by (simp add: served_setting_def)
  note inv = served_writes(1) [OF assms(1-4) setting]
  define ks where "ks = map fst (writes tr)"
  have out: "distinct ks" "set ks \<subseteq> {..<length rqs}"
      "concat (map encode (map snd (writes tr))) = reply_bytes uni (map ((!) rqs) ks)"
    using served_writes(2) [OF assms(1-4) setting] unfolding ks_def by blast+
  have "prefix (wire_out (v_net st)) (wire_out n0 @ reply_bytes uni (map ((!) rqs) ks))"
    using inv by (simp only: served_inv_def output_inv_def Let_def out(3))
  moreover have "sorted_wrt (<) ks" if one: "s_maxInFlight ?s = 1"
    using single.always [OF run fresh_start(5) [OF fresh one]]
    by (simp add: single_inv_def order_inv_def in_order_def sorted_wrt_append ks_def map_fst_writes)
  moreover have "ks = [0..<length ks]" if one: "s_maxInFlight ?s = 1" and "\<not> ShouldStop (rt_session (v_rt st))"
  proof -
    have "\<not> stopping (v_rt st)"
      using that(2) ending.always [OF run fresh_start(4) [OF fresh]]
      by (auto simp: stopping_def ShouldStop_def end_inv_def Let_def)
    then have "log_of dropped_ev tr = []" using inv by (auto simp: served_inv_def drop_inv_def)
    then show ?thesis
      using sequence_written [OF sequence.always [OF run sequence_inv_start [OF fresh one]]]
      by (auto simp: ks_def map_fst_writes)
  qed
  moreover have "s_maxInFlight ?s = 1" if "cf_MaxInFlightPerSession cfg = 1"
    using session_setup_fresh(2) [OF that] by (simp add: Allocate_def)
  ultimately show ?thesis using out(1,2) by blast
qed

theorem connection_replies_in_order_witness:
  "\<exists>reg tr st ks. ping_run (ping_start reg) tr st \<and> v_net st = ''+PONG'' @ CRLF \<and> ks = [0..<length ks] \<and>
    prefix (v_net st) (reply_bytes id (map ((!) [(''PING'', [])]) ks))"
proof -
  let ?rqs = "[(''PING'', [])] :: client_request list"
  obtain reg where reg: "RegisterBuiltins id (Some NewRegistry) = Some reg" by (simp add: RegisterBuiltins_def)
  obtain tr st where run: "ping_run (ping_start reg) tr st" "v_net st = ''+PONG'' @ CRLF"
      "\<not> ShouldStop (rt_session (v_rt st))"
    using ping_played(1) [OF reg] by blast
  have "list_all (request_ok id) ?rqs" and len: "length (request_bytes ?rqs) < 2 ^ 63 - 2"
    by (simp_all add: ping_reply request_ok_def is_ascii_def request_bytes_def request_value_def value_constructors
        encode_line_def formatInt_def formatUint.simps digit_byte_literals stripNewlines_def)
  moreover have "io_writer (net_append :: bytes \<Rightarrow> bytes \<Rightarrow> bytes \<times> unit option) id"
    by (simp add: io_writer_def net_append_def)
  ultimately obtain ks where "ks = [0..<length ks]" "prefix (v_net st) (reply_bytes id (map ((!) ?rqs) ks))"
    using connection_replies_in_order [OF run(1) [unfolded ping_start_def] reg, of ?rqs id] run(3)
      NewServer_limit [of None 0 0]
    by (auto simp: no_config_def scope_sized_def)
  with run show ?thesis by blast
qed

text \<open>What a read that has begun keeps from happening until it returns.\<close>

lemma reading_next:
  assumes "read_step rt ev rt'" and "rt_read rt \<noteq> R_reading k" and "k < rt_next rt"
  shows "rt_read rt' \<noteq> R_reading k \<and> k < rt_next rt'"
  using assms by (induction rule: read_step.cases) (auto simp: session_ops)

lemma mutex_kept:
  "read_step rt ev rt' \<Longrightarrow> rt_shared_mutex rt' = rt_shared_mutex rt"
  "write_step rt ev rt' \<Longrightarrow> rt_shared_mutex rt' = rt_shared_mutex rt"
  "hand_step rt ev rt' \<Longrightarrow> rt_shared_mutex rt' = rt_shared_mutex rt"
  "sup_step rt ev rt' \<Longrightarrow> rt_shared_mutex rt' = rt_shared_mutex rt"
  "caller_step rt ev rt' \<Longrightarrow> rt_shared_mutex rt' = rt_shared_mutex rt"
  by (auto elim!: read_step.cases write_step.cases hand_step.cases sup_step.cases caller_step.cases
      simp: session_ops)

interpretation mutex: session_invariant "\<lambda>tr. rt_shared_mutex"
  by unfold_locales (simp_all add: mutex_kept)

definition held_inv :: "nat \<Rightarrow> 'n \<Rightarrow> ('e, 'n) served \<Rightarrow> bool" where
  "held_inv k n st \<longleftrightarrow>
     rt_shared_mutex (v_rt st) \<and> k < rt_next (v_rt st) \<and> (rt_read (v_rt st) = R_reading k \<longrightarrow> v_net st = n)"

lemma held_inv_alone:
  assumes "session_alone rt ev rt'" and "rt_shared_mutex rt" and "k < rt_next rt"
  shows "rt_shared_mutex rt' \<and> k < rt_next rt' \<and> (rt_read rt' = R_reading k \<longrightarrow> rt_read rt = R_reading k)"
  using assms
proof (induction rule: session_alone.cases)
  case (read_alone ev rt')
  then show ?case using reading_next [OF read_alone(3), of k] mutex_kept(1) by auto
qed (auto dest: step_submits mutex_kept simp: reads_alone_def)

lemma held_inv_step:
  assumes "served_step uni ch get net_Write st ev st'" and "held_inv k n st"
  shows "held_inv k n st'"
  using assms
proof (induction rule: served_step.cases)
  case (alone ev rt')
  then show ?case using held_inv_alone [OF alone(3)] by (auto simp: held_inv_def)
qed (auto simp: held_inv_def conn_free_def session_ops)

interpretation held: served_invariant uni ch get net_Write "\<lambda>tr. held_inv k n"
  for uni ch get and net_Write :: "'n \<Rightarrow> bytes \<Rightarrow> 'n \<times> 'e option" and k n
  by unfold_locales (rule held_inv_step)

text \<open>
  C33: A reply that is not on the network when the session begins to read the next request stays off it
  until that read returns, whoever else takes steps: the read holds the mutex of the connection. A
  client that waits for its reply before it sends more gets it only when the read deadline has passed.
\<close>

theorem replies_wait_for_read:
  assumes "served_run uni ch get net_Write (serve_start cfg reg now nextID src n) tr st"
    and "rt_read (v_rt st) = R_reading k" and "served_run uni ch get net_Write st tr' st'"
    and "rt_read (v_rt st') = R_reading k"
  shows "v_net st' = v_net st"
proof -
  obtain m where run: "s_run (serve_runtime cfg 0 (Some 0) (fst (Allocate now nextID))) m tr (v_rt st)"
    using served_run_session [OF assms(1)] by auto
  have "submit_inv tr (v_rt st)"
    by (rule submitting.always [OF run]) (simp add: serve_runtime_def submit_inv_start)
  then have "map fst (submits tr) @ [k] = [0..<rt_next (v_rt st)]" by (simp add: submit_inv_def assms(2))
  then have "k \<in> set [0..<rt_next (v_rt st)]" by (metis in_set_conv_decomp)
  moreover have "rt_shared_mutex (v_rt st)"
    by (rule mutex.always [OF run]) (simp add: serve_runtime_def StartLoops_def)
  ultimately have "held_inv k (v_net st) st" by (simp add: held_inv_def)
  then show ?thesis using held.always [OF assms(3)] assms(4) by (auto simp: held_inv_def)
qed

theorem replies_wait_for_read_witness:
  "\<exists>reg tr st st'. ping_run (ping_start reg) tr st \<and> Answered 0 (SimpleString ''PONG'') \<in> set tr \<and>
    ping_run st [] st' \<and> rt_write (v_rt st') = Wr_write [0] (SimpleString ''PONG'') \<and> v_net st' = []"
proof -
  obtain reg where reg: "RegisterBuiltins id (Some NewRegistry) = Some reg" by (simp add: RegisterBuiltins_def)
  obtain tr st st' where run: "ping_run (ping_start reg) tr st" "rt_read (v_rt st) = R_reading 1"
      "Answered 0 (SimpleString ''PONG'') \<in> set tr" "v_net st = []" "ping_run st [] st'"
      "rt_read (v_rt st') = R_reading 1" "rt_write (v_rt st') = Wr_write [0] (SimpleString ''PONG'')"
    using ping_played(2) [OF reg] by blast
  have "v_net st' = v_net st" by (rule replies_wait_for_read [OF run(1) [unfolded ping_start_def] run(2,5,6)])
  with run show ?thesis by auto
qed

end
