(* ===== verification/Served_Statistics.thy ===== *)
theory Served_Statistics
  imports Served_Replies
begin

text \<open>
  The statistics a session keeps while it is at work: how \<^verbatim>\<open>commands\<close> and \<^verbatim>\<open>bytesRead\<close> follow the requests
  that were read, and \<^verbatim>\<open>bytesWrite\<close> and \<^verbatim>\<open>pendingBytes\<close> the replies that were written and sent, each an
  invariant of every step of the system. All of them count modulo \<open>2 ^ 64\<close>.
\<close>

section \<open>Requests read\<close>

text \<open>
  A request whose submission fails has been counted, though it is not among those submitted.
\<close>

definition count_inv :: "client_request list \<Rightarrow> s_event list \<Rightarrow> ('e, 'n) served \<Rightarrow> bool" where
  "count_inv rqs tr st \<longleftrightarrow>
     (\<exists>k. length (submits tr) \<le> k \<and> k \<le> Suc (length (submits tr)) \<and> k \<le> length rqs \<and>
        (rt_read (v_rt st) \<notin> {R_return, R_gone} \<longrightarrow> k = length (values_read tr (v_rt st))) \<and>
        s_commands (rt_session (v_rt st)) = word_of_nat k \<and>
        s_bytesRead (rt_session (v_rt st)) = word_of_nat (length (request_bytes (take k rqs))))"

lemma count_inv_kept:
  assumes "count_inv rqs tr st" and "submits ev = []"
    and "rt_read (v_rt st') \<notin> {R_return, R_gone} \<longrightarrow>
      rt_read (v_rt st) \<notin> {R_return, R_gone} \<and> values_read (tr @ ev) (v_rt st') = values_read tr (v_rt st)"
    and "s_commands (rt_session (v_rt st')) = s_commands (rt_session (v_rt st))"
    and "s_bytesRead (rt_session (v_rt st')) = s_bytesRead (rt_session (v_rt st))"
  shows "count_inv rqs (tr @ ev) st'"
proof -
  obtain k where k: "length (submits tr) \<le> k" "k \<le> Suc (length (submits tr))" "k \<le> length rqs"
      "rt_read (v_rt st) \<notin> {R_return, R_gone} \<longrightarrow> k = length (values_read tr (v_rt st))"
      "s_commands (rt_session (v_rt st)) = word_of_nat k"
      "s_bytesRead (rt_session (v_rt st)) = word_of_nat (length (request_bytes (take k rqs)))"
    using assms(1) unfolding count_inv_def by blast
  with assms(2-5) show ?thesis unfolding count_inv_def by (intro exI [of _ k]) auto
qed

text \<open>No step but a read changes the counters of requests, and no step but a flush that of the replies.\<close>

lemma step_statistics:
  "read_step rt ev rt' \<Longrightarrow> statistics (rt_session rt') = statistics (rt_session rt)"
  "write_step rt ev rt' \<Longrightarrow> statistics (rt_session rt') = statistics (rt_session rt)"
  "hand_step rt ev rt' \<Longrightarrow> statistics (rt_session rt') = statistics (rt_session rt)"
  "sup_step rt ev rt' \<Longrightarrow> statistics (rt_session rt') = statistics (rt_session rt)"
  by (auto elim!: read_step.cases write_step.cases hand_step.cases sup_step.cases
      simp: statistics_def statistics_getters session_ops)

lemma alone_statistics:
  assumes "session_alone rt ev rt'"
  shows "s_commands (rt_session rt') = s_commands (rt_session rt)"
    and "s_bytesRead (rt_session rt') = s_bytesRead (rt_session rt)"
    and "s_bytesWrite (rt_session rt') = s_bytesWrite (rt_session rt)"
proof -
  have "statistics (rt_session rt') = statistics (rt_session rt)"
    using assms by (induction rule: session_alone.cases) (simp_all add: step_statistics)
  then show "s_commands (rt_session rt') = s_commands (rt_session rt)"
    and "s_bytesRead (rt_session rt') = s_bytesRead (rt_session rt)"
    and "s_bytesWrite (rt_session rt') = s_bytesWrite (rt_session rt)"
    by (simp_all add: statistics_def statistics_getters)
qed

text \<open>One more request read: the next one of the client.\<close>

lemma count_inv_read:
  assumes "count_inv rqs tr st" and "rt_read (v_rt st) = R_reading k" and "input_inv rqs tr st'"
    and "rt_read (v_rt st') = R_got k x"
    and "rt_session (v_rt st') =
      AddBytesRead (word_of_nat (length (encode x))) (IncrementCommands (UpdateLastSeen t (rt_session (v_rt st))))"
  shows "count_inv rqs tr st'"
proof -
  let ?f = "\<lambda>rq. request_value (fst rq) (snd rq)" and ?n = "length (submits tr)"
  have n: "s_commands (rt_session (v_rt st)) = word_of_nat ?n"
      "s_bytesRead (rt_session (v_rt st)) = word_of_nat (length (request_bytes (take ?n rqs)))"
    using assms(1,2) by (auto simp: count_inv_def values_read_def)
  have "prefix (map snd (submits tr) @ [x]) (map ?f rqs)"
    using assms(3,4) by (simp add: input_inv_def values_read_def Let_def)
  then obtain zs where zs: "map ?f rqs = map snd (submits tr) @ x # zs" by (auto simp: prefix_def)
  have len: "?n < length rqs" using arg_cong [OF zs, of length] by simp
  then have "x = ?f (rqs ! ?n)" using arg_cong [OF zs, of "\<lambda>xs. xs ! ?n"] by (simp add: nth_append)
  then have "request_bytes (take (Suc ?n) rqs) = request_bytes (take ?n rqs) @ encode x"
    using len by (simp add: request_bytes_def take_Suc_conv_app_nth)
  with n len assms(4,5) show ?thesis
    by (intro count_inv_def [THEN iffD2] exI [of _ "Suc ?n"]) (simp add: values_read_def session_ops)
qed

lemma count_inv_step:
  assumes "served_step uni ch get net_Write st ev st'" and "count_inv rqs tr st" and "input_inv rqs (tr @ ev) st'"
  shows "count_inv rqs (tr @ ev) st'"
  using assms
proof (induction rule: served_step.cases)
  case (alone ev rt')
  then show ?case
    using alone_values [OF alone(3), of tr] alone_submits [OF alone(3)] alone_statistics [OF alone(3)]
    by (intro count_inv_kept [OF alone(4)]) auto
next
  case (read_value k derr t pv s' c' src')
  then show ?case
    using count_inv_read [OF read_value(5,3), of st' "resolve [] pv"] read_request_value [OF read_value(4)] by simp
next
  case (read_fails k derr t e s' c' src')
  then show ?case
    using read_request_error [OF read_fails(4)] by (intro count_inv_kept [OF read_fails(5)]) auto
next
  case (sent k x i d' r)
  then show ?case by (auto simp: count_inv_def values_read_def)
next
  case (flushed b s' c' p' n')
  then show ?case
    using session_Flush_ok [OF flushed(5)]
    by (intro count_inv_kept [OF flushed(6)]) (auto simp: values_read_def session_ops split: if_splits)
next
  case (flush_fails b s' c' p' n' fe)
  then show ?case
    using session_Flush_error [OF flush_fails(5)]
    by (intro count_inv_kept [OF flush_fails(6)]) (auto simp: values_read_def)
next
  case (call_refused k x d' rq e)
  then show ?case by (intro count_inv_kept [OF call_refused(6)]) (auto simp: session_ops)
next
  case (call_aborted k x i d' r e)
  then show ?case by (intro count_inv_kept [OF call_aborted(7)]) (auto simp: session_ops)
next
  case dispatch
  then show ?case by (simp add: count_inv_def)
next
  case call
  then show ?case by (simp add: count_inv_def)
qed (auto intro!: count_inv_kept simp: values_read_def)

section \<open>Replies sent\<close>

text \<open>
  As long as the write loop goes on, \<^verbatim>\<open>pendingBytes\<close> is what the buffer holds and the bytes counted as
  written are those sent. A flush that fails may have sent bytes that nobody counts.
\<close>

definition sent_inv :: "('n \<Rightarrow> bytes) \<Rightarrow> bytes \<Rightarrow> ('e, 'n) served \<Rightarrow> bool" where
  "sent_inv wire_out out0 st \<longleftrightarrow>
     (\<exists>sent m. wire_out (v_net st) = out0 @ sent \<and> m \<le> length sent \<and>
        s_bytesWrite (rt_session (v_rt st)) = word_of_nat m \<and>
        (rt_write (v_rt st) \<noteq> Wr_gone \<longrightarrow>
           m = length sent \<and> v_pending st = word_of_nat (length (w_buf (cn_writer (v_conn st))))))"

lemma sent_inv_kept:
  assumes "sent_inv wire_out out0 st" and "v_net st' = v_net st" and "v_pending st' = v_pending st"
    and "w_buf (cn_writer (v_conn st')) = w_buf (cn_writer (v_conn st))"
    and "s_bytesWrite (rt_session (v_rt st')) = s_bytesWrite (rt_session (v_rt st))"
    and "rt_write (v_rt st) = Wr_gone \<longrightarrow> rt_write (v_rt st') = Wr_gone"
  shows "sent_inv wire_out out0 st'"
  using assms unfolding sent_inv_def by fastforce

lemma Conn_Flush_sent:
  assumes "Conn_Flush net_Write c n = (c', n', ferr)" and "io_writer net_Write wire_out"
  shows "\<exists>b. prefix b (w_buf (cn_writer c)) \<and> wire_out n' = wire_out n @ b \<and>
    (ferr = None \<longrightarrow> b = w_buf (cn_writer c) \<and> w_buf (cn_writer c') = [])"
proof -
  have fl: "Flush net_Write (cn_writer c) n = (cn_writer c', n', ferr)"
    using assms(1) by (auto simp: Conn_Flush_def split: prod.splits)
  show ?thesis
  proof (cases "w_buf (cn_writer c) = []")
    case True
    with fl show ?thesis by (auto simp: Flush_def)
  next
    case False
    then obtain err where w: "net_Write n (w_buf (cn_writer c)) = (n', err)" "ferr = map_option Flush_writer err"
        "w_buf (cn_writer c') = []"
      using fl by (auto simp: Flush_def Reset_def Let_def dest: arg_cong [where f = w_buf] split: prod.splits)
    with assms(2) show ?thesis unfolding io_writer_def by fastforce
  qed
qed

lemma sent_inv_flushed:
  assumes "sent_inv wire_out out0 st" and "rt_write (v_rt st) = Wr_flush b"
    and "session_Flush net_Write (rt_session (v_rt st)) (v_conn st, v_pending st) (v_net st) = (s', (c', p'), n', None)"
    and "io_writer net_Write wire_out" and "length (w_buf (cn_writer (v_conn st))) < 2 ^ 63"
  shows "sent_inv wire_out out0
    (st\<lparr>v_rt := v_rt st\<lparr>rt_session := s', rt_write := Wr_top\<rparr>, v_conn := c', v_net := n', v_pending := p'\<rparr>)"
proof -
  let ?buf = "w_buf (cn_writer (v_conn st))"
  obtain sent where sent: "wire_out (v_net st) = out0 @ sent"
      "s_bytesWrite (rt_session (v_rt st)) = word_of_nat (length sent)" "v_pending st = word_of_nat (length ?buf)"
    using assms(1,2) by (auto simp: sent_inv_def)
  have counted: "if 0 < length ?buf then s' = AddBytesWritten (v_pending st) (rt_session (v_rt st)) \<and> p' = 0
      else s' = rt_session (v_rt st) \<and> p' = v_pending st"
    using session_Flush_ok [OF assms(3)] assms(5) by (simp add: sent(3))
  have "wire_out n' = wire_out (v_net st) @ ?buf \<and> w_buf (cn_writer c') = []"
    using Conn_Flush_sent [OF conjunct1 [OF session_Flush_ok [OF assms(3)]] assms(4)] by auto
  with sent counted show ?thesis
    by (auto simp: sent_inv_def session_ops split: if_splits)
qed

lemma sent_inv_step:
  assumes "served_step uni ch get net_Write st ev st'" and "sent_inv wire_out out0 st"
    and "output_inv wire_out out0 tr st" and "io_writer net_Write wire_out"
    and "length (concat (map encode (map snd (writes (tr @ ev))))) < 2 ^ 63"
  shows "sent_inv wire_out out0 st'"
  using assms
proof (induction rule: served_step.cases)
  case (alone ev rt')
  then show ?case
    using alone_statistics(3) [OF alone(3)] alone_writes [OF alone(3)] by (intro sent_inv_kept [OF alone(4)]) auto
next
  case (written b v c' p')
  then show ?case
    using session_Write_ok [OF written(5)] by (auto simp: sent_inv_def Conn_Write_buf)
next
  case (write_fails b v c' p' e)
  then show ?case by (simp add: session_Write_takes)
next
  case (flushed b s' c' p' n')
  have "length (wire_out (v_net st) @ w_buf (cn_writer (v_conn st))) =
      length out0 + length (concat (map encode (map snd (writes tr))))"
    using flushed(3,7) by (simp add: output_inv_def Let_def)
  moreover have "length out0 \<le> length (wire_out (v_net st))" using flushed(6) by (auto simp: sent_inv_def)
  ultimately have "length (w_buf (cn_writer (v_conn st))) < 2 ^ 63"
    using flushed(1,9) by simp
  then show ?case using sent_inv_flushed [OF flushed(6,3,5,8)] flushed(2) by simp
next
  case (flush_fails b s' c' p' n' fe)
  obtain c where "wire_out n' = wire_out (v_net st) @ c"
    using Conn_Flush_sent [OF conjunct1 [OF session_Flush_error [OF flush_fails(5)]] flush_fails(8)] by auto
  moreover obtain sent m where "wire_out (v_net st) = out0 @ sent" "m \<le> length sent"
      "s_bytesWrite (rt_session (v_rt st)) = word_of_nat m"
    using flush_fails(6) by (auto simp: sent_inv_def)
  ultimately show ?case
    using flush_fails(2) session_Flush_error [OF flush_fails(5)] unfolding sent_inv_def
    by (intro exI [of _ "sent @ c"] exI [of _ m]) simp
next
  case (read_value k derr t pv s' c' src')
  then show ?case
    using read_request_value [OF read_value(4)]
    by (intro sent_inv_kept [OF read_value(5)]) (auto simp: Conn_Read_def session_ops split: prod.splits)
next
  case (read_fails k derr t e s' c' src')
  then show ?case
    using read_request_error [OF read_fails(4)]
    by (intro sent_inv_kept [OF read_fails(5)]) (auto simp: Conn_Read_def split: prod.splits)
qed (simp_all add: sent_inv_def session_ops)

section \<open>All runs\<close>

definition statistics_inv ::
  "client_request list \<Rightarrow> ('n \<Rightarrow> bytes) \<Rightarrow> bytes \<Rightarrow> s_event list \<Rightarrow> ('e, 'n) served \<Rightarrow> bool" where
  "statistics_inv rqs wire_out out0 tr st \<longleftrightarrow>
     count_inv rqs tr st \<and>
     (length (concat (map encode (map snd (writes tr)))) < 2 ^ 63 \<longrightarrow> sent_inv wire_out out0 st)"

interpretation counting: served_invariant uni ch get net_Write
    "\<lambda>tr st. served_setting uni ch get net_Write wire_out rqs \<longrightarrow>
       served_inv uni ch reg s rqs wire_out out0 tr st \<and> statistics_inv rqs wire_out out0 tr st"
  for uni ch get and net_Write :: "'n \<Rightarrow> bytes \<Rightarrow> 'n \<times> 'e option" and wire_out rqs reg s out0
proof (unfold_locales, intro impI)
  fix st ev st' tr
  assume step: "served_step uni ch get net_Write st ev st'"
    and old: "served_setting uni ch get net_Write wire_out rqs \<longrightarrow>
      served_inv uni ch reg s rqs wire_out out0 tr st \<and> statistics_inv rqs wire_out out0 tr st"
    and setting: "served_setting uni ch get net_Write wire_out rqs"
  have inv: "served_inv uni ch reg s rqs wire_out out0 (tr @ ev) st'"
    using serving.keep [OF step] old setting by blast
  have "count_inv rqs (tr @ ev) st'"
    using count_inv_step [OF step] inv old setting by (simp add: served_inv_def statistics_inv_def)
  moreover have "sent_inv wire_out out0 st'" if "length (concat (map encode (map snd (writes (tr @ ev))))) < 2 ^ 63"
    using sent_inv_step [OF step _ _ _ that] that old setting
    by (simp add: served_inv_def statistics_inv_def served_setting_def)
  ultimately show "served_inv uni ch reg s rqs wire_out out0 (tr @ ev) st' \<and> statistics_inv rqs wire_out out0 (tr @ ev) st'"
    using inv by (simp add: statistics_inv_def)
qed

lemma statistics_inv_start:
  "statistics_inv rqs wire_out (wire_out n) [] (serve_start cfg reg now nextID src n)"
  by (auto simp: statistics_inv_def count_inv_def sent_inv_def serve_start_def serve_runtime_def StartLoops_def
      session_setup_def Allocate_def NewSession_def SetCloser_def SetMaxInFlight_def NewConn_def NewWriter_def
      values_read_def request_bytes_def Let_def)

text \<open>The first requests are no longer than all, and every request takes a byte at least.\<close>

lemma request_bytes_take: "length (request_bytes (take k rqs)) \<le> length (request_bytes rqs)"
  and request_bytes_length: "length rqs \<le> length (request_bytes rqs)"
proof -
  have "request_bytes rqs = request_bytes (take k rqs) @ request_bytes (drop k rqs)"
    unfolding request_bytes_def by (metis append_take_drop_id concat_append map_append)
  then show "length (request_bytes (take k rqs)) \<le> length (request_bytes rqs)" by simp
  show "length rqs \<le> length (request_bytes rqs)"
  proof (induction rqs)
    case (Cons rq rqs)
    have "encode (request_value (fst rq) (snd rq)) \<noteq> []" by (rule encode_nonempty)
    then have "1 \<le> length (encode (request_value (fst rq) (snd rq)))" by (simp add: Suc_le_eq)
    with Cons show ?case by (simp add: request_bytes_def)
  qed simp
qed

text \<open>Replies to different requests are together no longer than the replies to all of them.\<close>

lemma length_reply_bytes_le:
  assumes "distinct ks" and "set ks \<subseteq> {..<length rqs}"
  shows "length (reply_bytes uni (map ((!) rqs) ks)) \<le> length (reply_bytes uni rqs)"
proof -
  let ?len = "\<lambda>k. length (SerializeValue (reply_spec uni (fst (rqs ! k)) (snd (rqs ! k))))"
  have sum: "length (reply_bytes uni (map ((!) rqs) js)) = sum_list (map ?len js)" for js
    by (simp add: reply_bytes_def length_concat comp_def)
  have "sum_list (map ?len ks) = sum ?len (set ks)" using assms(1) by (simp add: sum_list_distinct_conv_sum_set)
  also have "\<dots> \<le> sum ?len {..<length rqs}" using assms(2) by (intro sum_mono2) simp_all
  also have "\<dots> = sum_list (map ?len [0..<length rqs])"
    by (simp add: sum_list_distinct_conv_sum_set atLeast0LessThan)
  finally show ?thesis using sum [of "[0..<length rqs]"] by (simp add: sum map_nth)
qed

end
