(* ===== verification/Resp_Writer.thy ===== *)
theory Resp_Writer
  imports Protocol_Writer "HOL-Library.Sublist"
begin

text \<open>
  \<^verbatim>\<open>internal/resp/writer.go\<close>, the older writer: a buffer that grows by \<^verbatim>\<open>Append*\<close> calls and is flushed
  by hand, and \<^verbatim>\<open>AppendAny\<close>, which picks the RESP type by the dynamic type of a Go value. Lemmas: every
  append refines the encoding of \<^verbatim>\<open>internal/protocol\<close> or ends with the first panic the value holds
  (\<open>appendAny_encode\<close>), lines of both writers are single lines, and \<^verbatim>\<open>prefixERRIfNeeded\<close>
  gives every error reply an upper-case code.
\<close>

section \<open>Prefixes, strings, errors\<close>

definition resp_stripNewlines :: "bytes \<Rightarrow> bytes" where
  "resp_stripNewlines s =
     (if list_ex (\<lambda>c. c = CR \<or> c = LF) s
      then strings_Replace LF SP (strings_Replace CR SP s) else s)"

definition resp_appendPrefix :: "bytes \<Rightarrow> byte \<Rightarrow> int64 \<Rightarrow> bytes" where
  "resp_appendPrefix b c n =
     (if 0 \<le> sint n \<and> sint n \<le> 9 then b @ [c, digit_byte (unat n), CR, LF]
      else b @ [c] @ formatInt n @ CRLF)"

definition resp_appendBulk :: "bytes \<Rightarrow> bytes \<Rightarrow> bytes" where
  "resp_appendBulk b bulk = resp_appendPrefix b (CHR ''$'') (word_of_nat (length bulk)) @ bulk @ CRLF"

definition resp_appendBulkString :: "bytes \<Rightarrow> bytes \<Rightarrow> bytes" where
  "resp_appendBulkString b bulk =
     resp_appendPrefix b (CHR ''$'') (word_of_nat (length bulk)) @ bulk @ CRLF"

definition resp_appendError :: "bytes \<Rightarrow> bytes \<Rightarrow> bytes" where
  "resp_appendError b s = b @ ''-'' @ resp_stripNewlines s @ CRLF"

definition resp_appendString :: "bytes \<Rightarrow> bytes \<Rightarrow> bytes" where
  "resp_appendString b s = b @ ''+'' @ resp_stripNewlines s @ CRLF"

definition resp_appendBulkInt :: "bytes \<Rightarrow> int64 \<Rightarrow> bytes" where
  "resp_appendBulkInt b x = resp_appendBulk b (formatInt x)"

definition resp_appendBulkUint :: "bytes \<Rightarrow> 64 word \<Rightarrow> bytes" where
  "resp_appendBulkUint b x = resp_appendBulk b (formatUint (unat x))"

text \<open>\<^verbatim>\<open>strconv.AppendFloat(nil, f, 'f', -1, 64)\<close> is the parameter \<open>fmt_float\<close>.\<close>

definition resp_appendBulkFloat :: "('f \<Rightarrow> bytes) \<Rightarrow> bytes \<Rightarrow> 'f \<Rightarrow> bytes" where
  "resp_appendBulkFloat fmt_float b f = resp_appendBulk b (fmt_float f)"

section \<open>Error codes\<close>

text \<open>
  \<^verbatim>\<open>strings.TrimSpace\<close> on UTF-8: the encodings of the code points with the property White_Space are cut
  from the left, then from the right. No encoding is a proper prefix or suffix of another, so
  matching encodings is the same as decoding the first or the last code point.
\<close>

definition space_encodings :: "bytes list" where
  "space_encodings =
     [[TAB], [LF], [CHR 0x0B], [CHR 0x0C], [CR], [SP], [CHR 0xC2, CHR 0x85], [CHR 0xC2, CHR 0xA0],
      [CHR 0xE1, CHR 0x9A, CHR 0x80]] @
     map (\<lambda>x. [CHR 0xE2, CHR 0x80, x])
       [CHR 0x80, CHR 0x81, CHR 0x82, CHR 0x83, CHR 0x84, CHR 0x85, CHR 0x86, CHR 0x87, CHR 0x88,
        CHR 0x89, CHR 0x8A, CHR 0xA8, CHR 0xA9, CHR 0xAF] @
     [[CHR 0xE2, CHR 0x81, CHR 0x9F], [CHR 0xE3, CHR 0x80, CHR 0x80]]"

function trim_by :: "bytes list \<Rightarrow> bytes \<Rightarrow> bytes" where
  "trim_by encs s =
     (case find (\<lambda>e. e \<noteq> [] \<and> prefix e s) encs of
        None \<Rightarrow> s
      | Some e \<Rightarrow> trim_by encs (drop (length e) s))"
  by pat_completeness auto
termination
  by (relation "measure (\<lambda>(encs, s). length s)") (auto simp: find_Some_iff prefix_def)

declare trim_by.simps [simp del]

definition strings_TrimSpace :: "bytes \<Rightarrow> bytes" where
  "strings_TrimSpace s =
     rev (trim_by (map rev space_encodings) (rev (trim_by space_encodings s)))"

definition error_code :: "bytes \<Rightarrow> bytes" where
  "error_code msg = takeWhile (\<lambda>c. c \<noteq> SP) msg"

definition prefixERRIfNeeded :: "bytes \<Rightarrow> bytes" where
  "prefixERRIfNeeded msg0 =
     (let msg = strings_TrimSpace msg0;
          firstWord = error_code msg;
          addERR = (length firstWord = 0 \<or> list_ex (\<lambda>c. \<not> is_upper c) firstWord)
      in if addERR then strings_TrimSpace (''ERR '' @ msg) else msg)"

section \<open>Any Go value\<close>

text \<open>
  A Go value by the cases of the type switch. An error is represented by what its \<^verbatim>\<open>Error\<close> method
  returns, or the panic it ends in (a nil pointer whose method reads the value behind it, for
  instance); the error in an \<^verbatim>\<open>AnySimpleError\<close> may be nil. A value of the last case is represented by
  what \<^verbatim>\<open>fmt.Sprint\<close> prints (which recovers from panics), a map by its entries in the order \<^verbatim>\<open>MapKeys\<close>
  gives their keys, a 32-bit float by the 64-bit one it converts to. Values are finite: a slice or map
  that holds itself, on which \<^verbatim>\<open>appendAny\<close> overflows the stack, is not among them.
\<close>

datatype ('f, 'k) any =
    AnySimpleString bytes
  | AnySimpleInt int64
  | AnySimpleError "bytes go option"
  | AnyNil
  | AnyError "bytes go"
  | AnyString bytes
  | AnyBytes "bytes option"
  | AnyBool bool
  | AnyInt int64
  | AnyInt8 "8 word"
  | AnyInt16 "16 word"
  | AnyInt32 "32 word"
  | AnyInt64 int64
  | AnyUint "64 word"
  | AnyUint8 "8 word"
  | AnyUint16 "16 word"
  | AnyUint32 "32 word"
  | AnyUint64 "64 word"
  | AnyFloat32 'f
  | AnyFloat64 'f
  | AnySlice "('f, 'k) any list"
  | AnyMap "('k \<times> ('f, 'k) any) list"
  | AnyOther bytes

text \<open>
  What the code takes from the libraries: \<^verbatim>\<open>strconv.AppendFloat(nil, f, 'f', -1, 64)\<close>, \<^verbatim>\<open>fmt.Sprint\<close> of a key, and
  \<^verbatim>\<open>==\<close> of keys, which is not reflexive: a NaN differs from itself.
\<close>

record ('f, 'k) go_values =
  fmt_float :: "'f \<Rightarrow> bytes"
  fmt_key :: "'k \<Rightarrow> bytes"
  key_eq :: "'k \<Rightarrow> 'k \<Rightarrow> bool"

text \<open>\<^verbatim>\<open>vv.MapIndex(key)\<close>, with \<open>None\<close> for the zero \<^verbatim>\<open>Value\<close>, and \<^verbatim>\<open>Interface()\<close> of its result.\<close>

definition MapIndex :: "('k \<Rightarrow> 'k \<Rightarrow> bool) \<Rightarrow> ('k \<times> 'v) list \<Rightarrow> 'k \<Rightarrow> 'v option" where
  "MapIndex eq m key = map_option snd (find (\<lambda>kv. eq key (fst kv)) m)"

definition Value_Interface :: "'v option \<Rightarrow> 'v go" where
  "Value_Interface v = (case v of None \<Rightarrow> Inl Zero_reflect_value | Some x \<Rightarrow> Inr x)"

text \<open>The method \<^verbatim>\<open>Error\<close> of an \<^verbatim>\<open>AnySimpleError\<close> calls that of the error inside.\<close>

definition AnySimpleError_Error :: "bytes go option \<Rightarrow> bytes go" where
  "AnySimpleError_Error e = (case e of None \<Rightarrow> Inl Nil_dereference | Some r \<Rightarrow> r)"

lemma MapIndex_size [termination_simp]:
  assumes "Value_Interface (MapIndex eq m key) = Inr v"
  shows "size v < size_list (size_prod (\<lambda>k. 0) size) m"
proof -
  obtain k where "(k, v) \<in> set m"
    using assms by (auto simp: Value_Interface_def MapIndex_def find_Some_iff split: option.splits)
      (metis nth_mem prod.collapse)
  then show ?thesis using size_list_estimation [of "(k, v)" m "size v" "size_prod (\<lambda>k. 0) size"] by simp
qed

function appendAny :: "('f, 'k) go_values \<Rightarrow> bytes \<Rightarrow> ('f, 'k) any \<Rightarrow> bytes go"
  and append_slice :: "('f, 'k) go_values \<Rightarrow> bytes \<Rightarrow> ('f, 'k) any list \<Rightarrow> bytes go"
  and append_map :: "('f, 'k) go_values \<Rightarrow> bytes \<Rightarrow> ('k \<times> ('f, 'k) any) list \<Rightarrow> 'k list \<Rightarrow> bytes go" where
  "appendAny R b v =
     (case v of
        AnySimpleString s \<Rightarrow> Inr (resp_appendString b s)
      | AnySimpleInt n \<Rightarrow> Inr (resp_appendPrefix b (CHR '':'') n)
      | AnySimpleError e \<Rightarrow>
          (case AnySimpleError_Error e of Inl p \<Rightarrow> Inl p | Inr s \<Rightarrow> Inr (resp_appendError b s))
      | AnyNil \<Rightarrow> Inr (b @ ''$-1'' @ CRLF)
      | AnyError r \<Rightarrow>
          (case r of Inl p \<Rightarrow> Inl p | Inr s \<Rightarrow> Inr (resp_appendError b (prefixERRIfNeeded s)))
      | AnyString s \<Rightarrow> Inr (resp_appendBulkString b s)
      | AnyBytes None \<Rightarrow> Inr (b @ ''$-1'' @ CRLF)
      | AnyBytes (Some s) \<Rightarrow> Inr (resp_appendBulk b s)
      | AnyBool x \<Rightarrow> Inr (resp_appendBulkString b (if x then ''1'' else ''0''))
      | AnyInt n \<Rightarrow> Inr (resp_appendBulkInt b n)
      | AnyInt8 n \<Rightarrow> Inr (resp_appendBulkInt b (word_of_int (sint n)))
      | AnyInt16 n \<Rightarrow> Inr (resp_appendBulkInt b (word_of_int (sint n)))
      | AnyInt32 n \<Rightarrow> Inr (resp_appendBulkInt b (word_of_int (sint n)))
      | AnyInt64 n \<Rightarrow> Inr (resp_appendBulkInt b n)
      | AnyUint n \<Rightarrow> Inr (resp_appendBulkUint b n)
      | AnyUint8 n \<Rightarrow> Inr (resp_appendBulkUint b (word_of_int (uint n)))
      | AnyUint16 n \<Rightarrow> Inr (resp_appendBulkUint b (word_of_int (uint n)))
      | AnyUint32 n \<Rightarrow> Inr (resp_appendBulkUint b (word_of_int (uint n)))
      | AnyUint64 n \<Rightarrow> Inr (resp_appendBulkUint b n)
      | AnyFloat32 f \<Rightarrow> Inr (resp_appendBulkFloat (fmt_float R) b f)
      | AnyFloat64 f \<Rightarrow> Inr (resp_appendBulkFloat (fmt_float R) b f)
      | AnySlice vs \<Rightarrow> append_slice R (resp_appendPrefix b (CHR ''*'') (word_of_nat (length vs))) vs
      | AnyMap kvs \<Rightarrow>
          (let keys = map fst kvs
           in append_map R (resp_appendPrefix b (CHR ''*'') (word_of_nat (length keys) * 2)) kvs keys)
      | AnyOther s \<Rightarrow> Inr (resp_appendBulkString b s))"
| "append_slice R b vs =
     (case vs of
        [] \<Rightarrow> Inr b
      | v # vs' \<Rightarrow>
          (case appendAny R b v of Inl p \<Rightarrow> Inl p | Inr b' \<Rightarrow> append_slice R b' vs'))"
| "append_map R b m keys =
     (case keys of
        [] \<Rightarrow> Inr b
      | key # keys' \<Rightarrow>
          (case Value_Interface (MapIndex (key_eq R) m key) of
             Inl p \<Rightarrow> Inl p
           | Inr v \<Rightarrow>
               (case appendAny R (resp_appendBulkString b (fmt_key R key)) v of
                  Inl p \<Rightarrow> Inl p
                | Inr b' \<Rightarrow> append_map R b' m keys')))"
  by pat_completeness auto
termination
  by (relation "measures [\<lambda>x. case x of
        Inl (_, _, v) \<Rightarrow> 2 * size v
      | Inr (Inl (_, _, vs)) \<Rightarrow> 2 * size_list size vs + 1
      | Inr (Inr (_, _, m, keys)) \<Rightarrow> 2 * size_list (size_prod (\<lambda>k. 0) size) m + 1,
      \<lambda>x. case x of Inr (Inr (_, _, m, keys)) \<Rightarrow> length keys | _ \<Rightarrow> 0]") (auto dest: MapIndex_size)

declare appendAny.simps [simp del] append_slice.simps [simp del] append_map.simps [simp del]

section \<open>The writer\<close>

record resp_writer =
  rw_buf :: bytes
  rw_offset :: nat

definition resp_NewWriter :: "nat \<Rightarrow> resp_writer" where
  "resp_NewWriter size0 = \<lparr>rw_buf = [], rw_offset = 0\<rparr>"

definition AppendBulk :: "resp_writer \<Rightarrow> bytes \<Rightarrow> resp_writer" where
  "AppendBulk w data = w\<lparr>rw_buf := resp_appendBulk (rw_buf w) data\<rparr>"

definition AppendArray :: "resp_writer \<Rightarrow> int64 \<Rightarrow> resp_writer" where
  "AppendArray w count = w\<lparr>rw_buf := resp_appendPrefix (rw_buf w) (CHR ''*'') count\<rparr>"

definition AppendError :: "resp_writer \<Rightarrow> bytes \<Rightarrow> resp_writer" where
  "AppendError w msg = w\<lparr>rw_buf := resp_appendError (rw_buf w) msg\<rparr>"

definition AppendString :: "resp_writer \<Rightarrow> bytes \<Rightarrow> resp_writer" where
  "AppendString w msg = w\<lparr>rw_buf := resp_appendString (rw_buf w) msg\<rparr>"

definition AppendInt :: "resp_writer \<Rightarrow> int64 \<Rightarrow> resp_writer" where
  "AppendInt w n = w\<lparr>rw_buf := resp_appendPrefix (rw_buf w) (CHR '':'') n\<rparr>"

definition AppendNull :: "resp_writer \<Rightarrow> resp_writer" where
  "AppendNull w = w\<lparr>rw_buf := rw_buf w @ ''$-1'' @ CRLF\<rparr>"

text \<open>A panic of \<^verbatim>\<open>appendAny\<close> leaves the buffer as it was: it is assigned after the call.\<close>

definition AppendAny :: "('f, 'k) go_values \<Rightarrow> resp_writer \<Rightarrow> ('f, 'k) any \<Rightarrow> resp_writer go" where
  "AppendAny R w v =
     (case appendAny R (rw_buf w) v of Inl p \<Rightarrow> Inl p | Inr b \<Rightarrow> Inr (w\<lparr>rw_buf := b\<rparr>))"

definition resp_Bytes :: "resp_writer \<Rightarrow> bytes" where
  "resp_Bytes w = rw_buf w"

definition resp_Reset :: "resp_writer \<Rightarrow> resp_writer" where
  "resp_Reset w = w\<lparr>rw_buf := [], rw_offset := 0\<rparr>"

text \<open>The error of the destination is returned as it is.\<close>

definition resp_Flush ::
  "('d \<Rightarrow> bytes \<Rightarrow> 'd \<times> 'e option) \<Rightarrow> resp_writer \<Rightarrow> 'd \<Rightarrow> resp_writer \<times> 'd \<times> 'e option" where
  "resp_Flush conn_Write w dst =
     (if length (rw_buf w) = 0 then (w, dst, None)
      else let (dst', err) = conn_Write dst (rw_buf w) in (resp_Reset w, dst', err))"

lemmas resp_writer_defs = resp_NewWriter_def AppendBulk_def AppendArray_def AppendError_def
  AppendString_def AppendInt_def AppendNull_def AppendAny_def resp_Bytes_def resp_Reset_def

section \<open>Refinement of the encoding\<close>

text \<open>A slice that holds nothing is the empty array, not the null array.\<close>

definition array_value :: "rvalue list \<Rightarrow> rvalue" where
  "array_value vs = RespValue TypeArray [] 0 None (Some vs)"

definition text_of :: "bytes go \<Rightarrow> bytes" where
  "text_of r = (case r of Inl p \<Rightarrow> [] | Inr s \<Rightarrow> s)"

fun any_value :: "('f, 'k) go_values \<Rightarrow> ('f, 'k) any \<Rightarrow> rvalue" where
  "any_value R (AnySimpleString s) = SimpleString s"
| "any_value R (AnySimpleInt n) = Integer n"
| "any_value R (AnySimpleError e) = Error (text_of (AnySimpleError_Error e))"
| "any_value R AnyNil = Null"
| "any_value R (AnyError r) = Error (prefixERRIfNeeded (text_of r))"
| "any_value R (AnyString s) = BulkFromString s"
| "any_value R (AnyBytes s) = BulkBytes s"
| "any_value R (AnyBool x) = BulkFromString (if x then ''1'' else ''0'')"
| "any_value R (AnyInt n) = BulkFromString (formatInt n)"
| "any_value R (AnyInt8 n) = BulkFromString (formatInt (word_of_int (sint n)))"
| "any_value R (AnyInt16 n) = BulkFromString (formatInt (word_of_int (sint n)))"
| "any_value R (AnyInt32 n) = BulkFromString (formatInt (word_of_int (sint n)))"
| "any_value R (AnyInt64 n) = BulkFromString (formatInt n)"
| "any_value R (AnyUint n) = BulkFromString (formatUint (unat n))"
| "any_value R (AnyUint8 n) = BulkFromString (formatUint (unat n))"
| "any_value R (AnyUint16 n) = BulkFromString (formatUint (unat n))"
| "any_value R (AnyUint32 n) = BulkFromString (formatUint (unat n))"
| "any_value R (AnyUint64 n) = BulkFromString (formatUint (unat n))"
| "any_value R (AnyFloat32 f) = BulkFromString (fmt_float R f)"
| "any_value R (AnyFloat64 f) = BulkFromString (fmt_float R f)"
| "any_value R (AnySlice vs) = array_value (map (any_value R) vs)"
| "any_value R (AnyMap kvs) = 
    array_value (concat (map (\<lambda>(k, v). [BulkFromString (fmt_key R k), any_value R v]) kvs))"
| "any_value R (AnyOther s) = BulkFromString s"

text \<open>
  The panics a value holds, in the order in which \<^verbatim>\<open>appendAny\<close> comes to them: those of \<^verbatim>\<open>Error\<close> methods, and
  one for every key that is not equal to itself, whose entry cannot be looked up.
\<close>

definition panic_of :: "bytes go \<Rightarrow> go_panic list" where
  "panic_of r = (case r of Inl p \<Rightarrow> [p] | Inr s \<Rightarrow> [])"

fun any_panics :: "('k \<Rightarrow> 'k \<Rightarrow> bool) \<Rightarrow> ('f, 'k) any \<Rightarrow> go_panic list" where
  "any_panics eq (AnySimpleError e) = panic_of (AnySimpleError_Error e)"
| "any_panics eq (AnyError r) = panic_of r"
| "any_panics eq (AnySlice vs) = concat (map (any_panics eq) vs)"
| "any_panics eq (AnyMap kvs) =
    concat (map (\<lambda>(k, v). if eq k k then any_panics eq v else [Zero_reflect_value]) kvs)"
| "any_panics eq _ = []"

text \<open>No map, however deep, has two entries with equal keys.\<close>

definition distinct_keys :: "('k \<Rightarrow> 'k \<Rightarrow> bool) \<Rightarrow> ('k \<times> 'v) list \<Rightarrow> bool" where
  "distinct_keys eq m \<longleftrightarrow> sorted_wrt (\<lambda>x y. \<not> eq (fst x) (fst y) \<and> \<not> eq (fst y) (fst x)) m"

fun any_maps :: "('k \<Rightarrow> 'k \<Rightarrow> bool) \<Rightarrow> ('f, 'k) any \<Rightarrow> bool" where
  "any_maps eq (AnySlice vs) \<longleftrightarrow> (\<forall>v \<in> set vs. any_maps eq v)"
| "any_maps eq (AnyMap kvs) \<longleftrightarrow> distinct_keys eq kvs \<and> (\<forall>kv \<in> set kvs. any_maps eq (snd kv))"
| "any_maps eq _ \<longleftrightarrow> True"

text \<open>How a call ends: with the first panic, or with its result.\<close>

definition ends_with :: "go_panic list \<Rightarrow> 'a \<Rightarrow> 'a go" where
  "ends_with ps b = (case ps of [] \<Rightarrow> Inr b | p # _ \<Rightarrow> Inl p)"

lemma ends_with_simps [simp]:
  "ends_with [] b = Inr b" "ends_with (p # ps) b = Inl p"
  by (simp_all add: ends_with_def)

lemma ends_with_panic_of:
  "(case r of Inl p \<Rightarrow> Inl p | Inr s \<Rightarrow> Inr (f s)) = ends_with (panic_of r) (f (text_of r))"
  by (cases r) (simp_all add: panic_of_def text_of_def)

lemma MapIndex_own:
  assumes "distinct_keys eq (m1 @ (k, v) # m2)"
  shows "MapIndex eq (m1 @ (k, v) # m2) k = (if eq k k then Some v else None)"
proof -
  have other: "find (\<lambda>kv. eq k (fst kv)) m1 = None" "find (\<lambda>kv. eq k (fst kv)) m2 = None"
    using assms by (auto simp: distinct_keys_def sorted_wrt_append find_None_iff)
  then show ?thesis by (induction m1) (auto simp: MapIndex_def split: if_splits)
qed

lemma resp_writer_helpers:
  "resp_stripNewlines = stripNewlines" "resp_appendPrefix = appendPrefix"
  "resp_appendBulk = appendBulk" "resp_appendBulkString = appendBulk"
  "resp_appendError = appendError" "resp_appendString = appendSimpleString"
proof -
  show strip: "resp_stripNewlines = stripNewlines"
    by (intro ext) (simp only: resp_stripNewlines_def stripNewlines_def)
  show pre: "resp_appendPrefix = appendPrefix"
    by (intro ext) (simp only: resp_appendPrefix_def appendPrefix_def)
  show "resp_appendBulk = appendBulk" "resp_appendBulkString = appendBulk"
    by (intro ext, simp only: resp_appendBulk_def resp_appendBulkString_def appendBulk_def pre)+
  show "resp_appendError = appendError" "resp_appendString = appendSimpleString"
    by (intro ext, simp only: resp_appendError_def resp_appendString_def appendError_def
        appendSimpleString_def strip)+
qed

lemma encode_simps [simp]:
  "encode (SimpleString s) = ''+'' @ stripNewlines s @ CRLF"
  "encode (Error s) = ''-'' @ stripNewlines s @ CRLF"
  "encode (Integer n) = encode_line (CHR '':'') (formatInt n)"
  "encode Null = ''$-1'' @ CRLF"
  "encode (BulkBytes None) = ''$-1'' @ CRLF"
  "encode (BulkBytes (Some s)) =
    encode_line (CHR ''$'') (formatInt (word_of_nat (length s))) @ s @ CRLF"
  "encode (BulkFromString s) =
    encode_line (CHR ''$'') (formatInt (word_of_nat (length s))) @ s @ CRLF"
  "encode (array_value vs) =
    encode_line (CHR ''*'') (formatInt (word_of_nat (length vs))) @ concat (map encode vs)"
  by (simp_all add: value_constructors array_value_def encode_line_def)

lemmas append_simps = resp_writer_helpers appendPrefix_line appendBulk_def appendError_def
  appendSimpleString_def resp_appendBulkInt_def resp_appendBulkUint_def resp_appendBulkFloat_def

lemma unat_widen:
  "LENGTH('a) \<le> 64 \<Longrightarrow> unat (ucast (n :: 'a::len word) :: 64 word) = unat n"
proof -
  assume "LENGTH('a) \<le> 64"
  then have "(2 :: nat) ^ LENGTH('a) \<le> 2 ^ 64" by (rule power_increasing) simp
  with unsigned_less [of n, where 'a = nat] have "unat n < 2 ^ 64" by (rule order_less_le_trans)
  then show ?thesis by (simp add: unsigned_ucast_eq take_bit_nat_eq_self)
qed

lemma length_pairs: "length (concat (map (\<lambda>(k, v). [f k, g v]) kvs)) = length kvs * 2"
  by (induction kvs) auto

abbreviation entry_panics :: "('k \<Rightarrow> 'k \<Rightarrow> bool) \<Rightarrow> ('k \<times> ('f, 'k) any) list \<Rightarrow> go_panic list" where
  "entry_panics eq kvs \<equiv>
    concat (map (\<lambda>(k, v). if eq k k then any_panics eq v else [Zero_reflect_value]) kvs)"

abbreviation entry_values :: "('f, 'k) go_values \<Rightarrow> ('k \<times> ('f, 'k) any) list \<Rightarrow> rvalue list" where
  "entry_values R kvs \<equiv> concat (map (\<lambda>(k, v). [BulkFromString (fmt_key R k), any_value R v]) kvs)"

lemma appendAny_encode:
  "any_maps (key_eq R) v \<Longrightarrow>
    appendAny R b v = ends_with (any_panics (key_eq R) v) (b @ encode (any_value R v))"
  and append_slice_encode: "list_all (any_maps (key_eq R)) vs \<Longrightarrow>
    append_slice R b vs =
      ends_with (concat (map (any_panics (key_eq R)) vs)) (b @ concat (map (encode \<circ> any_value R) vs))"
  and append_map_encode: "distinct_keys (key_eq R) m \<Longrightarrow> list_all (any_maps (key_eq R) \<circ> snd) m \<Longrightarrow>
    m = m1 @ m2 \<Longrightarrow> keys = map fst m2 \<Longrightarrow>
    append_map R b m keys =
      ends_with (entry_panics (key_eq R) m2) (b @ concat (map encode (entry_values R m2)))"
proof (induction R b v and R b vs and R b m keys arbitrary: and and m1 m2
    rule: appendAny_append_slice_append_map.induct)
  case (1 R b v)
  then show ?case
    by (cases v)
      (simp_all add: appendAny.simps append_simps list_all_iff unat_widen comp_def length_pairs
        ends_with_panic_of split: option.split)
next
  case (2 R b vs)
  then show ?case
    by (cases vs; cases "any_panics (key_eq R) (hd vs)") (simp_all add: append_slice.simps comp_def)
next
  case (3 R b m keys)
  show ?case
  proof (cases m2)
    case Nil
    with 3 show ?thesis by (simp add: append_map.simps)
  next
    case (Cons kv ms)
    then obtain k v where m: "m = m1 @ (k, v) # ms" "m2 = (k, v) # ms" "keys = k # map fst ms"
      using 3 by (cases kv) simp
    have found: "Value_Interface (MapIndex (key_eq R) m k) = (if key_eq R k k then Inr v else Inl Zero_reflect_value)"
      using MapIndex_own [of "key_eq R" m1 k v ms] 3 by (simp add: m(1) Value_Interface_def)
    show ?thesis
    proof (cases "key_eq R k k")
      case False
      with found show ?thesis by (simp add: append_map.simps m(2,3))
    next
      case True
      let ?b = "resp_appendBulkString b (fmt_key R k)"
      have one: "appendAny R ?b v = ends_with (any_panics (key_eq R) v) (?b @ encode (any_value R v))"
        by (rule "3.IH"(1) [OF m(3)]) (use 3(4) found True in \<open>simp_all add: m(1)\<close>)
      show ?thesis
      proof (cases "any_panics (key_eq R) v")
        case Nil
        have "append_map R (?b @ encode (any_value R v)) m (map fst ms) =
            ends_with (entry_panics (key_eq R) ms)
              ((?b @ encode (any_value R v)) @ concat (map encode (entry_values R ms)))"
          by (rule "3.IH"(2) [OF m(3), of v _ "m1 @ [(k, v)]"]) (use 3(3,4) found True one in \<open>simp_all add: m(1) Nil\<close>)
        with found True one Nil show ?thesis by (simp add: append_map.simps m(2,3) append_simps)
      next
        case Cons
        with found True one show ?thesis by (simp add: append_map.simps m(2,3))
      qed
    qed
  qed
qed

section \<open>Error codes are upper case\<close>

lemma find_prefix_cases:
  "find (\<lambda>e. e \<noteq> [] \<and> prefix e s) encs = Some e \<Longrightarrow> e \<in> set encs \<and> e \<noteq> [] \<and> prefix e s"
  by (auto simp: find_Some_iff)

lemma trim_by_stops:
  "\<forall>e \<in> set encs. c \<notin> set e \<Longrightarrow> \<exists>u'. trim_by encs (u @ c # v) = u' @ c # v"
proof (induction "length u" arbitrary: u rule: less_induct)
  case less
  show ?case
  proof (cases "find (\<lambda>e. e \<noteq> [] \<and> prefix e (u @ c # v)) encs")
    case None
    then show ?thesis by (subst trim_by.simps) auto
  next
    case (Some e)
    note e = find_prefix_cases [OF Some]
    have "prefix e u"
    proof (rule ccontr)
      assume "\<not> prefix e u"
      with e obtain x where "e = u @ c # x" by (auto simp: prefix_append prefix_Cons)
      with e less.prems show False by auto
    qed
    with e obtain w where w: "u = e @ w" by (auto elim: prefixE)
    with e less.hyps [of w] less.prems obtain u' where "trim_by encs (w @ c # v) = u' @ c # v" by auto
    with Some w show ?thesis by (subst trim_by.simps) simp
  qed
qed

lemma trim_by_suffix: "suffix (trim_by encs s) s"
proof (induction encs s rule: trim_by.induct)
  case (1 encs s)
  show ?case
  proof (cases "find (\<lambda>e. e \<noteq> [] \<and> prefix e s) encs")
    case None
    then show ?thesis by (subst trim_by.simps) simp
  next
    case (Some e)
    with 1 have "suffix (trim_by encs (drop (length e) s)) (drop (length e) s)" by simp
    with Some show ?thesis by (subst trim_by.simps) (auto intro: suffix_order.trans suffix_drop)
  qed
qed

lemma TrimSpace_keeps_word:
  assumes "\<forall>e \<in> set space_encodings. c \<notin> set e \<and> d \<notin> set e"
  shows "\<exists>t. prefix t s \<and> strings_TrimSpace (d # u @ c # s) = d # u @ c # t"
proof -
  have start: "trim_by space_encodings (d # u @ c # s) = d # u @ c # s"
    using trim_by_stops [of space_encodings d "[]" "u @ c # s"] trim_by_suffix [of space_encodings "d # u @ c # s"]
      assms by (auto simp: suffix_def)
  have "\<forall>e \<in> set (map rev space_encodings). c \<notin> set e" using assms by auto
  then obtain u' where u': "trim_by (map rev space_encodings) (rev s @ c # rev u @ [d]) = u' @ c # rev u @ [d]"
    using trim_by_stops by blast
  have "suffix (u' @ c # rev u @ [d]) (rev s @ c # rev u @ [d])"
    using trim_by_suffix [of "map rev space_encodings" "rev s @ c # rev u @ [d]"] u' by simp
  then have "prefix (rev u') s" by (auto simp: suffix_to_prefix prefix_def)
  with start u' show ?thesis by (simp add: strings_TrimSpace_def)
qed

lemma space_encodings_letters: "\<forall>e \<in> set space_encodings. CHR ''E'' \<notin> set e \<and> CHR ''R'' \<notin> set e"
  by (simp add: space_encodings_def)

lemma error_code_ERR: "prefix t (SP # msg) \<Longrightarrow> error_code (''ERR'' @ t) = ''ERR''"
  by (cases t) (auto simp: error_code_def)

lemma prefixERRIfNeeded_code:
  "error_code (prefixERRIfNeeded s) \<noteq> [] \<and> list_all is_upper (error_code (prefixERRIfNeeded s))"
proof -
  define msg where "msg = strings_TrimSpace s"
  obtain t where t: "prefix t (SP # msg)" "strings_TrimSpace (''ERR '' @ msg) = ''ERR'' @ t"
    using TrimSpace_keeps_word [of "CHR ''R''" "CHR ''E''" "SP # msg" "''R''"] space_encodings_letters
    by auto
  show ?thesis
  proof (cases "length (error_code msg) = 0 \<or> list_ex (\<lambda>c. \<not> is_upper c) (error_code msg)")
    case True
    then have "prefixERRIfNeeded s = ''ERR'' @ t"
      using t(2) by (simp add: prefixERRIfNeeded_def Let_def msg_def)
    then have "error_code (prefixERRIfNeeded s) = ''ERR''" using error_code_ERR [OF t(1)] by simp
    then show ?thesis by (simp add: is_upper_def)
  next
    case False
    then have "prefixERRIfNeeded s = msg" by (simp add: prefixERRIfNeeded_def Let_def msg_def)
    with False show ?thesis by (simp add: list_all_iff list_ex_iff)
  qed
qed

section \<open>Properties\<close>

text \<open>
  C30: \<^verbatim>\<open>AppendAny\<close> of a finite value appends the encoding of the RESP value that stands for it, keeping
  what the buffer holds, unless the value holds a panic: an \<^verbatim>\<open>Error\<close> method that panics, as that of an
  \<^verbatim>\<open>AnySimpleError\<close> with a nil error does, or a map key that is not equal to itself (a NaN), whose entry
  \<^verbatim>\<open>MapIndex\<close> does not find. Then the call ends with the first of them. That a map has no two equal keys
  is what Go promises of its maps.
\<close>

theorem append_any_encodes:
  assumes "any_maps (key_eq R) v"
  shows "AppendAny R w v =
    (case any_panics (key_eq R) v of
       [] \<Rightarrow> Inr (w\<lparr>rw_buf := rw_buf w @ encode (any_value R v)\<rparr>)
     | p # _ \<Rightarrow> Inl p)"
  using appendAny_encode [OF assms] by (simp add: AppendAny_def ends_with_def split: list.split)

text \<open>A map with the keys \<open>1\<close> and NaN: the first entry is appended, the second one panics.\<close>

definition float_values :: "(nat option, nat option) go_values" where
  "float_values =
     (let print = (\<lambda>x. case x of None \<Rightarrow> ''NaN'' | Some n \<Rightarrow> formatUint n)
      in \<lparr>fmt_float = print, fmt_key = print, key_eq = (\<lambda>x y. x \<noteq> None \<and> x = y)\<rparr>)"

theorem append_any_encodes_witness:
  "AppendAny float_values (resp_NewWriter 0) (AnyMap [(Some 1, AnySlice [AnyBool True, AnyNil])]) =
      Inr \<lparr>rw_buf = ''*2'' @ CRLF @ ''$1'' @ CRLF @ ''1'' @ CRLF @ ''*2'' @ CRLF @ ''$1'' @ CRLF @ ''1'' @ CRLF @ ''$-1'' @ CRLF,
        rw_offset = 0\<rparr> \<and>
    AppendAny float_values (resp_NewWriter 0) (AnyMap [(Some 1, AnyNil), (None, AnyNil), (Some 2, AnySimpleError None)]) =
      Inl Zero_reflect_value"
proof -
  have maps: "any_maps (key_eq float_values) (AnyMap [(Some 1, AnySlice [AnyBool True, AnyNil])])"
      "any_maps (key_eq float_values) (AnyMap [(Some 1, AnyNil), (None, AnyNil), (Some 2, AnySimpleError None)])"
    by (simp_all add: float_values_def distinct_keys_def Let_def)
  show ?thesis
    unfolding append_any_encodes [OF maps(1)] append_any_encodes [OF maps(2)]
    by (simp add: float_values_def Let_def resp_NewWriter_def encode_line_def formatInt_def formatUint.simps digit_byte_literals)
qed

text \<open>
  C29: A simple string or an error is sent as one line by both writers, whatever bytes it holds: what
  is appended is the type, the text with a space for every carriage return and line feed, and the end
  of the line, so the content of a reply cannot split it.
\<close>

theorem line_reply_is_one_line:
  "\<exists>line. line = map (\<lambda>c. if c = CR \<or> c = LF then SP else c) s \<and> CR \<notin> set line \<and> LF \<notin> set line \<and>
    appendSimpleString b s = b @ ''+'' @ line @ CRLF \<and> appendError b s = b @ ''-'' @ line @ CRLF \<and>
    SerializeValue (SimpleString s) = ''+'' @ line @ CRLF \<and> SerializeValue (Error s) = ''-'' @ line @ CRLF \<and>
    AppendString w s = w\<lparr>rw_buf := rw_buf w @ ''+'' @ line @ CRLF\<rparr> \<and>
    AppendError w s = w\<lparr>rw_buf := rw_buf w @ ''-'' @ line @ CRLF\<rparr>"
  by (intro exI [of _ "stripNewlines s"])
    (simp add: stripNewlines_no_crlf stripNewlines_map [symmetric] appendSimpleString_def appendError_def
      AppendString_def AppendError_def resp_writer_helpers)

text \<open>
  Every Go error whose \<^verbatim>\<open>Error\<close> returns is sent as an error line whose first word is a non-empty upper-case code, \<^verbatim>\<open>ERR\<close>
  unless the text brings its own.
\<close>

theorem any_error_has_code:
  "\<exists>msg. AppendAny R w (AnyError (Inr s)) = Inr (w\<lparr>rw_buf := rw_buf w @ ''-'' @ stripNewlines msg @ CRLF\<rparr>) \<and>
    error_code msg \<noteq> [] \<and> list_all is_upper (error_code msg) \<and>
    msg = (if error_code (strings_TrimSpace s) \<noteq> [] \<and> list_all is_upper (error_code (strings_TrimSpace s))
           then strings_TrimSpace s else strings_TrimSpace (''ERR '' @ strings_TrimSpace s))"
proof (intro exI conjI)
  show "AppendAny R w (AnyError (Inr s)) =
      Inr (w\<lparr>rw_buf := rw_buf w @ ''-'' @ stripNewlines (prefixERRIfNeeded s) @ CRLF\<rparr>)"
    by (simp add: AppendAny_def appendAny_encode panic_of_def text_of_def)
  show "prefixERRIfNeeded s =
      (if error_code (strings_TrimSpace s) \<noteq> [] \<and> list_all is_upper (error_code (strings_TrimSpace s))
       then strings_TrimSpace s else strings_TrimSpace (''ERR '' @ strings_TrimSpace s))"
    unfolding prefixERRIfNeeded_def Let_def by (simp only: list_ex_iff list_all_iff length_0_conv) auto
qed (use prefixERRIfNeeded_code [of s] in simp_all)

end
