(* ===== verification/Pub_Sub.thy ===== *)
theory Pub_Sub
  imports Resp_Writer "HOL-Library.Multiset"
begin

text \<open>
  \<^verbatim>\<open>pubsub.go\<close>: the registry of subscriptions, the values it sends, and how they are written to a
  connection. The methods of the interface \<^verbatim>\<open>Conn\<close> are supplied by the user: a parameter \<open>api\<close>
  that performs a call on the state of the outside world and may return an error. The order in which \<^verbatim>\<open>Publish\<close> walks through the maps is a parameter too, as is
  \<^verbatim>\<open>path.Match\<close>. Lemmas: a value is written as the calls of \<open>legacy_calls\<close> up to the first
  error. What the registry promises is in the theory \<open>Pub_Sub_Table\<close>, what happens when operations
  overlap in \<open>Pub_Sub_Runs\<close>.
\<close>

section \<open>Connections\<close>

type_synonym conn_id = nat

datatype conn_call =
    WriteString bytes
  | WriteBulk bytes
  | WriteInt int64
  | WriteArray int64
  | WriteNull
  | WriteError bytes
  | WriteAny rvalue
  | FlushConn

type_synonym ('w, 'e) conn_api = "conn_id \<Rightarrow> conn_call \<Rightarrow> 'w \<Rightarrow> 'w \<times> 'e option"

text \<open>A sequence of calls, given up at the first error.\<close>

fun do_calls :: "('w, 'e) conn_api \<Rightarrow> conn_id \<Rightarrow> conn_call list \<Rightarrow> 'w \<Rightarrow> 'w \<times> 'e option" where
  "do_calls api c [] w = (w, None)"
| "do_calls api c (call # calls) w =
     (case api c call w of
        (w', Some e) \<Rightarrow> (w', Some e)
      | (w', None) \<Rightarrow> do_calls api c calls w')"

lemma do_calls_append:
  "do_calls api c (xs @ ys) w =
     (case do_calls api c xs w of
        (w', Some e) \<Rightarrow> (w', Some e)
      | (w', None) \<Rightarrow> do_calls api c ys w')"
  by (induction xs arbitrary: w) (auto split: prod.split option.split)

lemma do_calls_single: "do_calls api c [call] w = api c call w"
  by (auto split: prod.split option.split)

function writeLegacyValue :: "('w, 'e) conn_api \<Rightarrow> conn_id \<Rightarrow> rvalue \<Rightarrow> 'w \<Rightarrow> 'w \<times> 'e option"
  and writeLegacyElems :: "('w, 'e) conn_api \<Rightarrow> conn_id \<Rightarrow> rvalue list \<Rightarrow> 'w \<Rightarrow> 'w \<times> 'e option" where
  "writeLegacyValue api c (RespValue t s n b a) w =
     (if t = TypeArray then
        (case api c (WriteArray (word_of_nat (length (opt_list a)))) w of
           (w', Some e) \<Rightarrow> (w', Some e)
         | (w', None) \<Rightarrow> writeLegacyElems api c (opt_list a) w')
      else if t = TypeBulkString then
        (case b of None \<Rightarrow> api c WriteNull w | Some bulk \<Rightarrow> api c (WriteBulk bulk) w)
      else if t = TypeInteger then api c (WriteInt n) w
      else if t = TypeSimpleString then api c (WriteString s) w
      else if t = TypeError then api c (WriteError s) w
      else if t = TypeNull then api c WriteNull w
      else api c (WriteAny (RespValue t s n b a)) w)"
| "writeLegacyElems api c [] w = (w, None)"
| "writeLegacyElems api c (elem # vs) w =
     (case writeLegacyValue api c elem w of
        (w', Some e) \<Rightarrow> (w', Some e)
      | (w', None) \<Rightarrow> writeLegacyElems api c vs w')"
  by pat_completeness auto
termination
  by (relation "measure (\<lambda>x. case x of Inl (_, _, v, _) \<Rightarrow> size v | Inr (_, _, vs, _) \<Rightarrow> size_list size vs)")
    (auto simp: size_elems le_imp_less_Suc trans_le_add2)

text \<open>The calls that write a value.\<close>

function legacy_calls :: "rvalue \<Rightarrow> conn_call list" where
  "legacy_calls (RespValue t s n b a) =
     (if t = TypeArray then
        WriteArray (word_of_nat (length (opt_list a))) # concat (map legacy_calls (opt_list a))
      else if t = TypeBulkString then [case b of None \<Rightarrow> WriteNull | Some bulk \<Rightarrow> WriteBulk bulk]
      else if t = TypeInteger then [WriteInt n]
      else if t = TypeSimpleString then [WriteString s]
      else if t = TypeError then [WriteError s]
      else if t = TypeNull then [WriteNull]
      else [WriteAny (RespValue t s n b a)])"
  by pat_completeness auto
termination
  by (relation "measure size") (auto dest: size_elem simp del: resp_value.size)

lemma writeLegacyValue_calls: "writeLegacyValue api c v w = do_calls api c (legacy_calls v) w"
  and writeLegacyElems_calls:
    "writeLegacyElems api c vs w = do_calls api c (concat (map legacy_calls vs)) w"
  by (induction api c v w and api c vs w rule: writeLegacyValue_writeLegacyElems.induct)
    (auto simp: do_calls_append split: prod.split option.split)

section \<open>The registry\<close>

text \<open>
  A client object is created per connection; \<open>client_ptr\<close> is its identity, \<open>client_conn\<close> the connection
  its writer writes to. The entries are compared with their client pointers.
\<close>

datatype client = Client (client_ptr: nat) (client_conn: conn_id)

record entry =
  en_pattern :: bool
  en_value :: bytes
  en_client :: client

record pubsub =
  ps_clients :: "conn_id \<rightharpoonup> client"
  ps_entries :: "conn_id \<rightharpoonup> entry list"
  ps_next :: nat

definition NewPubSub :: pubsub where
  "NewPubSub = \<lparr>ps_clients = Map.empty, ps_entries = Map.empty, ps_next = 0\<rparr>"

definition ensureClient :: "conn_id \<Rightarrow> pubsub \<Rightarrow> client \<times> pubsub" where
  "ensureClient c ps =
     (case ps_clients ps c of
        Some cl \<Rightarrow> (cl, ps)
      | None \<Rightarrow>
          let cl = Client (ps_next ps) c
          in (cl, ps\<lparr>ps_clients := (ps_clients ps)(c \<mapsto> cl),
                ps_entries := (ps_entries ps)(c \<mapsto> []), ps_next := Suc (ps_next ps)\<rparr>))"

text \<open>
  The part of \<^verbatim>\<open>Subscribe\<close> and \<^verbatim>\<open>PSubscribe\<close> under the lock of the registry: the client and the number of
  its entries after the new one is added.
\<close>

definition subscribe_register :: "bool \<Rightarrow> conn_id \<Rightarrow> bytes \<Rightarrow> pubsub \<Rightarrow> (client \<times> nat \<times> pubsub) go" where
  "subscribe_register pat c v ps =
     (let (cl, ps1) = ensureClient c ps;
          en = \<lparr>en_pattern = pat, en_value = v, en_client = cl\<rparr>
      in case ps_entries ps1 c of
           None \<Rightarrow> Inl Assignment_to_nil_map
         | Some es \<Rightarrow>
             let es' = List.insert en es
             in Inr (cl, length es', ps1\<lparr>ps_entries := (ps_entries ps1)(c \<mapsto> es')\<rparr>))"

text \<open>Likewise of \<^verbatim>\<open>unsubscribe\<close>: \<open>None\<close> when the connection has no client. A missing inner map is empty.\<close>

definition unsubscribe_register ::
  "bool \<Rightarrow> conn_id \<Rightarrow> bytes \<Rightarrow> pubsub \<Rightarrow> (client \<times> nat) option \<times> pubsub" where
  "unsubscribe_register pat c v ps =
     (case ps_clients ps c of
        None \<Rightarrow> (None, ps)
      | Some cl \<Rightarrow>
          let es = opt_list (ps_entries ps c);
              es' = filter (\<lambda>en. \<not> (en_pattern en = pat \<and> en_value en = v)) es;
              n = length es'
          in (Some (cl, n),
              if n = 0 then ps\<lparr>ps_entries := (ps_entries ps)(c := None),
                               ps_clients := (ps_clients ps)(c := None)\<rparr>
              else ps\<lparr>ps_entries := (ps_entries ps)(c \<mapsto> es')\<rparr>))"

section \<open>Messages\<close>

definition buildSubscribeAckValue :: "bytes \<Rightarrow> bytes \<Rightarrow> nat \<Rightarrow> rvalue" where
  "buildSubscribeAckValue kind v cnt =
     ArrayOf [BulkFromString kind, BulkFromString v, Integer (word_of_nat cnt)]"

definition buildPublishMessageValue :: "bytes \<Rightarrow> bytes \<Rightarrow> rvalue" where
  "buildPublishMessageValue channel message =
     ArrayOf [BulkFromString ''message'', BulkFromString channel, BulkFromString message]"

definition buildPatternMessageValue :: "bytes \<Rightarrow> bytes \<Rightarrow> bytes \<Rightarrow> rvalue" where
  "buildPatternMessageValue pat channel message =
     ArrayOf [BulkFromString ''pmessage'', BulkFromString pat, BulkFromString channel,
       BulkFromString message]"

text \<open>\<^verbatim>\<open>WriteValue\<close>, then \<^verbatim>\<open>Flush\<close> when it succeeds, on the writer of a client.\<close>

definition WriteValue :: "('w, 'e) conn_api \<Rightarrow> client \<Rightarrow> rvalue \<Rightarrow> 'w \<Rightarrow> 'w \<times> 'e option" where
  "WriteValue api cl v w = writeLegacyValue api (client_conn cl) v w"

definition client_Flush :: "('w, 'e) conn_api \<Rightarrow> client \<Rightarrow> 'w \<Rightarrow> 'w \<times> 'e option" where
  "client_Flush api cl w = api (client_conn cl) FlushConn w"

definition write_and_flush :: "('w, 'e) conn_api \<Rightarrow> client \<Rightarrow> rvalue \<Rightarrow> 'w \<Rightarrow> 'w \<times> 'e option" where
  "write_and_flush api cl v w =
     (case WriteValue api cl v w of
        (w', Some e) \<Rightarrow> (w', Some e)
      | (w', None) \<Rightarrow> client_Flush api cl w')"

definition frame :: "rvalue \<Rightarrow> conn_call list" where
  "frame v = legacy_calls v @ [FlushConn]"

lemma write_and_flush_calls: "write_and_flush api cl v w = do_calls api (client_conn cl) (frame v) w"
  by (simp add: write_and_flush_def WriteValue_def client_Flush_def frame_def writeLegacyValue_calls
      do_calls_append split: prod.split option.split)

section \<open>The operations\<close>

text \<open>Registry and outside world are passed along; the result has the error of the acknowledgement.\<close>

definition Subscribe ::
  "('w, 'e) conn_api \<Rightarrow> conn_id \<Rightarrow> bytes \<Rightarrow> pubsub \<Rightarrow> 'w \<Rightarrow> (pubsub \<times> 'w \<times> 'e option) go" where
  "Subscribe api c channel ps w =
     (case subscribe_register False c channel ps of
        Inl p \<Rightarrow> Inl p
      | Inr (cl, cnt, ps') \<Rightarrow>
          Inr (ps', write_and_flush api cl (buildSubscribeAckValue ''subscribe'' channel cnt) w))"

definition PSubscribe ::
  "('w, 'e) conn_api \<Rightarrow> conn_id \<Rightarrow> bytes \<Rightarrow> pubsub \<Rightarrow> 'w \<Rightarrow> (pubsub \<times> 'w \<times> 'e option) go" where
  "PSubscribe api c pat ps w =
     (case subscribe_register True c pat ps of
        Inl p \<Rightarrow> Inl p
      | Inr (cl, cnt, ps') \<Rightarrow>
          Inr (ps', write_and_flush api cl (buildSubscribeAckValue ''psubscribe'' pat cnt) w))"

definition unsubscribe ::
  "('w, 'e) conn_api \<Rightarrow> conn_id \<Rightarrow> bool \<Rightarrow> bytes \<Rightarrow> pubsub \<Rightarrow> 'w \<Rightarrow> pubsub \<times> 'w \<times> 'e option" where
  "unsubscribe api c pat v ps w =
     (case unsubscribe_register pat c v ps of
        (None, ps') \<Rightarrow> (ps', w, None)
      | (Some (cl, cnt), ps') \<Rightarrow>
          let name = (if pat then ''punsubscribe'' else ''unsubscribe'')
          in (ps', write_and_flush api cl (buildSubscribeAckValue name v cnt) w))"

definition Unsubscribe ::
  "('w, 'e) conn_api \<Rightarrow> conn_id \<Rightarrow> bytes \<Rightarrow> pubsub \<Rightarrow> 'w \<Rightarrow> pubsub \<times> 'w \<times> 'e option" where
  "Unsubscribe api c channel ps w = unsubscribe api c False channel ps w"

definition PUnsubscribe ::
  "('w, 'e) conn_api \<Rightarrow> conn_id \<Rightarrow> bytes \<Rightarrow> pubsub \<Rightarrow> 'w \<Rightarrow> pubsub \<times> 'w \<times> 'e option" where
  "PUnsubscribe api c pat ps w = unsubscribe api c True pat ps w"

text \<open>
  \<^verbatim>\<open>path.Match\<close> is the parameter \<open>pm\<close>; \<open>None\<close> is its error for a malformed pattern. \<open>order\<close> is the
  order in which the two nested loops over the maps visit the entries.
\<close>

definition entry_matches :: "(bytes \<Rightarrow> bytes \<Rightarrow> bool option) \<Rightarrow> bytes \<Rightarrow> entry \<Rightarrow> bool" where
  "entry_matches pm channel en =
     (if en_pattern en then pm (en_value en) channel = Some True else en_value en = channel)"

definition publish_matches ::
  "(bytes \<Rightarrow> bytes \<Rightarrow> bool option) \<Rightarrow> bytes \<Rightarrow> (conn_id \<times> entry list) list \<Rightarrow> entry list" where
  "publish_matches pm channel order = concat (map (\<lambda>(c, es). filter (entry_matches pm channel) es) order)"

definition entry_message :: "bytes \<Rightarrow> bytes \<Rightarrow> entry \<Rightarrow> rvalue" where
  "entry_message channel message en =
     (if en_pattern en then buildPatternMessageValue (en_value en) channel message
      else buildPublishMessageValue channel message)"

fun publish_send ::
  "('w, 'e) conn_api \<Rightarrow> bytes \<Rightarrow> bytes \<Rightarrow> entry list \<Rightarrow> nat \<Rightarrow> 'w \<Rightarrow> 'w \<times> nat \<times> 'e option" where
  "publish_send api channel message [] sent w = (w, sent, None)"
| "publish_send api channel message (en # ens) sent w =
     (case write_and_flush api (en_client en) (entry_message channel message en) w of
        (w', Some e) \<Rightarrow> (w', sent, Some e)
      | (w', None) \<Rightarrow> publish_send api channel message ens (sent + 1) w')"

definition Publish ::
  "('w, 'e) conn_api \<Rightarrow> (bytes \<Rightarrow> bytes \<Rightarrow> bool option) \<Rightarrow> (conn_id \<times> entry list) list \<Rightarrow>
    bytes \<Rightarrow> bytes \<Rightarrow> 'w \<Rightarrow> 'w \<times> nat \<times> 'e option" where
  "Publish api pm order channel message w =
     publish_send api channel message (publish_matches pm channel order) 0 w"

definition is_iteration :: "pubsub \<Rightarrow> (conn_id \<times> entry list) list \<Rightarrow> bool" where
  "is_iteration ps order \<longleftrightarrow>
     distinct (map fst order) \<and>
     (\<forall>c. map_option mset (map_of order c) = map_option mset (ps_entries ps c))"

end
