(* ===== verification/Pub_Sub_Table.thy ===== *)
theory Pub_Sub_Table
  imports Pub_Sub
begin

text \<open>
  What \<^verbatim>\<open>PubSub\<close> of \<^verbatim>\<open>pubsub.go\<close> promises when its operations follow one another: the registry refines a set
  of subscriptions (\<open>subs\<close>) under the invariant \<open>ps_inv\<close>, and publishing sends one message to every
  matching member. The locale \<open>subscription_table\<close> is the contract of the registry; what a history
  leaves in the table follows from it.
\<close>

section \<open>The registry as a set of subscriptions\<close>

type_synonym subscription = "conn_id \<times> bool \<times> bytes"

definition en_key :: "entry \<Rightarrow> bool \<times> bytes" where
  "en_key en = (en_pattern en, en_value en)"

definition subs :: "pubsub \<Rightarrow> subscription set" where
  "subs ps = {(c, en_key en) | c es en. ps_entries ps c = Some es \<and> en \<in> set es}"

text \<open>
  Both maps have the same keys; the entries of a connection are distinct, there is at least one, and
  all carry the client of the connection, which writes to it. Client pointers are not shared.
\<close>

definition ps_inv :: "pubsub \<Rightarrow> bool" where
  "ps_inv ps \<longleftrightarrow>
     finite (dom (ps_clients ps)) \<and> dom (ps_clients ps) = dom (ps_entries ps) \<and>
     (\<forall>c es. ps_entries ps c = Some es \<longrightarrow> es \<noteq> [] \<and> distinct es \<and>
        (\<forall>en \<in> set es. ps_clients ps c = Some (en_client en))) \<and>
     (\<forall>c cl. ps_clients ps c = Some cl \<longrightarrow> client_conn cl = c \<and> client_ptr cl < ps_next ps) \<and>
     (\<forall>c cl c' cl'. ps_clients ps c = Some cl \<and> ps_clients ps c' = Some cl' \<and> client_ptr cl = client_ptr cl' \<longrightarrow>
        c = c')"

lemma ps_inv_NewPubSub [simp]: "ps_inv NewPubSub" "subs NewPubSub = {}"
  by (simp_all add: ps_inv_def NewPubSub_def subs_def)

lemma en_key_eq: "en_client en = en_client en' \<Longrightarrow> en_key en = en_key en' \<longleftrightarrow> en = en'"
  by (auto simp: en_key_def intro: entry.equality)

lemma mem_subs: "(c, k) \<in> subs ps \<longleftrightarrow> k \<in> en_key ` set (opt_list (ps_entries ps c))"
  by (cases "ps_entries ps c") (auto simp: subs_def)

lemma subs_eqI: "(\<And>c k. (c, k) \<in> A \<longleftrightarrow> k \<in> en_key ` set (opt_list (ps_entries ps c))) \<Longrightarrow> subs ps = A"
  by (simp add: set_eq_iff mem_subs)

lemma subs_of_conn: "{s \<in> subs ps. fst s = c} = Pair c ` en_key ` set (opt_list (ps_entries ps c))"
  by (auto simp: mem_subs)

lemma ps_inv_dom: "ps_inv ps \<Longrightarrow> ps_clients ps c = None \<longleftrightarrow> ps_entries ps c = None"
  unfolding ps_inv_def by (elim conjE) (metis domIff)

lemma ps_inv_client:
  "ps_inv ps \<Longrightarrow> ps_clients ps c = Some cl \<Longrightarrow> client_conn cl = c \<and> client_ptr cl < ps_next ps"
  by (simp add: ps_inv_def)

lemma ps_inv_ptr:
  "ps_inv ps \<Longrightarrow> ps_clients ps c = Some cl \<Longrightarrow> ps_clients ps c' = Some cl' \<Longrightarrow>
    client_ptr cl = client_ptr cl' \<Longrightarrow> c = c'"
  unfolding ps_inv_def by (elim conjE) blast

lemma ps_inv_entries:
  "ps_inv ps \<Longrightarrow> ps_entries ps c = Some es \<Longrightarrow> es \<noteq> [] \<and> distinct es \<and>
    (\<forall>en \<in> set es. ps_clients ps c = Some (en_client en))"
  by (simp add: ps_inv_def)

lemma ps_inv_put:
  assumes inv: "ps_inv ps" and es: "es \<noteq> []" "distinct es" "\<forall>en \<in> set es. en_client en = cl"
    and cl: "client_conn cl = c" "client_ptr cl < ps_next ps'" "ps_next ps \<le> ps_next ps'"
      "\<And>d cl'. ps_clients ps d = Some cl' \<Longrightarrow> client_ptr cl' = client_ptr cl \<Longrightarrow> d = c"
    and upd: "ps_clients ps' = (ps_clients ps)(c \<mapsto> cl)" "ps_entries ps' = (ps_entries ps)(c \<mapsto> es)"
  shows "ps_inv ps'"
  unfolding ps_inv_def
proof (intro conjI allI impI)
  show "finite (dom (ps_clients ps'))" "dom (ps_clients ps') = dom (ps_entries ps')"
    using inv by (auto simp: upd ps_inv_def)
next
  fix d ds assume "ps_entries ps' d = Some ds"
  then show "ds \<noteq> []" "distinct ds" "\<forall>en \<in> set ds. ps_clients ps' d = Some (en_client en)"
    using es ps_inv_entries [OF inv, of d ds] by (auto simp: upd split: if_splits)
next
  fix d cl' assume "ps_clients ps' d = Some cl'"
  then show "client_conn cl' = d" "client_ptr cl' < ps_next ps'"
    using cl(1-3) ps_inv_client [OF inv, of d cl'] by (auto simp: upd split: if_splits)
next
  fix d cl1 d' cl2
  assume "ps_clients ps' d = Some cl1 \<and> ps_clients ps' d' = Some cl2 \<and> client_ptr cl1 = client_ptr cl2"
  then show "d = d'"
    using cl(4) inv unfolding ps_inv_def upd by (auto split: if_splits)
qed

lemma ps_inv_remove:
  assumes inv: "ps_inv ps"
    and upd: "ps_clients ps' = (ps_clients ps)(c := None)" "ps_entries ps' = (ps_entries ps)(c := None)"
      "ps_next ps' = ps_next ps"
  shows "ps_inv ps'"
  unfolding ps_inv_def
proof (intro conjI allI impI)
  show "finite (dom (ps_clients ps'))" "dom (ps_clients ps') = dom (ps_entries ps')"
    using inv by (auto simp: upd ps_inv_def)
next
  fix d ds assume "ps_entries ps' d = Some ds"
  then show "ds \<noteq> []" "distinct ds" "\<forall>en \<in> set ds. ps_clients ps' d = Some (en_client en)"
    using ps_inv_entries [OF inv, of d ds] by (auto simp: upd split: if_splits)
next
  fix d cl' assume "ps_clients ps' d = Some cl'"
  then show "client_conn cl' = d" "client_ptr cl' < ps_next ps'"
    using ps_inv_client [OF inv, of d cl'] by (auto simp: upd split: if_splits)
next
  fix d cl1 d' cl2
  assume "ps_clients ps' d = Some cl1 \<and> ps_clients ps' d' = Some cl2 \<and> client_ptr cl1 = client_ptr cl2"
  then show "d = d'"
    using inv unfolding ps_inv_def upd by (auto split: if_splits)
qed

lemma card_subs_of_conn:
  assumes "distinct es" and "\<forall>en \<in> set es. en_client en = cl" and "ps_entries ps c = Some es"
  shows "card {s \<in> subs ps. fst s = c} = length es"
proof -
  have "inj_on en_key (set es)" using assms(2) en_key_eq by (simp add: inj_on_def)
  with assms show ?thesis by (simp add: subs_of_conn card_image inj_on_def distinct_card)
qed

lemma ensureClient_spec:
  assumes "ps_inv ps" and "ensureClient c ps = (cl, ps1)"
  shows "ps_clients ps1 = (ps_clients ps)(c \<mapsto> cl)"
    and "ps_entries ps1 = (ps_entries ps)(c \<mapsto> opt_list (ps_entries ps c))"
    and "distinct (opt_list (ps_entries ps c)) \<and> (\<forall>en \<in> set (opt_list (ps_entries ps c)). en_client en = cl)"
    and "client_conn cl = c \<and> client_ptr cl < ps_next ps1" and "ps_next ps \<le> ps_next ps1"
    and "ps_clients ps d = Some cl' \<Longrightarrow> client_ptr cl' = client_ptr cl \<Longrightarrow> d = c"
proof -
  show "ps_clients ps1 = (ps_clients ps)(c \<mapsto> cl)" "client_conn cl = c \<and> client_ptr cl < ps_next ps1"
    "ps_next ps \<le> ps_next ps1"
    using assms ps_inv_client [OF assms(1)]
    by (auto simp: ensureClient_def Let_def fun_upd_idem split: option.splits)
  show "ps_entries ps1 = (ps_entries ps)(c \<mapsto> opt_list (ps_entries ps c))"
    using assms ps_inv_dom [OF assms(1), of c]
    by (auto simp: ensureClient_def Let_def fun_upd_idem split: option.splits)
  show "distinct (opt_list (ps_entries ps c)) \<and> (\<forall>en \<in> set (opt_list (ps_entries ps c)). en_client en = cl)"
    using assms ps_inv_entries [OF assms(1), of c] ps_inv_dom [OF assms(1), of c]
    by (cases "ps_entries ps c") (auto simp: ensureClient_def Let_def split: option.splits)
  show "ps_clients ps d = Some cl' \<Longrightarrow> client_ptr cl' = client_ptr cl \<Longrightarrow> d = c"
    using assms ps_inv_client [OF assms(1), of d cl']
    by (auto simp: ensureClient_def Let_def ps_inv_def split: option.splits)
qed

text \<open>
  Registering a subscription adds it to the set and reports how many the connection has; it never
  runs into a nil map.
\<close>

lemma subscribe_register_spec:
  assumes "ps_inv ps"
  shows "\<exists>cl ps'. subscribe_register pat c v ps =
      Inr (cl, card {s \<in> insert (c, pat, v) (subs ps). fst s = c}, ps') \<and>
    client_conn cl = c \<and> subs ps' = insert (c, pat, v) (subs ps) \<and> ps_inv ps'"
proof -
  obtain cl ps1 where ens: "ensureClient c ps = (cl, ps1)" by fastforce
  note spec = ensureClient_spec [OF assms ens]
  define en where "en = \<lparr>en_pattern = pat, en_value = v, en_client = cl\<rparr>"
  define es' where "es' = List.insert en (opt_list (ps_entries ps c))"
  define ps' where "ps' = ps1\<lparr>ps_entries := (ps_entries ps1)(c \<mapsto> es')\<rparr>"
  have reg: "subscribe_register pat c v ps = Inr (cl, length es', ps')"
    by (simp add: subscribe_register_def ens spec(2) Let_def en_def es'_def ps'_def)
  have es': "distinct es'" "\<forall>e \<in> set es'. en_client e = cl" "es' \<noteq> []"
    using spec(3) by (auto simp: es'_def en_def List.insert_def)
  have entries: "ps_entries ps' = (ps_entries ps)(c \<mapsto> es')" by (simp add: ps'_def spec(2))
  have subs': "subs ps' = insert (c, pat, v) (subs ps)"
    by (rule subs_eqI) (auto simp: entries mem_subs es'_def en_key_def en_def)
  have "ps_inv ps'"
    by (rule ps_inv_put [OF assms es'(3,1,2)]) (use spec in \<open>auto simp: ps'_def\<close>)
  moreover have "card {s \<in> insert (c, pat, v) (subs ps). fst s = c} = length es'"
    using card_subs_of_conn [OF es'(1,2), of ps' c] entries by (simp add: subs')
  ultimately show ?thesis using reg subs' spec(4) by (intro exI [of _ cl] exI [of _ ps']) simp
qed

lemma no_subs_iff: "ps_inv ps \<Longrightarrow> {s \<in> subs ps. fst s = c} = {} \<longleftrightarrow> ps_clients ps c = None"
  using ps_inv_dom [of ps c] ps_inv_entries [of ps c]
  by (cases "ps_entries ps c") (auto simp: subs_of_conn)

lemma has_subs_iff: "ps_inv ps \<Longrightarrow> (\<exists>s \<in> subs ps. fst s = c) \<longleftrightarrow> ps_clients ps c \<noteq> None"
  using no_subs_iff [of ps c] unfolding Collect_empty_eq by metis

lemma unsubscribe_register_None:
  "ps_inv ps \<Longrightarrow> ps_clients ps c = None \<Longrightarrow>
    unsubscribe_register pat c v ps = (None, ps) \<and> subs ps - {(c, pat, v)} = subs ps"
  using no_subs_iff [of ps c] by (auto simp: unsubscribe_register_def)

lemma unsubscribe_register_Some:
  assumes "ps_inv ps" and "ps_clients ps c = Some cl"
  shows "\<exists>ps'. unsubscribe_register pat c v ps =
      (Some (cl, card {s \<in> subs ps - {(c, pat, v)}. fst s = c}), ps') \<and>
    subs ps' = subs ps - {(c, pat, v)} \<and> ps_inv ps'"
proof -
  obtain es where es: "ps_entries ps c = Some es"
    using ps_inv_dom [OF assms(1), of c] assms(2) by (cases "ps_entries ps c") auto
  have inv: "distinct es" "\<forall>en \<in> set es. en_client en = cl"
    using ps_inv_entries [OF assms(1) es] assms(2) by auto
  define es' where "es' = filter (\<lambda>en. \<not> (en_pattern en = pat \<and> en_value en = v)) es"
  define ps' where "ps' = (if length es' = 0
    then ps\<lparr>ps_entries := (ps_entries ps)(c := None), ps_clients := (ps_clients ps)(c := None)\<rparr>
    else ps\<lparr>ps_entries := (ps_entries ps)(c \<mapsto> es')\<rparr>)"
  have reg: "unsubscribe_register pat c v ps = (Some (cl, length es'), ps')"
    by (simp add: unsubscribe_register_def assms(2) es es'_def ps'_def Let_def)
  have es': "distinct es'" "\<forall>e \<in> set es'. en_client e = cl" using inv by (simp_all add: es'_def)
  have subs': "subs ps' = subs ps - {(c, pat, v)}"
    by (rule subs_eqI) (auto simp: ps'_def mem_subs es es'_def en_key_def filter_empty_conv)
  have "ps_inv ps'"
  proof (cases "es' = []")
    case True
    then show ?thesis by (intro ps_inv_remove [OF assms(1), of _ c]) (simp_all add: ps'_def)
  next
    case False
    then show ?thesis
      using ps_inv_client [OF assms] assms
      by (intro ps_inv_put [OF assms(1) False es', of c]) (auto simp: ps'_def fun_upd_idem ps_inv_def)
  qed
  moreover have "card {s \<in> subs ps - {(c, pat, v)}. fst s = c} = length es'"
  proof (cases "es' = []")
    case True
    then have "{s \<in> subs ps'. fst s = c} = {}" by (auto simp: subs_of_conn ps'_def)
    then show ?thesis unfolding subs' [symmetric] by (simp only: True card.empty list.size)
  next
    case False
    then show ?thesis using card_subs_of_conn [OF es', of ps' c] by (simp add: subs' [symmetric] ps'_def)
  qed
  ultimately show ?thesis using reg subs' by simp
qed

section \<open>Histories\<close>

text \<open>A table of subscriptions by its laws; what a history of additions and removals leaves in it.\<close>

datatype 's table_op = Add 's | Remove 's

fun op_target :: "'s table_op \<Rightarrow> 's" where
  "op_target (Add s) = s"
| "op_target (Remove s) = s"

definition last_adds :: "'s table_op list \<Rightarrow> 's \<Rightarrow> bool" where
  "last_adds ops s \<longleftrightarrow> find (\<lambda>op. op_target op = s) (rev ops) = Some (Add s)"

lemma find_snoc: "find P (xs @ [x]) = (case find P xs of None \<Rightarrow> if P x then Some x else None | Some y \<Rightarrow> Some y)"
  by (induction xs) auto

lemma last_adds_simps [simp]:
  "\<not> last_adds [] s"
  "last_adds (ops @ [Add s']) s \<longleftrightarrow> s = s' \<or> last_adds ops s"
  "last_adds (ops @ [Remove s']) s \<longleftrightarrow> s \<noteq> s' \<and> last_adds ops s"
  by (auto simp: last_adds_def)

locale subscription_table =
  fixes inv :: "'t \<Rightarrow> bool"
    and members :: "'t \<Rightarrow> 's set"
    and add :: "'s \<Rightarrow> 't \<Rightarrow> 't"
    and remove :: "'s \<Rightarrow> 't \<Rightarrow> 't"
  assumes inv_add: "inv t \<Longrightarrow> inv (add s t)"
    and inv_remove: "inv t \<Longrightarrow> inv (remove s t)"
    and members_add: "inv t \<Longrightarrow> members (add s t) = insert s (members t)"
    and members_remove: "inv t \<Longrightarrow> members (remove s t) = members t - {s}"
begin

fun perform :: "'s table_op \<Rightarrow> 't \<Rightarrow> 't" where
  "perform (Add s) t = add s t"
| "perform (Remove s) t = remove s t"

lemma history:
  "inv t \<Longrightarrow> members t = {} \<Longrightarrow>
    inv (fold perform ops t) \<and> members (fold perform ops t) = {s. last_adds ops s}"
proof (induction ops rule: rev_induct)
  case (snoc op ops)
  then show ?case
    by (cases op) (auto simp: inv_add inv_remove members_add members_remove)
qed simp

end

definition register :: "subscription \<Rightarrow> pubsub \<Rightarrow> pubsub" where
  "register s ps =
     (case s of (c, pat, v) \<Rightarrow>
        (case subscribe_register pat c v ps of Inl p \<Rightarrow> ps | Inr (cl, n, ps') \<Rightarrow> ps'))"

definition unregister :: "subscription \<Rightarrow> pubsub \<Rightarrow> pubsub" where
  "unregister s ps = (case s of (c, pat, v) \<Rightarrow> snd (unsubscribe_register pat c v ps))"

lemma register_spec: "ps_inv ps \<Longrightarrow> subs (register s ps) = insert s (subs ps) \<and> ps_inv (register s ps)"
  using subscribe_register_spec [of ps "fst (snd s)" "fst s" "snd (snd s)"]
  by (cases s) (auto simp: register_def)

lemma unregister_spec: "ps_inv ps \<Longrightarrow> subs (unregister s ps) = subs ps - {s} \<and> ps_inv (unregister s ps)"
  using unsubscribe_register_Some [of ps "fst s" _ "fst (snd s)" "snd (snd s)"]
    unsubscribe_register_None [of ps "fst s" "fst (snd s)" "snd (snd s)"]
  by (cases s; cases "ps_clients ps (fst s)") (fastforce simp: unregister_def)+

interpretation ps_table: subscription_table ps_inv subs register unregister
  by unfold_locales (simp_all add: register_spec unregister_spec)

text \<open>The four operations of \<^verbatim>\<open>PubSub\<close>, one after another; an error of an acknowledgement is the caller's.\<close>

datatype ps_call =
    Call_subscribe conn_id bytes
  | Call_psubscribe conn_id bytes
  | Call_unsubscribe conn_id bytes
  | Call_punsubscribe conn_id bytes

fun ps_perform :: "('w, 'e) conn_api \<Rightarrow> ps_call \<Rightarrow> pubsub \<Rightarrow> 'w \<Rightarrow> (pubsub \<times> 'w \<times> 'e option) go" where
  "ps_perform api (Call_subscribe c v) ps w = Subscribe api c v ps w"
| "ps_perform api (Call_psubscribe c v) ps w = PSubscribe api c v ps w"
| "ps_perform api (Call_unsubscribe c v) ps w = Inr (Unsubscribe api c v ps w)"
| "ps_perform api (Call_punsubscribe c v) ps w = Inr (PUnsubscribe api c v ps w)"

fun ps_run :: "('w, 'e) conn_api \<Rightarrow> ps_call list \<Rightarrow> pubsub \<Rightarrow> 'w \<Rightarrow> (pubsub \<times> 'w) go" where
  "ps_run api [] ps w = Inr (ps, w)"
| "ps_run api (call # calls) ps w =
     (case ps_perform api call ps w of
        Inl p \<Rightarrow> Inl p
      | Inr (ps', w', err) \<Rightarrow> ps_run api calls ps' w')"

fun table_op_of :: "ps_call \<Rightarrow> subscription table_op" where
  "table_op_of (Call_subscribe c v) = Add (c, False, v)"
| "table_op_of (Call_psubscribe c v) = Add (c, True, v)"
| "table_op_of (Call_unsubscribe c v) = Remove (c, False, v)"
| "table_op_of (Call_punsubscribe c v) = Remove (c, True, v)"

text \<open>What one call answers: the acknowledgement with the number of subscriptions after it.\<close>

fun ack_of :: "ps_call \<Rightarrow> nat \<Rightarrow> rvalue" where
  "ack_of (Call_subscribe c v) n = buildSubscribeAckValue ''subscribe'' v n"
| "ack_of (Call_psubscribe c v) n = buildSubscribeAckValue ''psubscribe'' v n"
| "ack_of (Call_unsubscribe c v) n = buildSubscribeAckValue ''unsubscribe'' v n"
| "ack_of (Call_punsubscribe c v) n = buildSubscribeAckValue ''punsubscribe'' v n"

definition conn_of :: "ps_call \<Rightarrow> conn_id" where
  "conn_of call = fst (op_target (table_op_of call))"

definition is_subscribe :: "ps_call \<Rightarrow> bool" where
  "is_subscribe call \<longleftrightarrow> table_op_of call = Add (op_target (table_op_of call))"

lemma ps_perform_spec:
  fixes call :: ps_call and ps :: pubsub
  assumes "ps_inv ps"
  defines "ps1 \<equiv> ps_table.perform (table_op_of call) ps"
  defines "n \<equiv> card {s \<in> subs ps1. fst s = conn_of call}"
  shows "ps_perform api call ps w =
    Inr (ps1, if is_subscribe call \<or> (\<exists>s \<in> subs ps. fst s = conn_of call)
              then do_calls api (conn_of call) (frame (ack_of call n)) w else (w, None))"
proof -
  have sub: "\<exists>cl. subscribe_register pat c v ps = Inr (cl, card {s \<in> subs (register (c, pat, v) ps). fst s = c},
      register (c, pat, v) ps) \<and> client_conn cl = c" for pat c v
    using subscribe_register_spec [OF assms(1), of pat c v] register_spec [OF assms(1), of "(c, pat, v)"]
    by (auto simp: register_def)
  have unsub: "unsubscribe_register pat c v ps =
      (if \<exists>s \<in> subs ps. fst s = c
       then (Some (the (ps_clients ps c), card {s \<in> subs (unregister (c, pat, v) ps). fst s = c}),
         unregister (c, pat, v) ps)
       else (None, unregister (c, pat, v) ps))" for pat c v
  proof (cases "ps_clients ps c")
    case None
    then have "\<not> (\<exists>s \<in> subs ps. fst s = c)" by (simp add: has_subs_iff [OF assms(1)])
    moreover have "unsubscribe_register pat c v ps = (None, ps)"
      using None by (simp add: unsubscribe_register_def)
    ultimately show ?thesis by (simp only: unregister_def if_False prod.case snd_conv)
  next
    case (Some cl)
    then have "\<exists>s \<in> subs ps. fst s = c" by (simp add: has_subs_iff [OF assms(1)])
    moreover from unsubscribe_register_Some [OF assms(1) Some, of pat v] obtain ps' where
      "unsubscribe_register pat c v ps = (Some (cl, card {s \<in> subs ps - {(c, pat, v)}. fst s = c}), ps')"
      "subs ps' = subs ps - {(c, pat, v)}" by blast
    ultimately show ?thesis by (simp only: Some option.sel unregister_def if_True prod.case snd_conv)
  qed
  have conn: "client_conn (the (ps_clients ps c)) = c" if "\<exists>s \<in> subs ps. fst s = c" for c
  proof -
    from that obtain cl where "ps_clients ps c = Some cl" by (auto simp only: has_subs_iff [OF assms(1)])
    with ps_inv_client [OF assms(1)] show ?thesis by simp
  qed
  show ?thesis
  proof (cases call)
    case (Call_subscribe c v)
    then show ?thesis
      using sub [of False c v]
      by (auto simp: ps1_def n_def Subscribe_def write_and_flush_calls conn_of_def is_subscribe_def)
  next
    case (Call_psubscribe c v)
    then show ?thesis
      using sub [of True c v]
      by (auto simp: ps1_def n_def PSubscribe_def write_and_flush_calls conn_of_def is_subscribe_def)
  next
    case (Call_unsubscribe c v)
    then show ?thesis
      using conn [of c]
      by (auto simp: ps1_def n_def Unsubscribe_def unsubscribe_def unsub write_and_flush_calls
          conn_of_def is_subscribe_def Let_def)
  next
    case (Call_punsubscribe c v)
    then show ?thesis
      using conn [of c]
      by (auto simp: ps1_def n_def PUnsubscribe_def unsubscribe_def unsub write_and_flush_calls
          conn_of_def is_subscribe_def Let_def)
  qed
qed

lemma ps_run_table:
  "ps_inv ps \<Longrightarrow>
    \<exists>w'. ps_run api calls ps w = Inr (fold ps_table.perform (map table_op_of calls) ps, w')"
proof (induction calls arbitrary: ps w)
  case (Cons call calls)
  have "ps_inv (ps_table.perform (table_op_of call) ps)"
    using Cons.prems by (cases "table_op_of call") (simp_all add: register_spec unregister_spec)
  from Cons.IH [OF this] show ?case
    by (simp add: ps_perform_spec [OF Cons.prems] split: prod.split)
qed simp

section \<open>Publishing\<close>

text \<open>
  The specification of sending: frames to connections, one after another, counted, up to the first
  error.
\<close>

fun send_frames :: "('w, 'e) conn_api \<Rightarrow> (conn_id \<times> rvalue) list \<Rightarrow> nat \<Rightarrow> 'w \<Rightarrow> 'w \<times> nat \<times> 'e option" where
  "send_frames api [] n w = (w, n, None)"
| "send_frames api ((c, v) # cvs) n w =
     (case do_calls api c (frame v) w of
        (w', Some e) \<Rightarrow> (w', n, Some e)
      | (w', None) \<Rightarrow> send_frames api cvs (Suc n) w')"

definition sub_matches :: "(bytes \<Rightarrow> bytes \<Rightarrow> bool option) \<Rightarrow> bytes \<Rightarrow> subscription \<Rightarrow> bool" where
  "sub_matches pm channel s =
     (case s of (c, pat, v) \<Rightarrow> if pat then pm v channel = Some True else v = channel)"

definition sub_message :: "bytes \<Rightarrow> bytes \<Rightarrow> subscription \<Rightarrow> rvalue" where
  "sub_message channel message s =
     (case s of (c, pat, v) \<Rightarrow>
        if pat then buildPatternMessageValue v channel message
        else buildPublishMessageValue channel message)"

definition sub_of :: "entry \<Rightarrow> subscription" where
  "sub_of en = (client_conn (en_client en), en_key en)"

lemma publish_send_frames:
  "publish_send api channel message ens n w =
    send_frames api (map (\<lambda>s. (fst s, sub_message channel message s)) (map sub_of ens)) n w"
proof (induction ens arbitrary: n w)
  case (Cons en ens)
  then show ?case
    by (auto simp: write_and_flush_calls sub_of_def en_key_def sub_message_def entry_message_def
        split: prod.split option.split)
qed simp

lemma entry_matches_sub: "entry_matches pm channel = sub_matches pm channel \<circ> sub_of"
  by (intro ext) (simp add: entry_matches_def sub_matches_def sub_of_def en_key_def)

lemma iteration_entries:
  assumes "is_iteration ps order"
  shows "(c, es) \<in> set order \<Longrightarrow> \<exists>es'. ps_entries ps c = Some es' \<and> mset es' = mset es"
    and "ps_entries ps c = Some es' \<Longrightarrow> \<exists>es. (c, es) \<in> set order \<and> mset es' = mset es"
proof -
  have eq: "map_option mset (map_of order c) = map_option mset (ps_entries ps c)"
    and dist: "distinct (map fst order)"
    using assms by (auto simp: is_iteration_def)
  show "\<exists>es'. ps_entries ps c = Some es' \<and> mset es' = mset es" if "(c, es) \<in> set order"
    using eq map_of_is_SomeI [OF dist that] by (cases "ps_entries ps c") auto
  show "\<exists>es. (c, es) \<in> set order \<and> mset es' = mset es" if "ps_entries ps c = Some es'"
    using eq that by (cases "map_of order c") (auto dest: map_of_SomeD)
qed

lemma iteration_subs:
  assumes inv: "ps_inv ps" and iter: "is_iteration ps order"
  defines "all \<equiv> concat (map (\<lambda>(c, es). map sub_of es) order)"
  shows "distinct all" and "set all = subs ps"
proof -
  have ents: "distinct es \<and> (\<forall>en \<in> set es. ps_clients ps c = Some (en_client en) \<and> client_conn (en_client en) = c)"
    if mem: "(c, es) \<in> set order" for c es
  proof -
    obtain es' where es': "ps_entries ps c = Some es'" "mset es' = mset es"
      using iteration_entries(1) [OF iter mem] by blast
    with ps_inv_entries [OF inv es'(1)] ps_inv_client [OF inv, of c] show ?thesis
      by (metis mset_eq_imp_distinct_iff mset_eq_setD)
  qed
  have inj: "inj_on sub_of (set es)" if "(c, es) \<in> set order" for c es
  proof (rule inj_onI)
    fix en en' assume "en \<in> set es" "en' \<in> set es" "sub_of en = sub_of en'"
    with ents [OF that] have "en_client en = en_client en'" "en_key en = en_key en'"
      by (auto simp: sub_of_def) (metis option.inject)
    then show "en = en'" by (simp add: en_key_eq)
  qed
  have fst_sub: "fst s = c" if "(c, es) \<in> set order" "s \<in> set (map sub_of es)" for c es s
    using ents [OF that(1)] that(2) by (auto simp: sub_of_def)
  show "distinct all"
    unfolding all_def
  proof (rule distinct_concat_keyed [where key = fst and key' = fst])
    show "distinct (map fst order)" using iter by (simp add: is_iteration_def)
    fix ces assume mem: "ces \<in> set order"
    obtain c es where [simp]: "ces = (c, es)" by fastforce
    have "distinct (map sub_of es)" using inj [of c es] ents [of c es] mem by (simp add: distinct_map)
    moreover have "\<forall>s \<in> set (map sub_of es). fst s = c" using fst_sub mem by simp
    ultimately show "distinct (case ces of (c, es) \<Rightarrow> map sub_of es) \<and>
        (\<forall>s \<in> set (case ces of (c, es) \<Rightarrow> map sub_of es). fst s = fst ces)" by simp
  qed
  show "set all = subs ps"
  proof (intro set_eqI iffI)
    fix s assume "s \<in> set all"
    then obtain c es en where en: "(c, es) \<in> set order" "en \<in> set es" "s = sub_of en" by (auto simp: all_def)
    then obtain es' where "ps_entries ps c = Some es'" "en \<in> set es'"
      using iteration_entries(1) [OF iter en(1)] by (metis mset_eq_setD)
    with en ents [OF en(1)] show "s \<in> subs ps" by (auto simp: subs_def sub_of_def)
  next
    fix s assume "s \<in> subs ps"
    then obtain c es' en where en: "ps_entries ps c = Some es'" "en \<in> set es'" "s = (c, en_key en)"
      by (auto simp: subs_def)
    then obtain es where es: "(c, es) \<in> set order" "en \<in> set es"
      using iteration_entries(2) [OF iter en(1)] by (metis mset_eq_setD)
    with en ents [OF es(1)] have "s = sub_of en" by (simp add: sub_of_def)
    with es show "s \<in> set all" by (force simp: all_def)
  qed
qed

lemma publish_matches_subs:
  "map sub_of (publish_matches pm channel order) =
    filter (sub_matches pm channel) (concat (map (\<lambda>(c, es). map sub_of es) order))"
  by (induction order) (auto simp: publish_matches_def filter_map comp_def entry_matches_sub)

lemma send_frames_all:
  assumes "\<And>c call w. snd (api c call w) = None"
  shows "snd (send_frames api cvs n w) = (n + length cvs, None)"
proof -
  have calls: "snd (do_calls api c calls w) = None" for c calls w
    using assms by (induction calls arbitrary: w) (auto split: prod.split option.split, metis option.distinct(1) snd_conv)
  show ?thesis
    using calls by (induction cvs arbitrary: n w) (auto split: prod.split option.split, metis option.distinct(1) snd_conv)
qed

section \<open>Properties\<close>

lemma ps_run_history:
  "\<exists>ps w'. ps_run api calls NewPubSub w = Inr (ps, w') \<and> ps_inv ps \<and>
    subs ps = {s. last_adds (map table_op_of calls) s}"
  using ps_run_table [of NewPubSub api calls w]
    ps_table.history [of NewPubSub "map table_op_of calls"] by auto

lemma ps_run_inv:
  "ps_run api calls NewPubSub w = Inr (ps, w') \<Longrightarrow>
    ps_inv ps \<and> subs ps = {s. last_adds (map table_op_of calls) s}"
  using ps_run_history [of api calls w] by auto

text \<open>
  C10: After any history of subscribe and unsubscribe calls the next one does not panic, and answers
  with one acknowledgement that counts the subscriptions of the connection: those whose last call was
  a subscribe. Only an unsubscribe of a connection that has none is not answered.
\<close>

theorem subscription_acknowledged:
  assumes "ps_run api calls NewPubSub w0 = Inr (ps, w)"
  shows "\<exists>ps'. ps_perform api call ps w =
      Inr (ps', if is_subscribe call \<or> (\<exists>s. last_adds (map table_op_of calls) s \<and> fst s = conn_of call)
                then do_calls api (conn_of call) (frame (ack_of call
                  (card {s. last_adds (map table_op_of (calls @ [call])) s \<and> fst s = conn_of call}))) w
                else (w, None)) \<and>
    subs ps' = {s. last_adds (map table_op_of (calls @ [call])) s}"
proof -
  note inv = ps_run_inv [OF assms]
  define ps' where "ps' = ps_table.perform (table_op_of call) ps"
  have subs': "subs ps' = {s. last_adds (map table_op_of (calls @ [call])) s}"
    using inv by (cases "table_op_of call") (auto simp: ps'_def register_spec unregister_spec)
  then have n: "{s \<in> subs ps'. fst s = c} = {s. last_adds (map table_op_of (calls @ [call])) s \<and> fst s = c}" for c
    by simp
  have some: "(\<exists>s \<in> subs ps. fst s = c) \<longleftrightarrow> (\<exists>s. last_adds (map table_op_of calls) s \<and> fst s = c)" for c
    using inv by auto
  show ?thesis
    using ps_perform_spec [OF conjunct1 [OF inv], of api call w, folded ps'_def] subs'
    unfolding n some by (intro exI [of _ ps'] conjI)
qed

definition log_api :: "((conn_id \<times> conn_call) list, unit) conn_api" where
  "log_api c call w = (w @ [(c, call)], None)"

theorem subscription_acknowledged_witness:
  "\<exists>ps w ps'. ps_run log_api [Call_subscribe 7 ''a''] NewPubSub [] = Inr (ps, w) \<and>
    ps_perform log_api (Call_unsubscribe 7 ''a'') ps w =
      Inr (ps', do_calls log_api 7 (frame (buildSubscribeAckValue ''unsubscribe'' ''a'' 0)) w) \<and> subs ps' = {}"
proof -
  let ?calls = "[Call_subscribe 7 ''a'']" and ?call = "Call_unsubscribe 7 ''a''"
  obtain ps w where run: "ps_run log_api ?calls NewPubSub [] = Inr (ps, w)"
    using ps_run_history [of log_api ?calls "[]"] by (elim exE conjE)
  have none: "{s. last_adds (map table_op_of (?calls @ [?call])) s} = {}" "{s. last_adds (map table_op_of (?calls @ [?call])) s \<and> fst s = 7} = {}"
    by (auto simp: last_adds_def)
  have one: "\<exists>s. last_adds (map table_op_of ?calls) s \<and> fst s = 7" by (auto simp: last_adds_def)
  have "conn_of ?call = 7" by (simp add: conn_of_def)
  from subscription_acknowledged [OF run, of ?call, unfolded this none] one run show ?thesis
    by (simp only: simp_thms if_True card.empty ack_of.simps) blast
qed

text \<open>
  C7: After any history of subscribe and unsubscribe calls \<^verbatim>\<open>Publish\<close> sends the message to every
  subscription whose last call was a subscribe and whose channel or pattern matches, once each, in
  the order of the map iteration, and stops at the first error; without errors it returns how many
  subscriptions match.
\<close>

theorem publish_reaches_subscribers:
  assumes "ps_run api calls NewPubSub w0 = Inr (ps, w)" and "is_iteration ps order"
  shows "\<exists>ss. distinct ss \<and> set ss = {s. last_adds (map table_op_of calls) s \<and> sub_matches pm channel s} \<and>
    Publish api pm order channel message w' =
      send_frames api (map (\<lambda>s. (fst s, sub_message channel message s)) ss) 0 w' \<and>
    ((\<forall>c call w. snd (api c call w) = None) \<longrightarrow>
      snd (Publish api pm order channel message w') =
        (card {s. last_adds (map table_op_of calls) s \<and> sub_matches pm channel s}, None))"
proof -
  note inv = ps_run_inv [OF assms(1)]
  define all where "all = concat (map (\<lambda>(c, es). map sub_of es) order)"
  note iter = iteration_subs [OF conjunct1 [OF inv] assms(2), folded all_def]
  define ss where "ss = filter (sub_matches pm channel) all"
  have ss: "distinct ss" "set ss = {s. last_adds (map table_op_of calls) s \<and> sub_matches pm channel s}"
    using iter inv by (auto simp: ss_def)
  have send: "Publish api pm order channel message w' =
      send_frames api (map (\<lambda>s. (fst s, sub_message channel message s)) ss) 0 w'"
    by (simp add: Publish_def publish_send_frames publish_matches_subs ss_def all_def)
  have "snd (Publish api pm order channel message w') = (card (set ss), None)"
    if "\<forall>c call w. snd (api c call w) = None"
    using that send_frames_all [of api] ss(1) by (simp add: send distinct_card)
  with ss send show ?thesis by auto
qed

theorem publish_reaches_subscribers_witness:
  "\<exists>ps w order. ps_run log_api [Call_subscribe 7 ''a'', Call_psubscribe 8 ''*''] NewPubSub [] = Inr (ps, w) \<and>
    is_iteration ps order \<and>
    snd (Publish log_api (\<lambda>pat name. Some (pat = ''*'')) order ''b'' ''hi'' w) = (1, None)"
proof -
  let ?calls = "[Call_subscribe 7 ''a'', Call_psubscribe 8 ''*'']"
  let ?order = "[(7, [\<lparr>en_pattern = False, en_value = ''a'', en_client = Client 0 7\<rparr>]),
    (8, [\<lparr>en_pattern = True, en_value = ''*'', en_client = Client 1 8\<rparr>])]"
  obtain ps w where run: "ps_run log_api ?calls NewPubSub [] = Inr (ps, w)"
    using ps_run_history [of log_api ?calls "[]"] by (elim exE conjE)
  have iter: "is_iteration ps ?order"
    using run
    by (auto simp: is_iteration_def Subscribe_def PSubscribe_def subscribe_register_def ensureClient_def
        NewPubSub_def Let_def split: prod.splits)
  have "{s. last_adds (map table_op_of ?calls) s \<and> sub_matches (\<lambda>pat name. Some (pat = ''*'')) ''b'' s} =
      {(8, True, ''*'')}"
    by (auto simp: last_adds_def sub_matches_def)
  with publish_reaches_subscribers [OF run iter, of "\<lambda>pat name. Some (pat = ''*'')" "''b''" "''hi''" w] run iter
  show ?thesis by (auto simp: log_api_def)
qed

end
