(* ===== verification/Server_Adapter.thy ===== *)
theory Server_Adapter
  imports Server Pub_Sub_Table
begin

text \<open>
  What stands around the request path: \<^verbatim>\<open>Listen\<close> and \<^verbatim>\<open>ListenTLS\<close> of \<^verbatim>\<open>internal/conn/listener.go\<close>, and the
  adapter \<^verbatim>\<open>runtimeConn\<close> of \<^verbatim>\<open>server.go\<close>, the connection that a session allocator is given. The adapter
  has a session only after the allocator has returned, and its writes reach nobody.
\<close>

section \<open>Listeners\<close>

text \<open>\<^verbatim>\<open>net.Listen\<close> and \<^verbatim>\<open>tls.NewListener\<close> are parameters.\<close>

definition Listen :: "(bytes \<Rightarrow> bytes \<Rightarrow> 'e + 'l) \<Rightarrow> bytes \<Rightarrow> bytes \<Rightarrow> 'e + 'l" where
  "Listen net_Listen network addr = net_Listen network addr"

definition ListenTLS ::
  "(bytes \<Rightarrow> bytes \<Rightarrow> 'e + 'l) \<Rightarrow> ('l \<Rightarrow> 'c \<Rightarrow> 'l) \<Rightarrow> bytes \<Rightarrow> bytes \<Rightarrow> 'c \<Rightarrow> 'e + 'l" where
  "ListenTLS net_Listen tls_NewListener network addr cfg =
     (case Listen net_Listen network addr of
        Inl err \<Rightarrow> Inl err
      | Inr ln \<Rightarrow> Inr (tls_NewListener ln cfg))"

section \<open>The adapter\<close>

record runtimeConn =
  rc_conn :: conn
  rc_sess :: "session option"

text \<open>\<^verbatim>\<open>SetData\<close> on a nil session dereferences it for the lock.\<close>

definition runtimeConn_SetData :: "nat option \<Rightarrow> runtimeConn \<Rightarrow> runtimeConn go" where
  "runtimeConn_SetData v c =
     (case rc_sess c of
        None \<Rightarrow> Inl Nil_dereference
      | Some s \<Rightarrow> Inr (c\<lparr>rc_sess := Some (SetData v s)\<rparr>))"

definition runtimeConn_Close :: "('n \<Rightarrow> 'n \<times> 'e option) \<Rightarrow> runtimeConn \<Rightarrow> 'n \<Rightarrow> runtimeConn \<times> 'n \<times> 'e option" where
  "runtimeConn_Close net_Close c n =
     (case Conn_Close net_Close (rc_conn c) n of (cn, n', err) \<Rightarrow> (c\<lparr>rc_conn := cn\<rparr>, n', err))"

definition Detach :: "runtimeConn \<Rightarrow> runtimeConn" where
  "Detach c = c"

text \<open>The writing methods, as the connection of a \<^verbatim>\<open>PubSub\<close> registry sees them.\<close>

fun runtimeConn_api :: "('w, 'e) conn_api" where
  "runtimeConn_api c (WriteString s) w = (w, None)"
| "runtimeConn_api c (WriteBulk b) w = (w, None)"
| "runtimeConn_api c (WriteInt n) w = (w, None)"
| "runtimeConn_api c (WriteArray n) w = (w, None)"
| "runtimeConn_api c WriteNull w = (w, None)"
| "runtimeConn_api c (WriteError s) w = (w, None)"
| "runtimeConn_api c (WriteAny v) w = (w, None)"
| "runtimeConn_api c FlushConn w = (w, None)"

lemma runtimeConn_api_nothing: "runtimeConn_api c call w = (w, None)"
  by (cases call) simp_all

lemma runtimeConn_calls: "do_calls runtimeConn_api c calls w = (w, None)"
  by (induction calls) (simp_all add: runtimeConn_api_nothing)

text \<open>
  \<^verbatim>\<open>serveDefaultRuntime\<close> up to the call of \<^verbatim>\<open>SetCloser\<close>: the adapter is handed to the allocator without a
  session. The allocator of the user is a function that may call the methods of the adapter.
\<close>

definition allocate_session ::
  "(runtimeConn \<Rightarrow> (session option \<times> runtimeConn) go) \<Rightarrow> conn \<Rightarrow> (session \<times> runtimeConn) option go" where
  "allocate_session allocate c =
     (case allocate \<lparr>rc_conn = c, rc_sess = None\<rparr> of
        Inl p \<Rightarrow> Inl p
      | Inr (None, rc) \<Rightarrow> Inr None
      | Inr (Some s, rc) \<Rightarrow> Inr (Some (s, rc\<lparr>rc_sess := Some s\<rparr>)))"

text \<open>The default allocator leaves the adapter alone; one that stores data with the connection panics.\<close>

lemma default_allocate:
  "allocate_session (\<lambda>rc. Inr (Some (fst (Allocate now nextID)), rc)) c =
    Inr (Some (NewSession (nextID + 1) now, \<lparr>rc_conn = c, rc_sess = Some (NewSession (nextID + 1) now)\<rparr>))"
  by (simp add: allocate_session_def Allocate_def)

lemma storing_allocate_panics:
  "allocate_session
      (\<lambda>rc. case runtimeConn_SetData v rc of Inl p \<Rightarrow> Inl p | Inr rc' \<Rightarrow> Inr (Some (NewSession sid now), rc')) c =
    Inl Nil_dereference"
  by (simp add: allocate_session_def runtimeConn_SetData_def)

section \<open>Publishing to adapters\<close>

lemma adapter_write: "write_and_flush runtimeConn_api cl v w = (w, None)"
  by (simp add: write_and_flush_calls runtimeConn_calls)

lemma adapter_send_frames: "send_frames runtimeConn_api cvs n w = (w, n + length cvs, None)"
  by (induction cvs arbitrary: n) (auto simp: runtimeConn_calls)

lemma adapter_run: "ps_run runtimeConn_api calls ps w = Inr (ps', w') \<Longrightarrow> w' = w"
proof (induction calls arbitrary: ps)
  case (Cons call calls)
  have "ps_perform runtimeConn_api call ps w = Inr (ps1, w1, err) \<Longrightarrow> w1 = w" for ps1 w1 err
    by (cases call)
      (auto simp: Subscribe_def PSubscribe_def Unsubscribe_def PUnsubscribe_def unsubscribe_def adapter_write Let_def
        split: sum.splits prod.splits option.splits)
  with Cons show ?case by (auto split: sum.splits)
qed simp

text \<open>
  A registry of the connections that the server hands out: messages are counted as sent, subscriptions
  as acknowledged, and nothing is written anywhere.
\<close>

lemma adapter_publishes_nothing:
  "ps_run runtimeConn_api calls NewPubSub w0 = Inr (ps, w) \<Longrightarrow>
    w = w0 \<and> Publish runtimeConn_api pm order channel msg w =
      (w, length (publish_matches pm channel order), None)"
  using adapter_run [of calls NewPubSub w0 ps w]
  by (simp add: Publish_def publish_send_frames adapter_send_frames)

end
