(* ===== verification/Server_Runs.thy ===== *)
theory Server_Runs
  imports Server
begin

text \<open>
  The life of the server of \<^verbatim>\<open>server.go\<close>: calls of \<^verbatim>\<open>Start\<close>, each of which accepts connections and then
  cleans up, calls of \<^verbatim>\<open>Stop\<close> and \<^verbatim>\<open>Close\<close>, and the sessions, interleaved one atomic action at a time.
  Listener, dispatcher and \<^verbatim>\<open>serveDone\<close> channel of the \<open>i\<close>-th call of \<^verbatim>\<open>Start\<close> are all named \<open>i\<close>. What a session
  does inside its loops is the theory \<open>Session\<close>; here it runs, takes itself off the map and closes
  \<^verbatim>\<open>done\<close>. \<^verbatim>\<open>serve\<close> returns nil on every path, so the error value that is passed around is left out.
  Lemmas: what a shutdown has waited for when it returns, that a shutdown finds a running server as
  long as calls of \<^verbatim>\<open>Start\<close> do not overlap, and what happens when they do.
\<close>

section \<open>State\<close>

record server =
  sv_listener :: "nat option"
  sv_dispatcher :: "nat option"
  sv_serveDone :: "nat option"
  sv_started :: bool
  sv_done :: bool
  sv_sessions :: "nat set"

text \<open>
  Where a call of \<^verbatim>\<open>Start\<close> is: refused because the server is started, failed to listen, in \<^verbatim>\<open>Accept\<close>, with
  an accepted connection before and after the test of \<^verbatim>\<open>done\<close>, with a session before it is stored and
  before its loops are started, out of \<^verbatim>\<open>serve\<close>, after \<^verbatim>\<open>dispatcher.Stop\<close>, after the cleanup, returned.
\<close>

datatype run_pc =
    Run_refused | Run_failed
  | Run_accept | Run_conn | Run_alloc | Run_store nat | Run_launch nat
  | Run_served | Run_stopped | Run_cleaned | Run_returned

text \<open>
  Where a call of \<^verbatim>\<open>shutdown\<close> is, with the listener and the channel it has taken from the server, the
  sessions that were on the map when it started to walk through it, and those it has visited.
\<close>

datatype stop_pc =
    Sh_idle
  | Sh_flag "nat option" "nat option"
  | Sh_close "nat option" "nat option"
  | Sh_range "nat option" "nat set" "nat set"
  | Sh_wait "nat option" "nat set" "nat set" nat
  | Sh_join "nat option" "nat set"
  | Sh_returned "nat option" "nat set"

datatype sess_state = Se_new | Se_stored | Se_running | Se_removed | Se_done

record sv_world =
  sw_server :: server
  sw_runs :: "run_pc list"
  sw_stops :: "stop_pc list"
  sw_sess :: "(sess_state \<times> nat option) list"
  sw_ln_closed :: "nat set"
  sw_disp_stopped :: "nat set"
  sw_done_closed :: "nat set"

text \<open>A session is listed with the dispatcher it was bound to when it was set up.\<close>

definition sv_init :: sv_world where
  "sv_init =
     \<lparr>sw_server = \<lparr>sv_listener = None, sv_dispatcher = None, sv_serveDone = None, sv_started = False,
        sv_done = False, sv_sessions = {}\<rparr>,
      sw_runs = [], sw_stops = [], sw_sess = [], sw_ln_closed = {}, sw_disp_stopped = {}, sw_done_closed = {}\<rparr>"

definition run_over :: "run_pc \<Rightarrow> bool" where
  "run_over r \<longleftrightarrow> r \<in> {Run_refused, Run_failed, Run_returned}"

text \<open>
  The part of \<^verbatim>\<open>Start\<close> under the lock, when the listener would be \<open>i\<close>: where the call goes on, and the
  server; and the cleanup at its end.
\<close>

definition Start_fields :: "nat \<Rightarrow> server \<Rightarrow> server" where
  "Start_fields i sv =
     sv\<lparr>sv_listener := Some i, sv_dispatcher := Some i, sv_serveDone := Some i, sv_started := True,
        sv_done := False\<rparr>"

definition Start_begin :: "bool \<Rightarrow> nat \<Rightarrow> server \<Rightarrow> run_pc \<times> server" where
  "Start_begin listens i sv =
     (if sv_started sv then (Run_refused, sv)
      else if \<not> listens then (Run_failed, sv)
      else (Run_accept, Start_fields i sv))"

definition Start_cleanup :: "server \<Rightarrow> server" where
  "Start_cleanup sv =
     sv\<lparr>sv_listener := None, sv_dispatcher := None, sv_serveDone := None, sv_started := False\<rparr>"

text \<open>The part of \<^verbatim>\<open>shutdown\<close> under the lock: \<open>None\<close> when the server is not started.\<close>

definition shutdown_begin :: "server \<Rightarrow> (stop_pc \<times> server) option" where
  "shutdown_begin sv =
     (if \<not> sv_started sv then None
      else Some (Sh_flag (sv_listener sv) (sv_serveDone sv), sv\<lparr>sv_listener := None, sv_started := False\<rparr>))"

text \<open>\<^verbatim>\<open>Addr\<close>, with what the listeners answer as a parameter.\<close>

definition Addr :: "(nat \<Rightarrow> 'a) \<Rightarrow> server \<Rightarrow> 'a option" where
  "Addr ln_Addr sv = map_option ln_Addr (sv_listener sv)"

definition set_run :: "nat \<Rightarrow> run_pc \<Rightarrow> sv_world \<Rightarrow> sv_world" where
  "set_run i r w = w\<lparr>sw_runs := (sw_runs w)[i := r]\<rparr>"

definition set_stop :: "nat \<Rightarrow> stop_pc \<Rightarrow> sv_world \<Rightarrow> sv_world" where
  "set_stop j p w = w\<lparr>sw_stops := (sw_stops w)[j := p]\<rparr>"

definition on_server :: "(server \<Rightarrow> server) \<Rightarrow> sv_world \<Rightarrow> sv_world" where
  "on_server f w = w\<lparr>sw_server := f (sw_server w)\<rparr>"

definition add_run :: "run_pc \<Rightarrow> sv_world \<Rightarrow> sv_world" where
  "add_run r w = w\<lparr>sw_runs := sw_runs w @ [r]\<rparr>"

definition add_stop :: "stop_pc \<Rightarrow> sv_world \<Rightarrow> sv_world" where
  "add_stop p w = w\<lparr>sw_stops := sw_stops w @ [p]\<rparr>"

definition add_sess :: "sv_world \<Rightarrow> sv_world" where
  "add_sess w = w\<lparr>sw_sess := sw_sess w @ [(Se_new, sv_dispatcher (sw_server w))]\<rparr>"

definition close_listener :: "nat option \<Rightarrow> sv_world \<Rightarrow> sv_world" where
  "close_listener ln w =
     w\<lparr>sw_ln_closed := (case ln of None \<Rightarrow> sw_ln_closed w | Some i \<Rightarrow> insert i (sw_ln_closed w))\<rparr>"

definition dispatcher_Stop :: "nat \<Rightarrow> sv_world \<Rightarrow> sv_world" where
  "dispatcher_Stop i w = w\<lparr>sw_disp_stopped := insert i (sw_disp_stopped w)\<rparr>"

definition close_serveDone :: "nat \<Rightarrow> sv_world \<Rightarrow> sv_world" where
  "close_serveDone i w = w\<lparr>sw_done_closed := insert i (sw_done_closed w)\<rparr>"

definition set_sess :: "nat \<Rightarrow> sess_state \<Rightarrow> sv_world \<Rightarrow> sv_world" where
  "set_sess k st w = w\<lparr>sw_sess := (sw_sess w)[k := (st, snd (sw_sess w ! k))]\<rparr>"

definition run_at :: "sv_world \<Rightarrow> nat \<Rightarrow> run_pc \<Rightarrow> bool" where
  "run_at w i r \<longleftrightarrow> i < length (sw_runs w) \<and> sw_runs w ! i = r"

definition stop_at :: "sv_world \<Rightarrow> nat \<Rightarrow> stop_pc \<Rightarrow> bool" where
  "stop_at w j p \<longleftrightarrow> j < length (sw_stops w) \<and> sw_stops w ! j = p"

definition sess_at :: "sv_world \<Rightarrow> nat \<Rightarrow> sess_state \<Rightarrow> bool" where
  "sess_at w k st \<longleftrightarrow> k < length (sw_sess w) \<and> fst (sw_sess w ! k) = st"

section \<open>Steps\<close>

text \<open>
  With \<open>seq\<close>, \<^verbatim>\<open>Start\<close> is called only when all earlier calls have returned. \<^verbatim>\<open>Accept\<close> fails when its
  listener is closed, and may fail at any time; the failure ends \<^verbatim>\<open>serve\<close> only when the listener is
  closed or \<^verbatim>\<open>done\<close> is set. \<^verbatim>\<open>dispatcher.Stop\<close> is one step: that it returns is proved in
  \<open>Dispatcher_Liveness\<close>.
\<close>

inductive run_step :: "bool \<Rightarrow> sv_world \<Rightarrow> sv_world \<Rightarrow> bool" for seq and w where
  start: "Start_begin listens (length (sw_runs w)) (sw_server w) = (r, sv) \<Longrightarrow>
    seq \<and> r = Run_accept \<longrightarrow> list_all run_over (sw_runs w) \<Longrightarrow>
    run_step seq w (add_run r (on_server (\<lambda>_. sv) w))"
| accept_conn: "run_at w i Run_accept \<Longrightarrow> i \<notin> sw_ln_closed w \<Longrightarrow> run_step seq w (set_run i Run_conn w)"
| accept_ends: "run_at w i Run_accept \<Longrightarrow> i \<in> sw_ln_closed w \<or> sv_done (sw_server w) \<Longrightarrow>
    run_step seq w (set_run i Run_served (close_listener (Some i) w))"
| conn_done: "run_at w i Run_conn \<Longrightarrow> sv_done (sw_server w) \<Longrightarrow> run_step seq w (set_run i Run_accept w)"
| conn_serve: "run_at w i Run_conn \<Longrightarrow> \<not> sv_done (sw_server w) \<Longrightarrow> run_step seq w (set_run i Run_alloc w)"
| alloc_nil: "run_at w i Run_alloc \<Longrightarrow> run_step seq w (set_run i Run_accept w)"
| alloc: "run_at w i Run_alloc \<Longrightarrow>
    run_step seq w (set_run i (Run_store (length (sw_sess w))) (add_sess w))"
| store: "run_at w i (Run_store k) \<Longrightarrow>
    run_step seq w (set_run i (Run_launch k) (set_sess k Se_stored
      (on_server (\<lambda>sv. sv\<lparr>sv_sessions := insert k (sv_sessions sv)\<rparr>) w)))"
| launch: "run_at w i (Run_launch k) \<Longrightarrow> run_step seq w (set_run i Run_accept (set_sess k Se_running w))"
| stop_dispatcher: "run_at w i Run_served \<Longrightarrow>
    run_step seq w (set_run i Run_stopped (dispatcher_Stop i w))"
| cleanup: "run_at w i Run_stopped \<Longrightarrow> run_step seq w (set_run i Run_cleaned (on_server Start_cleanup w))"
| finish: "run_at w i Run_cleaned \<Longrightarrow>
    run_step seq w (set_run i Run_returned (close_serveDone i w))"

text \<open>
  \<^verbatim>\<open>Range\<close> visits no key twice, visits every key that stays on the map throughout, and may or may not
  visit one that is stored meanwhile. Both kinds of shutdown wait for \<^verbatim>\<open>done\<close> of each session.
\<close>

inductive stop_step :: "sv_world \<Rightarrow> sv_world \<Rightarrow> bool" for w where
  shut_idle: "shutdown_begin (sw_server w) = None \<Longrightarrow>
    stop_step w (add_stop Sh_idle w)"
| shut_begin: "shutdown_begin (sw_server w) = Some (p, sv) \<Longrightarrow>
    stop_step w (add_stop p (on_server (\<lambda>_. sv) w))"
| shut_flag: "stop_at w j (Sh_flag ln sd) \<Longrightarrow>
    stop_step w (set_stop j (Sh_close ln sd) (on_server (\<lambda>sv. sv\<lparr>sv_done := True\<rparr>) w))"
| shut_close: "stop_at w j (Sh_close ln sd) \<Longrightarrow>
    stop_step w (set_stop j (Sh_range sd (sv_sessions (sw_server w)) {}) (close_listener ln w))"
| shut_visit: "stop_at w j (Sh_range sd ks vis) \<Longrightarrow> k \<in> sv_sessions (sw_server w) \<Longrightarrow> k \<notin> vis \<Longrightarrow>
    stop_step w (set_stop j (Sh_wait sd ks (insert k vis) k) w)"
| shut_waited: "stop_at w j (Sh_wait sd ks vis k) \<Longrightarrow> sess_at w k Se_done \<Longrightarrow>
    stop_step w (set_stop j (Sh_range sd ks vis) w)"
| shut_ranged: "stop_at w j (Sh_range sd ks vis) \<Longrightarrow> ks \<inter> sv_sessions (sw_server w) \<subseteq> vis \<Longrightarrow>
    stop_step w (set_stop j (Sh_join sd ks) w)"
| shut_join: "stop_at w j (Sh_join sd ks) \<Longrightarrow> sd = None \<or> the sd \<in> sw_done_closed w \<Longrightarrow>
    stop_step w (set_stop j (Sh_returned sd ks) w)"

inductive sess_step :: "sv_world \<Rightarrow> sv_world \<Rightarrow> bool" for w where
  remove: "sess_at w k Se_running \<Longrightarrow>
    sess_step w (set_sess k Se_removed (on_server (\<lambda>sv. sv\<lparr>sv_sessions := sv_sessions sv - {k}\<rparr>) w))"
| finished: "sess_at w k Se_removed \<Longrightarrow> sess_step w (set_sess k Se_done w)"

inductive sv_reach :: "bool \<Rightarrow> sv_world \<Rightarrow> bool" for seq where
  sv_start: "sv_reach seq sv_init"
| sv_run: "sv_reach seq w \<Longrightarrow> run_step seq w w' \<Longrightarrow> sv_reach seq w'"
| sv_stop: "sv_reach seq w \<Longrightarrow> stop_step w w' \<Longrightarrow> sv_reach seq w'"
| sv_sess: "sv_reach seq w \<Longrightarrow> sess_step w w' \<Longrightarrow> sv_reach seq w'"

section \<open>What the updates do\<close>

lemmas world_updates = set_run_def set_stop_def on_server_def set_sess_def add_run_def add_stop_def add_sess_def
  close_listener_def dispatcher_Stop_def close_serveDone_def

lemma world_server [simp]:
  "sw_server (set_run i r w) = sw_server w" "sw_server (set_stop j p w) = sw_server w"
  "sw_server (set_sess k st w) = sw_server w" "sw_server (on_server f w) = f (sw_server w)"
  "sw_server (add_run r w) = sw_server w" "sw_server (add_stop p w) = sw_server w"
  "sw_server (add_sess w) = sw_server w" "sw_server (close_listener ln w) = sw_server w"
  "sw_server (dispatcher_Stop i w) = sw_server w" "sw_server (close_serveDone i w) = sw_server w"
  by (simp_all add: world_updates)

lemma world_sets [simp]:
  "sw_ln_closed (set_run i r w) = sw_ln_closed w" "sw_ln_closed (set_stop j p w) = sw_ln_closed w"
  "sw_ln_closed (set_sess k st w) = sw_ln_closed w" "sw_ln_closed (on_server f w) = sw_ln_closed w"
  "sw_ln_closed (add_run r w) = sw_ln_closed w" "sw_ln_closed (add_stop p w) = sw_ln_closed w"
  "sw_ln_closed (add_sess w) = sw_ln_closed w"
  "sw_ln_closed (close_listener ln w) = set_option ln \<union> sw_ln_closed w"
  "sw_ln_closed (dispatcher_Stop i w) = sw_ln_closed w" "sw_ln_closed (close_serveDone i w) = sw_ln_closed w"
  "sw_disp_stopped (set_run i r w) = sw_disp_stopped w" "sw_disp_stopped (set_stop j p w) = sw_disp_stopped w"
  "sw_disp_stopped (set_sess k st w) = sw_disp_stopped w" "sw_disp_stopped (on_server f w) = sw_disp_stopped w"
  "sw_disp_stopped (add_run r w) = sw_disp_stopped w" "sw_disp_stopped (add_stop p w) = sw_disp_stopped w"
  "sw_disp_stopped (add_sess w) = sw_disp_stopped w" "sw_disp_stopped (close_listener ln w) = sw_disp_stopped w"
  "sw_disp_stopped (dispatcher_Stop i w) = insert i (sw_disp_stopped w)"
  "sw_disp_stopped (close_serveDone i w) = sw_disp_stopped w"
  "sw_done_closed (set_run i r w) = sw_done_closed w" "sw_done_closed (set_stop j p w) = sw_done_closed w"
  "sw_done_closed (set_sess k st w) = sw_done_closed w" "sw_done_closed (on_server f w) = sw_done_closed w"
  "sw_done_closed (add_run r w) = sw_done_closed w" "sw_done_closed (add_stop p w) = sw_done_closed w"
  "sw_done_closed (add_sess w) = sw_done_closed w" "sw_done_closed (close_listener ln w) = sw_done_closed w"
  "sw_done_closed (dispatcher_Stop i w) = sw_done_closed w"
  "sw_done_closed (close_serveDone i w) = insert i (sw_done_closed w)"
  by (auto simp: world_updates split: option.splits)

lemma world_runs [simp]:
  "sw_runs (set_run i r w) = (sw_runs w)[i := r]" "sw_runs (set_stop j p w) = sw_runs w"
  "sw_runs (set_sess k st w) = sw_runs w" "sw_runs (on_server f w) = sw_runs w"
  "sw_runs (add_run r w) = sw_runs w @ [r]" "sw_runs (add_stop p w) = sw_runs w"
  "sw_runs (add_sess w) = sw_runs w" "sw_runs (close_listener ln w) = sw_runs w"
  "sw_runs (dispatcher_Stop i w) = sw_runs w" "sw_runs (close_serveDone i w) = sw_runs w"
  by (simp_all add: world_updates)

lemma world_stops [simp]:
  "sw_stops (set_run i r w) = sw_stops w" "sw_stops (set_stop j p w) = (sw_stops w)[j := p]"
  "sw_stops (set_sess k st w) = sw_stops w" "sw_stops (on_server f w) = sw_stops w"
  "sw_stops (add_run r w) = sw_stops w" "sw_stops (add_stop p w) = sw_stops w @ [p]"
  "sw_stops (add_sess w) = sw_stops w" "sw_stops (close_listener ln w) = sw_stops w"
  "sw_stops (dispatcher_Stop i w) = sw_stops w" "sw_stops (close_serveDone i w) = sw_stops w"
  by (simp_all add: world_updates)

lemma world_sess [simp]:
  "sw_sess (set_run i r w) = sw_sess w" "sw_sess (set_stop j p w) = sw_sess w"
  "length (sw_sess (set_sess k st w)) = length (sw_sess w)" "sw_sess (on_server f w) = sw_sess w"
  "sw_sess (set_sess k st (on_server f w)) = sw_sess (set_sess k st w)"
  "sw_sess (add_run r w) = sw_sess w" "sw_sess (add_stop p w) = sw_sess w"
  "length (sw_sess (add_sess w)) = Suc (length (sw_sess w))" "sw_sess (close_listener ln w) = sw_sess w"
  "sw_sess (dispatcher_Stop i w) = sw_sess w" "sw_sess (close_serveDone i w) = sw_sess w"
  by (simp_all add: world_updates)

lemma sess_at_simps [simp]:
  "sess_at (set_run i r w) k st = sess_at w k st"
  "sess_at (set_stop j p w) k st = sess_at w k st"
  "sess_at (on_server f w) k st = sess_at w k st"
  "sess_at (set_sess k' st' w) k st = (if k = k' then k < length (sw_sess w) \<and> st = st' else sess_at w k st)"
  "sess_at (add_run r w) k st = sess_at w k st"
  "sess_at (add_stop p w) k st = sess_at w k st"
  "sess_at (add_sess w) k st = (if k = length (sw_sess w) then st = Se_new else sess_at w k st)"
  "sess_at (close_listener ln w) k st = sess_at w k st"
  "sess_at (dispatcher_Stop i w) k st = sess_at w k st"
  "sess_at (close_serveDone i w) k st = sess_at w k st"
  by (auto simp: sess_at_def world_updates nth_list_update nth_append)

lemma run_at_other [simp]:
  "run_at (set_stop j p w) = run_at w" "run_at (set_sess k st w) = run_at w" "run_at (on_server f w) = run_at w"
  "run_at (add_stop p w) = run_at w" "run_at (add_sess w) = run_at w" "run_at (close_listener ln w) = run_at w"
  "run_at (dispatcher_Stop i w) = run_at w" "run_at (close_serveDone i w) = run_at w"
  by (simp_all add: fun_eq_iff run_at_def)

lemma server_fields [simp]:
  "sv_sessions (Start_fields i sv) = sv_sessions sv" "sv_sessions (Start_cleanup sv) = sv_sessions sv"
  "sv_started (Start_fields i sv)" "\<not> sv_started (Start_cleanup sv)"
  "sv_listener (Start_fields i sv) = Some i" "sv_serveDone (Start_fields i sv) = Some i"
  by (simp_all add: Start_fields_def Start_cleanup_def)

lemma shutdown_beginD:
  "shutdown_begin sv = Some (p, sv') \<Longrightarrow> sv_started sv \<and> p = Sh_flag (sv_listener sv) (sv_serveDone sv) \<and>
    \<not> sv_started sv' \<and> sv_sessions sv' = sv_sessions sv"
  by (auto simp: shutdown_begin_def split: if_splits)

lemma Start_beginD:
  "Start_begin listens i sv = (r, sv') \<Longrightarrow>
    sv' = sv \<and> (r = Run_refused \<or> r = Run_failed) \<or> r = Run_accept \<and> sv' = Start_fields i sv \<and> \<not> sv_started sv"
  by (auto simp: Start_begin_def split: if_splits)

lemma sess_at_unique: "sess_at w k st \<Longrightarrow> sess_at w k st' \<longleftrightarrow> st' = st"
  by (auto simp: sess_at_def)

lemma sess_at_fresh [simp]: "\<not> sess_at w (length (sw_sess w)) st"
  by (simp add: sess_at_def)

lemma sess_at_length: "sess_at w k st \<Longrightarrow> k < length (sw_sess w)"
  by (simp add: sess_at_def)

section \<open>Invariants of calls\<close>

fun stop_run :: "stop_pc \<Rightarrow> nat option" where
  "stop_run Sh_idle = None"
| "stop_run (Sh_flag ln sd) = sd"
| "stop_run (Sh_close ln sd) = sd"
| "stop_run (Sh_range sd ks vis) = sd"
| "stop_run (Sh_wait sd ks vis k) = sd"
| "stop_run (Sh_join sd ks) = sd"
| "stop_run (Sh_returned sd ks) = sd"

definition run_closed :: "sv_world \<Rightarrow> bool" where
  "run_closed w \<longleftrightarrow> (\<forall>i < length (sw_runs w).
     sw_runs w ! i \<in> {Run_served, Run_stopped, Run_cleaned, Run_returned} \<longrightarrow> i \<in> sw_ln_closed w)"

definition run_drained :: "sv_world \<Rightarrow> bool" where
  "run_drained w \<longleftrightarrow> (\<forall>i < length (sw_runs w).
     sw_runs w ! i \<in> {Run_stopped, Run_cleaned, Run_returned} \<longrightarrow> i \<in> sw_disp_stopped w)"

definition run_signalled :: "sv_world \<Rightarrow> bool" where
  "run_signalled w \<longleftrightarrow> (\<forall>i. i \<in> sw_done_closed w \<longleftrightarrow> run_at w i Run_returned)"

definition run_real :: "sv_world \<Rightarrow> nat \<Rightarrow> bool" where
  "run_real w i \<longleftrightarrow> i < length (sw_runs w) \<and> sw_runs w ! i \<noteq> Run_refused \<and> sw_runs w ! i \<noteq> Run_failed"

definition server_named :: "sv_world \<Rightarrow> bool" where
  "server_named w \<longleftrightarrow> (sv_started (sw_server w) \<longrightarrow>
     (\<exists>i. run_real w i \<and> sv_listener (sw_server w) = Some i \<and> sv_serveDone (sw_server w) = Some i))"

lemma set_list_updateD: "x \<in> set (xs[i := y]) \<Longrightarrow> x = y \<or> x \<in> set xs"
  using set_update_subset_insert by fastforce

lemma run_closed_run: "run_step seq w w' \<Longrightarrow> run_closed w \<Longrightarrow> run_closed w'"
proof (induction rule: run_step.induct)
  case (start listens r sv)
  then show ?case
    by (auto simp: run_closed_def nth_append less_Suc_eq dest!: Start_beginD)
qed (simp_all add: run_closed_def run_at_def nth_list_update)

lemma run_drained_run: "run_step seq w w' \<Longrightarrow> run_drained w \<Longrightarrow> run_drained w'"
proof (induction rule: run_step.induct)
  case (start listens r sv)
  then show ?case
    by (auto simp: run_drained_def nth_append less_Suc_eq dest!: Start_beginD)
qed (simp_all add: run_drained_def run_at_def nth_list_update)

lemma run_signalled_run: "run_step seq w w' \<Longrightarrow> run_signalled w \<Longrightarrow> run_signalled w'"
proof (induction rule: run_step.induct)
  case (start listens r sv)
  then show ?case
    by (auto simp: run_signalled_def run_at_def nth_append dest!: Start_beginD)
qed (auto simp: run_signalled_def run_at_def nth_list_update)

lemma run_real_simps [simp]:
  "run_real (set_stop j p w) = run_real w" "run_real (on_server f w) = run_real w"
  "run_real (add_stop p w) = run_real w" "run_real (close_listener ln w) = run_real w"
  by (simp_all add: fun_eq_iff run_real_def)

lemma run_real_run: "run_step seq w w' \<Longrightarrow> run_real w i \<Longrightarrow> run_real w' i"
  by (induction rule: run_step.induct) (auto simp: run_real_def run_at_def nth_list_update nth_append)

lemma run_real_stop: "stop_step w w' \<Longrightarrow> run_real w' i = run_real w i"
  by (induction rule: stop_step.induct) simp_all

lemma run_real_sess: "sess_step w w' \<Longrightarrow> run_real w' i = run_real w i"
  by (induction rule: sess_step.induct) (simp_all add: run_real_def)

lemma run_real_add: "run_real w i \<Longrightarrow> run_real (add_run r w) i"
  by (simp add: run_real_def nth_append)

lemma server_named_run: "run_step seq w w' \<Longrightarrow> server_named w \<Longrightarrow> server_named w'"
proof (induction rule: run_step.induct)
  case (start listens r sv)
  from Start_beginD [OF start.hyps(1)]
  consider "sv = sw_server w" | "r = Run_accept" "sv = Start_fields (length (sw_runs w)) (sw_server w)" by blast
  then show ?case
  proof cases
    case 1
    with start.prems run_real_add show ?thesis by (auto simp: server_named_def)
  qed (auto simp: server_named_def run_real_def)
qed (auto simp: server_named_def run_real_def run_at_def nth_list_update)

lemmas runs_inv_defs = run_closed_def run_drained_def run_signalled_def server_named_def run_real_def run_at_def

definition runs_inv :: "sv_world \<Rightarrow> bool" where
  "runs_inv w \<longleftrightarrow> run_closed w \<and> run_drained w \<and> run_signalled w \<and> server_named w"

lemma runs_inv_run: "run_step seq w w' \<Longrightarrow> runs_inv w \<Longrightarrow> runs_inv w'"
  using run_closed_run run_drained_run run_signalled_run server_named_run by (metis runs_inv_def)

lemma runs_inv_stop: "stop_step w w' \<Longrightarrow> runs_inv w \<Longrightarrow> runs_inv w'"
  by (induction rule: stop_step.induct)
    (auto simp: runs_inv_def runs_inv_defs dest: shutdown_beginD)

lemma runs_inv_sess: "sess_step w w' \<Longrightarrow> runs_inv w \<Longrightarrow> runs_inv w'"
  by (induction rule: sess_step.induct) (auto simp: runs_inv_def runs_inv_defs)

section \<open>Sessions on the map and off it\<close>

text \<open>The invariant, for one session: who is about to store it, who is about to start its loops.\<close>

definition at_pc :: "sv_world \<Rightarrow> run_pc \<Rightarrow> nat set" where
  "at_pc w r = {i. run_at w i r}"

definition sess_ok :: "sv_world \<Rightarrow> nat \<Rightarrow> bool" where
  "sess_ok w k \<longleftrightarrow>
     (k \<in> sv_sessions (sw_server w) \<longleftrightarrow> sess_at w k Se_stored \<or> sess_at w k Se_running) \<and>
     (if sess_at w k Se_new then \<exists>i. at_pc w (Run_store k) = {i} else at_pc w (Run_store k) = {}) \<and>
     (if sess_at w k Se_stored then \<exists>i. at_pc w (Run_launch k) = {i} else at_pc w (Run_launch k) = {})"

lemma at_pc_simps [simp]:
  "at_pc (set_stop j p w) r = at_pc w r"
  "at_pc (on_server f w) r = at_pc w r"
  "at_pc (set_sess k st w) r = at_pc w r"
  "at_pc (add_stop p w) r = at_pc w r"
  "at_pc (add_sess w) r = at_pc w r"
  "at_pc (close_listener ln w) r = at_pc w r"
  "at_pc (dispatcher_Stop i w) r = at_pc w r"
  "at_pc (close_serveDone i w) r = at_pc w r"
  by (simp_all add: at_pc_def run_at_def)

lemma at_pc_new: "r \<noteq> r' \<Longrightarrow> at_pc (add_run r' w) r = at_pc w r"
  by (auto simp: at_pc_def run_at_def nth_append)

lemma at_pc_move:
  "run_at w i r0 \<Longrightarrow> sw_runs w' = sw_runs w \<Longrightarrow> at_pc (set_run i r' w') r =
     (if r = r' then insert i (at_pc w r) else if r = r0 then at_pc w r - {i} else at_pc w r)"
  by (auto simp: at_pc_def fun_eq_iff run_at_def nth_list_update split: if_splits)

lemma at_pc_in: "run_at w i r \<Longrightarrow> i \<in> at_pc w r"
  by (simp add: at_pc_def)

lemma sess_ok_pending:
  "sess_ok w k \<Longrightarrow> run_at w i (Run_store k) \<Longrightarrow> sess_at w k Se_new \<and> at_pc w (Run_store k) = {i}"
  "sess_ok w k \<Longrightarrow> run_at w i (Run_launch k) \<Longrightarrow> sess_at w k Se_stored \<and> at_pc w (Run_launch k) = {i}"
  using at_pc_in [of w i] by (fastforce simp: sess_ok_def split: if_splits)+

lemma sess_ok_run: "run_step seq w w' \<Longrightarrow> sess_ok w k \<Longrightarrow> sess_ok w' k"
proof (induction rule: run_step.induct)
  case (start listens r sv)
  then show ?case by (auto simp: sess_ok_def at_pc_new dest!: Start_beginD)
next
  case (alloc i)
  then show ?case by (auto simp: sess_ok_def at_pc_move [OF alloc.hyps(1)])
next
  case (store i k')
  show ?case
  proof (cases "k = k'")
    case True
    have now: "sess_at w k' Se_new" "at_pc w (Run_store k') = {i}"
      using sess_ok_pending(1) [of w k' i] store True by auto
    show ?thesis
      using store.prems sess_at_length [OF now(1)]
      by (simp add: True sess_ok_def at_pc_move [OF store.hyps(1)] sess_at_unique [OF now(1)] now(2))
  qed (use store in \<open>simp add: sess_ok_def at_pc_move [OF store.hyps(1)]\<close>)
next
  case (launch i k')
  show ?case
  proof (cases "k = k'")
    case True
    have now: "sess_at w k' Se_stored" "at_pc w (Run_launch k') = {i}"
      using sess_ok_pending(2) [of w k' i] launch True by auto
    show ?thesis
      using launch.prems sess_at_length [OF now(1)]
      by (simp add: True sess_ok_def at_pc_move [OF launch.hyps(1)] sess_at_unique [OF now(1)] now(2))
  qed (use launch in \<open>simp add: sess_ok_def at_pc_move [OF launch.hyps(1)]\<close>)
qed (simp_all add: sess_ok_def at_pc_new at_pc_move)

lemma sess_ok_stop: "stop_step w w' \<Longrightarrow> sess_ok w k \<Longrightarrow> sess_ok w' k"
  by (induction rule: stop_step.induct) (simp_all add: sess_ok_def shutdown_beginD)

lemma sess_ok_sess: "sess_step w w' \<Longrightarrow> sess_ok w k \<Longrightarrow> sess_ok w' k"
  by (induction rule: sess_step.induct) (auto simp: sess_ok_def sess_at_unique dest: sess_at_length)

text \<open>What is known, gone or done stays so.\<close>

definition sess_gone :: "sv_world \<Rightarrow> nat \<Rightarrow> bool" where
  "sess_gone w k \<longleftrightarrow> sess_at w k Se_removed \<or> sess_at w k Se_done"

definition sess_known :: "sv_world \<Rightarrow> nat \<Rightarrow> bool" where
  "sess_known w k \<longleftrightarrow> sess_at w k Se_stored \<or> sess_at w k Se_running \<or> sess_gone w k"

definition sess_forward :: "sv_world \<Rightarrow> sv_world \<Rightarrow> bool" where
  "sess_forward w w' \<longleftrightarrow> (\<forall>k. (sess_known w k \<longrightarrow> sess_known w' k) \<and> (sess_gone w k \<longrightarrow> sess_gone w' k) \<and>
     (sess_at w k Se_done \<longrightarrow> sess_at w' k Se_done))"

lemma sess_forward_run: "run_step seq w w' \<Longrightarrow> \<forall>k. sess_ok w k \<Longrightarrow> sess_forward w w'"
proof (induction rule: run_step.induct)
  case (store i k)
  then have "sess_at w k Se_new" using sess_ok_pending(1) by blast
  then show ?case by (auto simp: sess_forward_def sess_known_def sess_gone_def sess_at_unique)
next
  case (launch i k)
  then have "sess_at w k Se_stored" using sess_ok_pending(2) by blast
  then show ?case
    by (auto simp: sess_forward_def sess_known_def sess_gone_def sess_at_unique dest: sess_at_length)
qed (simp_all add: sess_forward_def sess_known_def sess_gone_def)

lemma sess_forward_stop: "stop_step w w' \<Longrightarrow> sess_forward w w'"
  by (induction rule: stop_step.induct) (simp_all add: sess_forward_def sess_known_def sess_gone_def)

lemma sess_forward_sess: "sess_step w w' \<Longrightarrow> sess_forward w w'"
  by (induction rule: sess_step.induct)
    (auto simp: sess_forward_def sess_known_def sess_gone_def sess_at_unique dest: sess_at_length)

section \<open>What a shutdown knows at each point\<close>

fun stop_ok :: "sv_world \<Rightarrow> stop_pc \<Rightarrow> bool" where
  "stop_ok w Sh_idle = True"
| "stop_ok w (Sh_flag ln sd) = (\<exists>i. run_real w i \<and> ln = Some i \<and> sd = Some i)"
| "stop_ok w (Sh_close ln sd) = (\<exists>i. run_real w i \<and> ln = Some i \<and> sd = Some i)"
| "stop_ok w (Sh_range sd ks vis) =
     ((\<exists>i. run_real w i \<and> sd = Some i \<and> i \<in> sw_ln_closed w) \<and> (\<forall>k \<in> ks. sess_known w k) \<and>
      (\<forall>k \<in> vis. sess_at w k Se_done))"
| "stop_ok w (Sh_wait sd ks vis k) =
     ((\<exists>i. run_real w i \<and> sd = Some i \<and> i \<in> sw_ln_closed w) \<and> (\<forall>k \<in> ks. sess_known w k) \<and>
      (\<forall>k' \<in> vis - {k}. sess_at w k' Se_done) \<and> sess_known w k)"
| "stop_ok w (Sh_join sd ks) =
     ((\<exists>i. run_real w i \<and> sd = Some i \<and> i \<in> sw_ln_closed w) \<and> (\<forall>k \<in> ks. sess_gone w k))"
| "stop_ok w (Sh_returned sd ks) =
     ((\<exists>i \<in> sw_done_closed w. sd = Some i) \<and> (\<forall>k \<in> ks. sess_gone w k))"

definition sv_grows :: "sv_world \<Rightarrow> sv_world \<Rightarrow> bool" where
  "sv_grows w w' \<longleftrightarrow> sess_forward w w' \<and> (\<forall>i. run_real w i \<longrightarrow> run_real w' i) \<and>
     sw_ln_closed w \<subseteq> sw_ln_closed w' \<and> sw_done_closed w \<subseteq> sw_done_closed w'"

lemma sv_grows_run: "run_step seq w w' \<Longrightarrow> \<forall>k. sess_ok w k \<Longrightarrow> sv_grows w w'"
  using sess_forward_run run_real_run by (fastforce simp: sv_grows_def elim: run_step.cases)

lemma sv_grows_stop: "stop_step w w' \<Longrightarrow> sv_grows w w'"
  using sess_forward_stop run_real_stop by (fastforce simp: sv_grows_def elim: stop_step.cases)

lemma sv_grows_sess: "sess_step w w' \<Longrightarrow> sv_grows w w'"
  using sess_forward_sess run_real_sess by (fastforce simp: sv_grows_def elim: sess_step.cases)

lemma stop_ok_grows: "stop_ok w p \<Longrightarrow> sv_grows w w' \<Longrightarrow> stop_ok w' p"
  by (cases p) (fastforce simp: sv_grows_def sess_forward_def)+

definition stops_inv :: "sv_world \<Rightarrow> bool" where
  "stops_inv w \<longleftrightarrow> (\<forall>p \<in> set (sw_stops w). stop_ok w p)"

lemma stops_inv_grows: "stops_inv w \<Longrightarrow> sv_grows w w' \<Longrightarrow> sw_stops w' = sw_stops w \<Longrightarrow> stops_inv w'"
  using stop_ok_grows unfolding stops_inv_def by metis

lemma run_step_stops: "run_step seq w w' \<Longrightarrow> sw_stops w' = sw_stops w"
  by (induction rule: run_step.induct) simp_all

lemma sess_step_stops: "sess_step w w' \<Longrightarrow> sw_stops w' = sw_stops w"
  by (induction rule: sess_step.induct) simp_all

text \<open>The steps of a shutdown, by the state it leaves and the state it reaches.\<close>

lemma stops_inv_move:
  assumes "stops_inv w" and "sv_grows w w'" and "sw_stops w' = (sw_stops w)[j := p]" and "stop_ok w' p"
  shows "stops_inv w'"
  using assms stop_ok_grows by (fastforce simp: stops_inv_def dest!: set_list_updateD)

lemma sess_ok_on_map: "sess_ok w k \<Longrightarrow> sess_known w k \<Longrightarrow> k \<in> sv_sessions (sw_server w) \<or> sess_gone w k"
  by (auto simp: sess_ok_def sess_known_def)

lemma sess_ok_known: "sess_ok w k \<Longrightarrow> k \<in> sv_sessions (sw_server w) \<Longrightarrow> sess_known w k"
  by (auto simp: sess_ok_def sess_known_def)

lemma sess_known_simps [simp]:
  "sess_known (set_stop j p w) = sess_known w" "sess_gone (set_stop j p w) = sess_gone w"
  "sess_known (close_listener ln w) = sess_known w" "sess_gone (close_listener ln w) = sess_gone w"
  "sess_known (on_server f w) = sess_known w" "sess_gone (on_server f w) = sess_gone w"
  by (simp_all add: fun_eq_iff sess_known_def sess_gone_def)

lemma stop_step_ok:
  assumes "stop_step w w'" and "runs_inv w" and "\<forall>k. sess_ok w k" and "stops_inv w"
  shows "stops_inv w'"
proof -
  have old: "stop_ok w p" if "stop_at w j p" for j p
    using assms(4) that by (auto simp: stops_inv_def stop_at_def)
  note move = stops_inv_move [OF assms(4) sv_grows_stop [OF assms(1)]]
  have grows: "stop_ok w' p" if "stop_ok w p" for p
    using stop_ok_grows [OF that sv_grows_stop [OF assms(1)]] .
  from assms(1) show ?thesis
  proof (cases rule: stop_step.cases)
    case (shut_idle)
    then show ?thesis using assms(4) grows by (simp add: stops_inv_def)
  next
    case (shut_begin p sv)
    then have "stop_ok w' p" using assms(2) shutdown_beginD [OF shut_begin(2)]
      by (auto simp: runs_inv_def server_named_def)
    then show ?thesis using assms(4) grows shut_begin by (simp add: stops_inv_def)
  next
    case (shut_flag j ln sd)
    then show ?thesis using old [OF shut_flag(2)] by (intro move) auto
  next
    case (shut_close j ln sd)
    then show ?thesis using old [OF shut_close(2)] assms(3) sess_ok_known by (intro move) auto
  next
    case (shut_visit j sd ks vis k)
    then show ?thesis using old [OF shut_visit(2)] assms(3) sess_ok_known by (intro move) auto
  next
    case (shut_waited j sd ks vis k)
    then show ?thesis using old [OF shut_waited(2)] by (intro move) auto
  next
    case (shut_ranged j sd ks vis)
    have "sess_gone w k" if "k \<in> ks" for k
      using that old [OF shut_ranged(2)] shut_ranged(3) sess_ok_on_map [of w k] assms(3)
      by (auto simp: sess_gone_def)
    then show ?thesis using old [OF shut_ranged(2)] shut_ranged by (intro move) auto
  next
    case (shut_join j sd ks)
    then show ?thesis using old [OF shut_join(2)] by (intro move) auto
  qed
qed

definition sv_inv :: "sv_world \<Rightarrow> bool" where
  "sv_inv w \<longleftrightarrow> runs_inv w \<and> (\<forall>k. sess_ok w k) \<and> stops_inv w"

lemma sv_inv_run: "run_step seq w w' \<Longrightarrow> sv_inv w \<Longrightarrow> sv_inv w'"
  using runs_inv_run sess_ok_run stops_inv_grows [OF _ sv_grows_run run_step_stops] by (metis sv_inv_def)

lemma sv_inv_stop: "stop_step w w' \<Longrightarrow> sv_inv w \<Longrightarrow> sv_inv w'"
  using runs_inv_stop sess_ok_stop stop_step_ok by (metis sv_inv_def)

lemma sv_inv_sess: "sess_step w w' \<Longrightarrow> sv_inv w \<Longrightarrow> sv_inv w'"
  using runs_inv_sess sess_ok_sess stops_inv_grows [OF _ sv_grows_sess sess_step_stops] by (metis sv_inv_def)

lemma sv_inv_reach: "sv_reach seq w \<Longrightarrow> sv_inv w"
proof (induction rule: sv_reach.induct)
  case sv_start
  then show ?case
    by (simp add: sv_inv_def sv_init_def runs_inv_def runs_inv_defs stops_inv_def sess_ok_def at_pc_def sess_at_def)
qed (blast intro: sv_inv_run sv_inv_stop sv_inv_sess)+

end
