(* ===== verification/Session_Lifecycle.thy ===== *)
theory Session_Lifecycle
  imports Server_Runs Session_Liveness
begin

text \<open>
  The sessions of \<open>Server_Runs\<close>, which only run, take themselves off the map and close \<^verbatim>\<open>done\<close>, are an
  abstraction of the sessions of \<open>Session\<close>: every run of a session's goroutines is, seen from the server,
  a run of \<open>sess_step\<close> for its number.
\<close>

fun life :: "sup_pc \<Rightarrow> sess_state" where
  "life Sup_wait = Se_running"
| "life Sup_close = Se_running"
| "life Sup_remove = Se_running"
| "life Sup_finish = Se_removed"
| "life Sup_done = Se_done"

text \<open>The world \<open>w'\<close> is \<open>w\<close> with session \<open>k\<close> as far as \<open>rt\<close>.\<close>

definition lived :: "nat \<Rightarrow> sv_world \<Rightarrow> s_event list \<Rightarrow> runtime \<Rightarrow> sv_world \<Rightarrow> bool" where
  "lived k w tr rt w' \<longleftrightarrow>
     sess_step\<^sup>*\<^sup>* w w' \<and> sess_at w' k (life (rt_sup rt)) \<and>
     sv_sessions (sw_server w') = (if Removed \<in> set tr then sv_sessions (sw_server w) - {k} else sv_sessions (sw_server w)) \<and>
     (\<forall>j. j \<noteq> k \<longrightarrow> sw_sess w' ! j = sw_sess w ! j) \<and>
     (Removed \<in> set tr \<longleftrightarrow> rt_sup rt \<in> {Sup_finish, Sup_done}) \<and> (Done_closed \<in> set tr \<longleftrightarrow> rt_sup rt = Sup_done)"

definition life_inv :: "nat \<Rightarrow> sv_world \<Rightarrow> s_event list \<Rightarrow> runtime \<Rightarrow> bool" where
  "life_inv k w tr rt \<longleftrightarrow> (\<exists>w'. lived k w tr rt w')"

text \<open>Steps of which the server notices nothing.\<close>

definition unnoticed :: "runtime \<Rightarrow> s_event list \<Rightarrow> runtime \<Rightarrow> bool" where
  "unnoticed rt ev rt' \<longleftrightarrow> rt_sup rt' = rt_sup rt \<and> Removed \<notin> set ev \<and> Done_closed \<notin> set ev"

lemma goroutines_unnoticed:
  "read_step rt ev rt' \<Longrightarrow> unnoticed rt ev rt'" "write_step rt ev rt' \<Longrightarrow> unnoticed rt ev rt'"
  "hand_step rt ev rt' \<Longrightarrow> unnoticed rt ev rt'" "caller_step rt ev rt' \<Longrightarrow> unnoticed rt ev rt'"
  by (auto simp: unnoticed_def session_ops elim!: read_step.cases write_step.cases hand_step.cases caller_step.cases)

lemma lived_unnoticed: "unnoticed rt ev rt' \<Longrightarrow> life_inv k w tr rt \<Longrightarrow> life_inv k w (tr @ ev) rt'"
  by (simp add: life_inv_def lived_def unnoticed_def)

lemma sess_at_set: "sess_at w k st \<Longrightarrow> sess_at (set_sess k st' w) k st'"
  by (simp add: sess_at_def set_sess_def)

lemma lived_sup:
  assumes "sup_step rt ev rt'" and "life_inv k w tr rt"
  shows "life_inv k w (tr @ ev) rt'"
proof -
  obtain w' where w': "lived k w tr rt w'" using assms(2) by (auto simp: life_inv_def)
  show ?thesis
    using assms(1)
  proof (cases rule: sup_step.cases)
    case joined
    with w' show ?thesis by (auto simp: life_inv_def lived_def)
  next
    case (close_conn s cs)
    with w' show ?thesis by (auto simp: life_inv_def lived_def image_iff)
  next
    case on_remove
    let ?w = "set_sess k Se_removed (on_server (\<lambda>sv. sv\<lparr>sv_sessions := sv_sessions sv - {k}\<rparr>) w')"
    have at: "sess_at w' k Se_running" using w' on_remove by (simp add: lived_def)
    then have "sess_step\<^sup>*\<^sup>* w ?w" 
      using w' sess_step.remove [OF at] unfolding lived_def by (blast intro: rtranclp.rtrancl_into_rtrancl)
    moreover have "sess_at ?w k Se_removed"
      using at by (intro sess_at_set [where st = Se_running]) (simp add: sess_at_def on_server_def)
    ultimately have "lived k w (tr @ ev) rt' ?w"
      using w' on_remove by (auto simp: lived_def set_sess_def on_server_def)
    then show ?thesis by (auto simp: life_inv_def)
  next
    case finish
    let ?w = "set_sess k Se_done w'"
    have at: "sess_at w' k Se_removed" using w' finish by (simp add: lived_def)
    then have "sess_step\<^sup>*\<^sup>* w ?w" 
      using w' sess_step.finished [OF at] unfolding lived_def by (blast intro: rtranclp.rtrancl_into_rtrancl)
    then have "lived k w (tr @ ev) rt' ?w"
      using w' finish sess_at_set [OF at, of Se_done] by (auto simp: lived_def set_sess_def on_session_def)
    then show ?thesis by (auto simp: life_inv_def)
  qed
qed

interpretation living: session_invariant "life_inv k w" for k w
  by unfold_locales (auto intro: lived_unnoticed goroutines_unnoticed lived_sup)

section \<open>Properties\<close>

text \<open>
  C13: A session implements what the model of the server assumes of it: whatever its goroutines and callers
  do, the server sees it run, then take itself (and nothing else) off the map, then close \<^verbatim>\<open>done\<close>, each
  once and in this order; a stopped session whose goroutines can do no more has closed \<^verbatim>\<open>done\<close>.
\<close>

theorem session_refines_lifecycle:
  assumes "s_run (StartLoops s deps wr shared) n tr rt" and "sess_at w k Se_running"
  shows "\<exists>w'. sess_step\<^sup>*\<^sup>* w w' \<and> sess_at w' k (life (rt_sup rt)) \<and>
    sv_sessions (sw_server w') =
      (if Removed \<in> set tr then sv_sessions (sw_server w) - {k} else sv_sessions (sw_server w)) \<and>
    (\<forall>j. j \<noteq> k \<longrightarrow> sw_sess w' ! j = sw_sess w ! j) \<and> (Done_closed \<in> set tr \<longleftrightarrow> sess_at w' k Se_done) \<and>
    (stopped rt \<and> s_stuck rt \<longrightarrow> sess_at w' k Se_done)"
proof -
  have "life_inv k w [] (StartLoops s deps wr shared)"
    using assms(2) by (auto simp: life_inv_def lived_def StartLoops_def)
  then obtain w' where w': "lived k w tr rt w'" using living.always [OF assms(1)] by (auto simp: life_inv_def)
  have "sess_at w' k Se_done \<longleftrightarrow> rt_sup rt = Sup_done"
    using w' by (cases "rt_sup rt") (auto simp: lived_def sess_at_def)
  then show ?thesis
    using w' s_stuck_sup [of rt] by (intro exI [of _ w']) (auto simp: lived_def)
qed

theorem session_refines_lifecycle_witness:
  "\<exists>n tr rt w w'. s_run sample_runtime n tr rt \<and> sv_sessions (sw_server w) = {0, 1} \<and> sess_step\<^sup>*\<^sup>* w w' \<and>
    sess_at w' 1 Se_done \<and> sv_sessions (sw_server w') = {0}"
proof -
  let ?cs = "[Go_read Null, Go_read Null, Go_read Null, Go_read Null, Go_read_fails, Go_read Null,
    Go_write, Go_write, Go_sup, Go_sup, Go_sup, Go_sup]"
  let ?w = "sv_init\<lparr>sw_server := (sw_server sv_init)\<lparr>sv_sessions := {0, 1}\<rparr>,
    sw_sess := [(Se_running, None), (Se_running, None)]\<rparr>"
  obtain tr rt where play: "s_play ?cs sample_runtime = Some (tr, rt)" "Removed \<in> set tr" "Done_closed \<in> set tr"
    by (simp add: play_simps)
  then have run: "s_run sample_runtime (length ?cs) tr rt" using s_play_init by blast
  have "sess_at ?w 1 Se_running" by (simp add: sess_at_def)
  from session_refines_lifecycle [OF run [unfolded sample_runtime_def] this] play(2,3)
  obtain w' where "sess_step\<^sup>*\<^sup>* ?w w'" "sess_at w' 1 Se_done" "sv_sessions (sw_server w') = {0, 1} - {1}" by auto
  moreover have "{0, 1} - {1} = {0::nat}" by auto
  ultimately show ?thesis using run
    by (intro exI [of _ "length ?cs"] exI [of _ tr] exI [of _ rt] exI [of _ ?w] exI [of _ w']) simp
qed

end
