(* ===== verification/Pub_Sub_Runs.thy ===== *)
theory Pub_Sub_Runs
  imports Pub_Sub_Table
begin

text \<open>
  Overlapping operations of \<^verbatim>\<open>PubSub\<close>. An operation first works on the registry under its lock and then,
  with that lock released, sends values to clients, holding the mutex of a client from the first
  call on its connection to the flush. Every running operation is a job; \<open>ps_step\<close> interleaves the jobs,
  one call on a connection at a time, and any call may fail. Lemmas: what is sent through one client
  object is a sequence of whole values, so connections that are never unsubscribed see no torn
  message; after an unsubscribe a connection can have two client objects, and then they do.
\<close>

section \<open>Jobs and steps\<close>

fun call_register :: "ps_call \<Rightarrow> pubsub \<Rightarrow> ((client \<times> rvalue) option \<times> pubsub) go" where
  "call_register (Call_subscribe c v) ps =
     (case subscribe_register False c v ps of
        Inl p \<Rightarrow> Inl p
      | Inr (cl, n, ps') \<Rightarrow> Inr (Some (cl, buildSubscribeAckValue ''subscribe'' v n), ps'))"
| "call_register (Call_psubscribe c v) ps =
     (case subscribe_register True c v ps of
        Inl p \<Rightarrow> Inl p
      | Inr (cl, n, ps') \<Rightarrow> Inr (Some (cl, buildSubscribeAckValue ''psubscribe'' v n), ps'))"
| "call_register (Call_unsubscribe c v) ps =
     (case unsubscribe_register False c v ps of
        (None, ps') \<Rightarrow> Inr (None, ps')
      | (Some (cl, n), ps') \<Rightarrow> Inr (Some (cl, buildSubscribeAckValue ''unsubscribe'' v n), ps'))"
| "call_register (Call_punsubscribe c v) ps =
     (case unsubscribe_register True c v ps of
        (None, ps') \<Rightarrow> Inr (None, ps')
      | (Some (cl, n), ps') \<Rightarrow> Inr (Some (cl, buildSubscribeAckValue ''punsubscribe'' v n), ps'))"

text \<open>Run without interruption, the two phases are the operation.\<close>

lemma ps_perform_phases:
  "ps_perform api call ps w =
    (case call_register call ps of
       Inl p \<Rightarrow> Inl p
     | Inr (None, ps') \<Rightarrow> Inr (ps', w, None)
     | Inr (Some (cl, v), ps') \<Rightarrow> Inr (ps', write_and_flush api cl v w))"
  by (cases call)
    (auto simp: Subscribe_def PSubscribe_def Unsubscribe_def PUnsubscribe_def unsubscribe_def Let_def
      split: sum.split prod.split option.split)

text \<open>
  A job: the client it has locked, with the calls still to make on its connection, and what is to be
  sent after that.
\<close>

record job =
  jb_locked :: "(client \<times> conn_call list) option"
  jb_rest :: "(client \<times> rvalue) list"

record ps_world =
  pw_ps :: pubsub
  pw_jobs :: "job list"
  pw_log :: "(client \<times> conn_call \<times> bool) list"

definition idle :: "(client \<times> rvalue) list \<Rightarrow> job" where
  "idle cvs = \<lparr>jb_locked = None, jb_rest = cvs\<rparr>"

definition holding :: "client \<Rightarrow> conn_call list \<Rightarrow> (client \<times> rvalue) list \<Rightarrow> job" where
  "holding cl calls cvs = \<lparr>jb_locked = Some (cl, calls), jb_rest = cvs\<rparr>"

definition held :: "job list \<Rightarrow> (nat \<times> conn_call list) list" where
  "held js = concat (map (\<lambda>j. case jb_locked j of
     None \<Rightarrow> [] | Some (cl, calls) \<Rightarrow> [(client_ptr cl, calls)]) js)"

definition locks :: "job list \<Rightarrow> nat list" where
  "locks js = map fst (held js)"

definition holder_of :: "job list \<Rightarrow> nat \<rightharpoonup> conn_call list" where
  "holder_of js = map_of (held js)"

text \<open>The client mutex is free when no job holds it. A failed call ends the job.\<close>

inductive ps_step :: "(ps_call \<Rightarrow> bool) \<Rightarrow> ps_world \<Rightarrow> ps_world \<Rightarrow> bool" for allowed and pw where
  call_ack: "allowed call \<Longrightarrow> call_register call (pw_ps pw) = Inr (Some cv, ps') \<Longrightarrow>
    ps_step allowed pw (pw\<lparr>pw_ps := ps', pw_jobs := pw_jobs pw @ [idle [cv]]\<rparr>)"
| call_silent: "allowed call \<Longrightarrow> call_register call (pw_ps pw) = Inr (None, ps') \<Longrightarrow>
    ps_step allowed pw (pw\<lparr>pw_ps := ps'\<rparr>)"
| publish: "is_iteration (pw_ps pw) order \<Longrightarrow>
    ps_step allowed pw (pw\<lparr>pw_jobs := pw_jobs pw @
      [idle (map (\<lambda>en. (en_client en, entry_message channel message en))
        (publish_matches pm channel order))]\<rparr>)"
| lock: "pw_jobs pw = js @ idle ((cl, v) # cvs) # js' \<Longrightarrow> client_ptr cl \<notin> set (locks (pw_jobs pw)) \<Longrightarrow>
    ps_step allowed pw (pw\<lparr>pw_jobs := js @ holding cl (frame v) cvs # js'\<rparr>)"
| perform_ok: "pw_jobs pw = js @ holding cl (call # calls) cvs # js' \<Longrightarrow>
    ps_step allowed pw (pw\<lparr>pw_jobs := js @ holding cl calls cvs # js', pw_log := pw_log pw @ [(cl, call, True)]\<rparr>)"
| perform_err: "pw_jobs pw = js @ holding cl (call # calls) cvs # js' \<Longrightarrow>
    ps_step allowed pw (pw\<lparr>pw_jobs := js @ idle [] # js', pw_log := pw_log pw @ [(cl, call, False)]\<rparr>)"
| unlock: "pw_jobs pw = js @ holding cl [] cvs # js' \<Longrightarrow>
    ps_step allowed pw (pw\<lparr>pw_jobs := js @ idle cvs # js'\<rparr>)"

definition ps_start :: ps_world where
  "ps_start = \<lparr>pw_ps = NewPubSub, pw_jobs = [], pw_log = []\<rparr>"

inductive ps_reach :: "(ps_call \<Rightarrow> bool) \<Rightarrow> ps_world \<Rightarrow> bool" for allowed where
  reach_start: "ps_reach allowed ps_start"
| reach_step: "ps_reach allowed pw \<Longrightarrow> ps_step allowed pw pw' \<Longrightarrow> ps_reach allowed pw'"

section \<open>Whole messages\<close>

definition is_message :: "rvalue \<Rightarrow> bool" where
  "is_message v \<longleftrightarrow>
     (\<exists>kind x n. v = buildSubscribeAckValue kind x n) \<or> (\<exists>x m. v = buildPublishMessageValue x m) \<or>
     (\<exists>p x m. v = buildPatternMessageValue p x m)"

definition sent_ok :: "conn_call list \<Rightarrow> (conn_call \<times> bool) list" where
  "sent_ok calls = map (\<lambda>call. (call, True)) calls"

text \<open>The calls of one value: all of them, or those up to one that failed.\<close>

definition one_message :: "(conn_call \<times> bool) list \<Rightarrow> bool" where
  "one_message f \<longleftrightarrow> (\<exists>v. is_message v \<and>
     (f = sent_ok (frame v) \<or>
      (\<exists>before call after. frame v = before @ call # after \<and> f = sent_ok before @ [(call, False)])))"

definition whole_messages :: "(conn_call \<times> bool) list \<Rightarrow> bool" where
  "whole_messages xs \<longleftrightarrow> (\<exists>fs. xs = concat fs \<and> (\<forall>f \<in> set fs. one_message f))"

text \<open>Whole messages, and the calls made so far of one more.\<close>

definition messages_so_far :: "(conn_call \<times> bool) list \<Rightarrow> bool" where
  "messages_so_far xs \<longleftrightarrow> (\<exists>ys before after v. whole_messages ys \<and> is_message v \<and>
     frame v = before @ after \<and> xs = ys @ sent_ok before)"

lemma whole_messages_Nil [simp]: "whole_messages []"
  by (auto simp: whole_messages_def intro: exI [of _ "[]"])

lemma whole_messages_snoc:
  assumes "whole_messages xs" and "one_message f"
  shows "whole_messages (xs @ f)"
proof -
  obtain fs where "xs = concat fs" "\<forall>f \<in> set fs. one_message f"
    using assms(1) by (auto simp: whole_messages_def)
  with assms(2) show ?thesis by (auto simp: whole_messages_def intro!: exI [of _ "fs @ [f]"])
qed

definition calls_of :: "nat \<Rightarrow> ps_world \<Rightarrow> (conn_call \<times> bool) list" where
  "calls_of ptr pw = map snd (filter (\<lambda>(cl, _). client_ptr cl = ptr) (pw_log pw))"

definition conn_calls :: "conn_id \<Rightarrow> ps_world \<Rightarrow> (conn_call \<times> bool) list" where
  "conn_calls c pw = map snd (filter (\<lambda>(cl, _). client_conn cl = c) (pw_log pw))"

text \<open>The invariant: what has gone through a client object, by what the holder of its mutex has still to do.\<close>

definition client_ok :: "(conn_call \<times> bool) list \<Rightarrow> conn_call list option \<Rightarrow> bool" where
  "client_ok xs holder \<longleftrightarrow>
     (case holder of
        None \<Rightarrow> whole_messages xs
      | Some calls \<Rightarrow> (\<exists>ys before v. whole_messages ys \<and> is_message v \<and> frame v = before @ calls \<and>
          xs = ys @ sent_ok before))"

definition pw_inv :: "ps_world \<Rightarrow> bool" where
  "pw_inv pw \<longleftrightarrow> distinct (locks (pw_jobs pw)) \<and>
     (\<forall>ptr. client_ok (calls_of ptr pw) (holder_of (pw_jobs pw) ptr)) \<and>
     (\<forall>j \<in> set (pw_jobs pw). \<forall>(cl, v) \<in> set (jb_rest j). is_message v)"

lemma held_simps [simp]:
  "held [] = []" "held (idle cvs # js) = held js"
  "held (holding cl calls cvs # js) = (client_ptr cl, calls) # held js" "held (js @ js') = held js @ held js'"
  by (simp_all add: held_def idle_def holding_def)

lemma jb_rest_simps [simp]: "jb_rest (idle cvs) = cvs" "jb_rest (holding cl calls cvs) = cvs"
  by (simp_all add: idle_def holding_def)

lemma locks_simps [simp]:
  "locks [] = []" "locks (idle cvs # js) = locks js" "locks (js @ js') = locks js @ locks js'"
  "locks (holding cl calls cvs # js) = client_ptr cl # locks js"
  by (simp_all add: locks_def)

lemma holder_of_Nil [simp]: "holder_of [] ptr = None"
  by (simp add: holder_of_def)

lemma holder_of_idle [simp]: "holder_of (js @ idle cvs # js') = holder_of (js @ js')"
  by (simp add: holder_of_def)

lemma holder_of_snoc [simp]: "holder_of (js @ [idle cvs]) = holder_of js"
  by (simp add: holder_of_def)

lemma holder_of_holding:
  assumes "client_ptr cl \<notin> set (locks js)"
  shows "holder_of (js @ holding cl calls cvs # js') = (holder_of (js @ js'))(client_ptr cl \<mapsto> calls)"
proof -
  have "map_of (xs @ (k, v) # ys) = (map_of (xs @ ys))(k \<mapsto> v)" if "k \<notin> fst ` set xs"
    for xs ys :: "(nat \<times> conn_call list) list" and k v
    using that by (induction xs) (auto simp: fun_eq_iff)
  with assms show ?thesis by (simp add: holder_of_def locks_def del: map_of_append)
qed

lemma holder_of_None: "ptr \<notin> set (locks js) \<Longrightarrow> holder_of js ptr = None"
  by (simp add: holder_of_def locks_def map_of_eq_None_iff)

lemma client_ok_steps:
  "client_ok xs None \<Longrightarrow> is_message v \<Longrightarrow> client_ok xs (Some (frame v))"
  "client_ok xs (Some (call # calls)) \<Longrightarrow> client_ok (xs @ [(call, True)]) (Some calls)"
  "client_ok xs (Some (call # calls)) \<Longrightarrow> client_ok (xs @ [(call, False)]) None"
  "client_ok xs (Some []) \<Longrightarrow> client_ok xs None"
proof -
  show "client_ok xs None \<Longrightarrow> is_message v \<Longrightarrow> client_ok xs (Some (frame v))"
    unfolding client_ok_def by (simp add: sent_ok_def) (metis append_Nil append_Nil2 map_is_Nil_conv)
next
  assume "client_ok xs (Some (call # calls))"
  then obtain ys before v where st: "whole_messages ys" "is_message v" "frame v = before @ call # calls"
      "xs = ys @ sent_ok before"
    by (auto simp: client_ok_def)
  from st show "client_ok (xs @ [(call, True)]) (Some calls)"
    by (auto simp: client_ok_def sent_ok_def intro!: exI [of _ ys] exI [of _ "before @ [call]"])
  have "one_message (sent_ok before @ [(call, False)])"
    using st by (auto simp: one_message_def)
  with st(1,4) show "client_ok (xs @ [(call, False)]) None"
    by (simp add: client_ok_def whole_messages_snoc)
next
  assume "client_ok xs (Some [])"
  then obtain ys v where "whole_messages ys" "is_message v" "xs = ys @ sent_ok (frame v)"
    by (auto simp: client_ok_def)
  moreover from this(2) have "one_message (sent_ok (frame v))" by (auto simp: one_message_def)
  ultimately show "client_ok xs None" by (simp add: client_ok_def whole_messages_snoc)
qed

lemma is_message_intros [simp]:
  "is_message (buildSubscribeAckValue kind x n)" "is_message (buildPublishMessageValue x m)"
  "is_message (buildPatternMessageValue p x m)"
  unfolding is_message_def by blast+

lemma call_register_message: "call_register call ps = Inr (Some (cl, v), ps') \<Longrightarrow> is_message v"
  by (cases call) (auto split: sum.splits prod.splits option.splits)

lemma entry_message_is_message: "is_message (entry_message channel message en)"
  by (simp add: entry_message_def)

lemma pw_inv_start: "pw_inv ps_start"
  by (simp add: pw_inv_def ps_start_def calls_of_def client_ok_def)

lemma calls_of_log [simp]:
  "calls_of ptr (pw\<lparr>pw_jobs := js\<rparr>) = calls_of ptr pw"
  "calls_of ptr (pw\<lparr>pw_ps := ps\<rparr>) = calls_of ptr pw"
  "calls_of ptr (pw\<lparr>pw_log := pw_log pw @ [(cl, x)]\<rparr>) =
    calls_of ptr pw @ (if client_ptr cl = ptr then [x] else [])"
  "calls_of ptr (pw\<lparr>pw_jobs := js, pw_log := pw_log pw @ [(cl, x)]\<rparr>) =
    calls_of ptr pw @ (if client_ptr cl = ptr then [x] else [])"
  "calls_of ptr (pw\<lparr>pw_ps := ps, pw_jobs := js\<rparr>) = calls_of ptr pw"
  by (simp_all add: calls_of_def)

lemma all_clients_split:
  "(\<forall>ptr. client_ok (xs ptr) (if ptr = p then h else f ptr)) \<longleftrightarrow>
    client_ok (xs p) h \<and> (\<forall>ptr. ptr \<noteq> p \<longrightarrow> client_ok (xs ptr) (f ptr))"
  by auto

lemma pw_inv_step: "ps_step allowed pw pw' \<Longrightarrow> pw_inv pw \<Longrightarrow> pw_inv pw'"
proof (induction rule: ps_step.induct)
  case (call_ack call cv ps')
  then show ?case
    using call_register_message [of call "pw_ps pw" "fst cv" "snd cv" ps']
    by (auto simp: pw_inv_def)
next
  case (call_silent call ps')
  then show ?case by (simp add: pw_inv_def)
next
  case (publish order channel message pm)
  then show ?case by (auto simp: pw_inv_def entry_message_is_message)
next
  case (lock js cl v cvs js')
  then show ?case
    using client_ok_steps(1) [of "calls_of (client_ptr cl) pw" v]
      holder_of_None [of "client_ptr cl" "js @ js'"]
    by (auto simp: pw_inv_def holder_of_holding) (metis holder_of_None)
next
  case (perform_ok js cl call calls cvs js')
  then show ?case
    using client_ok_steps(2) [of "calls_of (client_ptr cl) pw" call calls]
    by (auto simp: pw_inv_def holder_of_holding all_clients_split)
next
  case (perform_err js cl call calls cvs js')
  then show ?case
    using client_ok_steps(3) [of "calls_of (client_ptr cl) pw" call calls]
      holder_of_None [of "client_ptr cl" "js @ js'"]
    by (auto simp: pw_inv_def holder_of_holding all_clients_split)
next
  case (unlock js cl cvs js')
  then show ?case
    using client_ok_steps(4) [of "calls_of (client_ptr cl) pw"]
      holder_of_None [of "client_ptr cl" "js @ js'"]
    by (auto simp: pw_inv_def holder_of_holding all_clients_split) metis
qed

lemma pw_inv_reach: "ps_reach allowed pw \<Longrightarrow> pw_inv pw"
  by (induction rule: ps_reach.induct) (auto intro: pw_inv_start pw_inv_step)

section \<open>Connections that are never unsubscribed\<close>

definition only_subscribes :: "ps_call \<Rightarrow> bool" where
  "only_subscribes call \<longleftrightarrow> is_subscribe call"

text \<open>All client objects in use are the registered ones.\<close>

definition registered :: "ps_world \<Rightarrow> client \<Rightarrow> bool" where
  "registered pw cl \<longleftrightarrow> ps_clients (pw_ps pw) (client_conn cl) = Some cl"

definition pw_single :: "ps_world \<Rightarrow> bool" where
  "pw_single pw \<longleftrightarrow> ps_inv (pw_ps pw) \<and>
     (\<forall>j \<in> set (pw_jobs pw). (\<forall>(cl, v) \<in> set (jb_rest j). registered pw cl) \<and>
        (\<forall>cl calls. jb_locked j = Some (cl, calls) \<longrightarrow> registered pw cl)) \<and>
     (\<forall>(cl, x) \<in> set (pw_log pw). registered pw cl)"

lemma subscribe_register_keeps:
  assumes "ps_inv ps" and "subscribe_register pat c v ps = Inr (cl, n, ps')"
  shows "ps_clients ps' = (ps_clients ps)(c \<mapsto> cl) \<and> (ps_clients ps c = None \<or> ps_clients ps c = Some cl) \<and>
    client_conn cl = c \<and> ps_inv ps'"
proof -
  obtain ps1 where ens: "ensureClient c ps = (cl, ps1)" and ps': "ps_clients ps' = ps_clients ps1"
    using assms(2) by (auto simp: subscribe_register_def Let_def split: prod.splits option.splits)
  have "ps_clients ps c = None \<or> ps_clients ps c = Some cl"
    using ens by (auto simp: ensureClient_def Let_def split: option.splits)
  moreover have "ps_inv ps'" using subscribe_register_spec [OF assms(1), of pat c v] assms(2) by auto
  ultimately show ?thesis using ensureClient_spec [OF assms(1) ens] ps' by simp
qed

lemma call_register_keeps:
  assumes "ps_inv ps" and "only_subscribes call" and "call_register call ps = Inr (r, ps')"
  shows "\<exists>cl v. r = Some (cl, v) \<and> ps_clients ps' (client_conn cl) = Some cl \<and> ps_inv ps' \<and>
    (\<forall>c cl'. ps_clients ps c = Some cl' \<longrightarrow> ps_clients ps' c = Some cl')"
  using assms(2,3) subscribe_register_keeps [OF assms(1)]
  by (cases call) (fastforce simp: only_subscribes_def is_subscribe_def split: sum.splits)+

lemma pw_single_step: "ps_step only_subscribes pw pw' \<Longrightarrow> pw_single pw \<Longrightarrow> pw_single pw'"
proof (induction rule: ps_step.induct)
  case (call_ack call cv ps')
  then obtain cl v where "cv = (cl, v)" "ps_clients ps' (client_conn cl) = Some cl" "ps_inv ps'"
      "\<And>c cl'. ps_clients (pw_ps pw) c = Some cl' \<Longrightarrow> ps_clients ps' c = Some cl'"
    using call_register_keeps [of "pw_ps pw" call "Some cv" ps'] by (auto simp: pw_single_def)
  with call_ack.prems show ?case
    by (fastforce simp: pw_single_def registered_def idle_def)
next
  case (call_silent call ps')
  then show ?case using call_register_keeps [of "pw_ps pw" call None ps'] by (auto simp: pw_single_def)
next
  case (publish order channel message pm)
  have "registered pw (en_client en)" if "en \<in> set (publish_matches pm channel order)" for en
  proof -
    from that obtain c es where "(c, es) \<in> set order" "en \<in> set es" by (auto simp: publish_matches_def)
    then obtain es' where "ps_entries (pw_ps pw) c = Some es'" "en \<in> set es'"
      using iteration_entries(1) [OF publish(1)] by (metis mset_eq_setD)
    then show ?thesis
      using publish.prems ps_inv_entries [of "pw_ps pw" c es'] ps_inv_client [of "pw_ps pw" c "en_client en"]
      by (simp add: pw_single_def registered_def)
  qed
  with publish.prems show ?case by (auto simp: pw_single_def registered_def idle_def)
qed (auto simp: pw_single_def registered_def idle_def holding_def)

lemma pw_single_reach: "ps_reach only_subscribes pw \<Longrightarrow> pw_single pw"
proof (induction rule: ps_reach.induct)
  case reach_start
  then show ?case by (simp add: pw_single_def ps_start_def)
qed (rule pw_single_step)

lemma conn_calls_client:
  assumes "pw_single pw" and "registered pw cl"
  shows "conn_calls (client_conn cl) pw = calls_of (client_ptr cl) pw"
proof -
  have "client_conn cl' = client_conn cl \<longleftrightarrow> client_ptr cl' = client_ptr cl" if "(cl', x) \<in> set (pw_log pw)" for cl' x
  proof -
    have reg: "registered pw cl'" using assms(1) that by (auto simp: pw_single_def)
    have "ps_inv (pw_ps pw)" using assms(1) by (simp add: pw_single_def)
    with reg assms(2) show ?thesis unfolding registered_def by (metis option.inject ps_inv_ptr)
  qed
  then have "filter (\<lambda>(cl', x). client_conn cl' = client_conn cl) (pw_log pw) =
      filter (\<lambda>(cl', x). client_ptr cl' = client_ptr cl) (pw_log pw)"
    by (intro filter_cong) auto
  then show ?thesis by (simp add: conn_calls_def calls_of_def)
qed

lemma client_ok_messages: "client_ok xs holder \<Longrightarrow> messages_so_far xs"
proof -
  have "messages_so_far xs" if "whole_messages xs"
    unfolding messages_so_far_def
    using that by (intro exI [of _ xs] exI [of _ "[]"] exI [of _ "frame (buildPublishMessageValue [] [])"]
        exI [of _ "buildPublishMessageValue [] []"]) (simp add: sent_ok_def)
  then show "client_ok xs holder \<Longrightarrow> messages_so_far xs"
    by (cases holder) (auto simp: client_ok_def messages_so_far_def)
qed

section \<open>A run with an unsubscribe\<close>

definition torn_old :: client where "torn_old = Client 0 7"
definition torn_new :: client where "torn_new = Client 1 7"

definition torn_entry :: "client \<Rightarrow> pubsub" where
  "torn_entry cl = \<lparr>ps_clients = [7 \<mapsto> cl],
     ps_entries = [7 \<mapsto> [\<lparr>en_pattern = False, en_value = ''a'', en_client = cl\<rparr>]], ps_next = Suc (client_ptr cl)\<rparr>"

lemma torn_calls:
  "call_register (Call_subscribe 7 ''a'') NewPubSub =
    Inr (Some (torn_old, buildSubscribeAckValue ''subscribe'' ''a'' 1), torn_entry torn_old)"
  "call_register (Call_unsubscribe 7 ''a'') (torn_entry torn_old) =
    Inr (Some (torn_old, buildSubscribeAckValue ''unsubscribe'' ''a'' 0), NewPubSub\<lparr>ps_next := 1\<rparr>)"
  "call_register (Call_subscribe 7 ''a'') (NewPubSub\<lparr>ps_next := 1\<rparr>) =
    Inr (Some (torn_new, buildSubscribeAckValue ''subscribe'' ''a'' 1), torn_entry torn_new)"
  by (simp_all add: subscribe_register_def unsubscribe_register_def ensureClient_def NewPubSub_def
      torn_old_def torn_new_def torn_entry_def Let_def)

lemma frame_of_ack:
  "frame (buildSubscribeAckValue kind x n) =
    [WriteArray 3, WriteBulk kind, WriteBulk x, WriteInt (word_of_nat n), FlushConn]"
  by (simp add: frame_def buildSubscribeAckValue_def value_constructors)

lemma frame_of_message: "is_message v \<Longrightarrow> \<exists>n x calls. frame v = WriteArray n # WriteBulk x # calls"
  by (auto simp: is_message_def frame_def buildSubscribeAckValue_def buildPublishMessageValue_def
      buildPatternMessageValue_def value_constructors)

lemma one_message_start:
  assumes "one_message f"
  shows "\<exists>n x b rest. f = (WriteArray n, False) # rest \<or> f = (WriteArray n, True) # (WriteBulk x, b) # rest"
proof -
  obtain v where v: "is_message v" "f = sent_ok (frame v) \<or>
      (\<exists>before call after. frame v = before @ call # after \<and> f = sent_ok before @ [(call, False)])"
    using assms by (auto simp: one_message_def)
  obtain n x calls where fr: "frame v = WriteArray n # WriteBulk x # calls"
    using frame_of_message [OF v(1)] by blast
  from v(2) show ?thesis
  proof
    assume "f = sent_ok (frame v)"
    then show ?thesis by (auto simp: fr sent_ok_def)
  next
    assume "\<exists>before call after. frame v = before @ call # after \<and> f = sent_ok before @ [(call, False)]"
    then obtain before call after where "frame v = before @ call # after" "f = sent_ok before @ [(call, False)]"
      by blast
    with fr show ?thesis by (cases before; cases "tl before") (auto simp: sent_ok_def)
  qed
qed

lemma run_rules:
  "ps_reach al \<lparr>pw_ps = ps, pw_jobs = js, pw_log = l\<rparr> \<Longrightarrow> al call \<Longrightarrow> call_register call ps = Inr (Some cv, ps') \<Longrightarrow>
    ps_reach al \<lparr>pw_ps = ps', pw_jobs = js @ [idle [cv]], pw_log = l\<rparr>"
  "ps_reach al \<lparr>pw_ps = ps, pw_jobs = js @ idle ((cl, v) # cvs) # js', pw_log = l\<rparr> \<Longrightarrow>
    client_ptr cl \<notin> set (locks (js @ js')) \<Longrightarrow>
    ps_reach al \<lparr>pw_ps = ps, pw_jobs = js @ holding cl (frame v) cvs # js', pw_log = l\<rparr>"
  "ps_reach al \<lparr>pw_ps = ps, pw_jobs = js @ holding cl (c # calls) cvs # js', pw_log = l\<rparr> \<Longrightarrow>
    ps_reach al \<lparr>pw_ps = ps, pw_jobs = js @ holding cl calls cvs # js', pw_log = l @ [(cl, c, True)]\<rparr>"
proof -
  let ?pw = "\<lparr>pw_ps = ps, pw_jobs = js, pw_log = l\<rparr>"
  assume "ps_reach al ?pw" and "al call" and "call_register call ps = Inr (Some cv, ps')"
  then show "ps_reach al \<lparr>pw_ps = ps', pw_jobs = js @ [idle [cv]], pw_log = l\<rparr>"
    using reach_step [of al ?pw] ps_step.call_ack [of al call ?pw cv ps'] by simp
next
  let ?pw = "\<lparr>pw_ps = ps, pw_jobs = js @ idle ((cl, v) # cvs) # js', pw_log = l\<rparr>"
  assume "ps_reach al ?pw" and "client_ptr cl \<notin> set (locks (js @ js'))"
  then show "ps_reach al \<lparr>pw_ps = ps, pw_jobs = js @ holding cl (frame v) cvs # js', pw_log = l\<rparr>"
    using reach_step [of al ?pw] ps_step.lock [of ?pw js cl v cvs js' al] by simp
next
  let ?pw = "\<lparr>pw_ps = ps, pw_jobs = js @ holding cl (c # calls) cvs # js', pw_log = l\<rparr>"
  assume "ps_reach al ?pw"
  then show "ps_reach al
      \<lparr>pw_ps = ps, pw_jobs = js @ holding cl calls cvs # js', pw_log = l @ [(cl, c, True)]\<rparr>"
    using reach_step [of al ?pw] ps_step.perform_ok [of ?pw js cl c calls cvs js' al] by simp
qed

text \<open>Connection 7 subscribes, and the header of the acknowledgement is written.\<close>

lemma header_written:
  assumes "al (Call_subscribe 7 ''a'')"
  shows "ps_reach al \<lparr>pw_ps = torn_entry torn_old,
    pw_jobs = [holding torn_old [WriteBulk ''subscribe'', WriteBulk ''a'', WriteInt 1, FlushConn] []],
    pw_log = [(torn_old, WriteArray 3, True)]\<rparr>"
proof -
  let ?ack = "buildSubscribeAckValue ''subscribe'' ''a'' 1"
  let ?rest = "[WriteBulk ''subscribe'', WriteBulk ''a'', WriteInt 1, FlushConn]"
  note fr = frame_of_ack [of "''subscribe''" "''a''" 1, simplified]
  have "ps_reach al \<lparr>pw_ps = NewPubSub, pw_jobs = [], pw_log = []\<rparr>"
    using reach_start [of al] by (simp add: ps_start_def)
  then have "ps_reach al \<lparr>pw_ps = torn_entry torn_old, pw_jobs = [idle [(torn_old, ?ack)]], pw_log = []\<rparr>"
    using run_rules(1) [where al = al and js = "[]" and l = "[]", OF _ assms torn_calls(1)] by simp
  then have "ps_reach al \<lparr>pw_ps = torn_entry torn_old, pw_jobs = [holding torn_old (WriteArray 3 # ?rest) []], pw_log = []\<rparr>"
    using run_rules(2) [of al _ "[]" torn_old ?ack "[]" "[]" "[]"] fr by simp
  then show ?thesis using run_rules(3) [of al _ "[]" torn_old _ ?rest "[]" "[]" "[]"] by simp
qed

lemma two_headers_torn: "\<not> messages_so_far [(WriteArray n, True), (WriteArray m, True)]"
proof
  assume "messages_so_far [(WriteArray n, True), (WriteArray m, True)]"
  then obtain fs before after v where st: "\<forall>f \<in> set fs. one_message f" "is_message v" "frame v = before @ after"
      "concat fs @ sent_ok before = [(WriteArray n, True), (WriteArray m, True)]"
    by (auto simp: messages_so_far_def whole_messages_def)
  show False
  proof (cases fs)
    case Nil
    with st(4) have "sent_ok before = [(WriteArray n, True), (WriteArray m, True)]" by simp
    then have "before = [WriteArray n, WriteArray m]" by (auto simp: sent_ok_def map_eq_Cons_conv)
    with st(3) frame_of_message [OF st(2)] show False by auto
  next
    case (Cons f fs')
    with st(1) one_message_start [of f] st(4) show False by auto
  qed
qed

section \<open>Properties\<close>

text \<open>
  C12: However subscribe and publish calls overlap and whichever calls of a connection fail, each
  connection sees one message after another: every message is written whole, or up to the call that
  failed, before the next one starts.
\<close>

theorem messages_not_torn:
  assumes "ps_reach only_subscribes pw"
  shows "messages_so_far (conn_calls c pw)"
proof -
  note single = pw_single_reach [OF assms]
  show ?thesis
  proof (cases "\<exists>cl x. (cl, x) \<in> set (pw_log pw) \<and> client_conn cl = c")
    case True
    then obtain cl where cl: "registered pw cl" "client_conn cl = c"
      using single by (auto simp: pw_single_def)
    have "client_ok (calls_of (client_ptr cl) pw) (holder_of (pw_jobs pw) (client_ptr cl))"
      using pw_inv_reach [OF assms] by (simp add: pw_inv_def)
    then show ?thesis using conn_calls_client [OF single cl(1)] cl(2) client_ok_messages by simp
  next
    case False
    then have "conn_calls c pw = []" by (auto simp: conn_calls_def filter_empty_conv)
    then show ?thesis using client_ok_messages [of "[]" None] by (simp add: client_ok_def)
  qed
qed

text \<open>A connection in the middle of its first message, while a second subscribe waits for the mutex.\<close>

theorem messages_not_torn_witness:
  "\<exists>pw. ps_reach only_subscribes pw \<and> length (pw_jobs pw) = 2 \<and> conn_calls 7 pw = [(WriteArray 3, True)] \<and>
    messages_so_far (conn_calls 7 pw)"
proof -
  let ?call = "Call_subscribe 7 ''a''"
  let ?rest = "[WriteBulk ''subscribe'', WriteBulk ''a'', WriteInt 1, FlushConn]"
  let ?log = "[(torn_old, WriteArray 3, True)]" and ?jobs = "[holding torn_old ?rest []]"
  have al: "only_subscribes ?call" by (simp add: only_subscribes_def is_subscribe_def)
  have "ps_reach only_subscribes \<lparr>pw_ps = torn_entry torn_old, pw_jobs = ?jobs, pw_log = ?log\<rparr>"
    using al by (rule header_written)
  moreover obtain cv ps' where "call_register ?call (torn_entry torn_old) = Inr (Some cv, ps')"
    by (simp add: subscribe_register_def ensureClient_def torn_entry_def Let_def)
  ultimately have reach: "ps_reach only_subscribes \<lparr>pw_ps = ps', pw_jobs = ?jobs @ [idle [cv]], pw_log = ?log\<rparr>"
    (is "ps_reach _ ?pw")
    using al by (intro run_rules(1) [where al = only_subscribes and call = ?call])
  have "conn_calls 7 ?pw = [(WriteArray 3, True)]" by (simp add: conn_calls_def torn_old_def)
  moreover have "messages_so_far (conn_calls 7 ?pw)" by (rule messages_not_torn [OF reach])
  moreover have "length (pw_jobs ?pw) = 2" by simp
  ultimately show ?thesis using reach by blast
qed

text \<open>
  C40: With unsubscribe calls in between, messages of one connection can be torn: the connection gets a
  new client object with a mutex of its own while a message is still being written through the old one.
\<close>

theorem messages_torn_after_unsubscribe:
  "\<exists>pw. ps_reach (\<lambda>call. True) pw \<and> \<not> messages_so_far (conn_calls 7 pw)"
proof -
  let ?any = "\<lambda>call :: ps_call. True"
  let ?ack = "buildSubscribeAckValue ''subscribe'' ''a'' 1"
  let ?bye = "buildSubscribeAckValue ''unsubscribe'' ''a'' 0"
  let ?rest = "[WriteBulk ''subscribe'', WriteBulk ''a'', WriteInt 1, FlushConn]"
  let ?gone = "NewPubSub\<lparr>ps_next := 1\<rparr>"
  note fr = frame_of_ack [of "''subscribe''" "''a''" 1, simplified]
  let ?log = "[(torn_old, WriteArray 3, True)]" and ?old = "holding torn_old ?rest []"
  have "ps_reach ?any \<lparr>pw_ps = torn_entry torn_old, pw_jobs = [?old], pw_log = ?log\<rparr>"
    by (rule header_written) simp
  then have "ps_reach ?any \<lparr>pw_ps = ?gone, pw_jobs = [?old, idle [(torn_old, ?bye)]], pw_log = ?log\<rparr>"
    using run_rules(1) [where al = ?any and js = "[?old]" and l = ?log, OF _ TrueI torn_calls(2)] by simp
  then have "ps_reach ?any \<lparr>pw_ps = torn_entry torn_new,
      pw_jobs = [?old, idle [(torn_old, ?bye)], idle [(torn_new, ?ack)]], pw_log = ?log\<rparr>"
    using run_rules(1) [where al = ?any and js = "[?old, idle [(torn_old, ?bye)]]" and l = ?log, OF _ TrueI torn_calls(3)] by simp
  then have "ps_reach ?any \<lparr>pw_ps = torn_entry torn_new,
      pw_jobs = [?old, idle [(torn_old, ?bye)], holding torn_new (WriteArray 3 # ?rest) []], pw_log = ?log\<rparr>"
    using run_rules(2) [of ?any _ "[?old, idle [(torn_old, ?bye)]]" torn_new ?ack "[]" "[]" ?log] fr
    by (simp add: torn_old_def torn_new_def)
  then have "ps_reach ?any \<lparr>pw_ps = torn_entry torn_new,
      pw_jobs = [?old, idle [(torn_old, ?bye)], holding torn_new ?rest []],
      pw_log = [(torn_old, WriteArray 3, True), (torn_new, WriteArray 3, True)]\<rparr>" (is "ps_reach _ ?pw")
    using run_rules(3) [of ?any _ "[?old, idle [(torn_old, ?bye)]]" torn_new _ ?rest "[]" "[]" ?log] by simp
  moreover have "conn_calls 7 ?pw = [(WriteArray 3, True), (WriteArray 3, True)]"
    by (simp add: conn_calls_def torn_old_def torn_new_def)
  ultimately show ?thesis using two_headers_torn by metis
qed

end
