(* ===== verification/Server_Shutdown.thy ===== *)
theory Server_Shutdown
  imports Server_Runs
begin

text \<open>
  What \<^verbatim>\<open>Stop\<close> and \<^verbatim>\<open>Close\<close> of \<^verbatim>\<open>server.go\<close> guarantee: what has happened when they return, that they
  return, that a shutdown finds a running server when calls of \<^verbatim>\<open>Start\<close> do not overlap, and what goes
  wrong when they do.
\<close>

section \<open>What a returned shutdown has waited for\<close>

lemma stop_ok_at: "sv_inv w \<Longrightarrow> stop_at w j p \<Longrightarrow> stop_ok w p"
  by (auto simp: sv_inv_def stops_inv_def stop_at_def)

text \<open>
  C8: A shutdown that found the server started returns only after that \<^verbatim>\<open>Start\<close> has closed its listener,
  stopped its dispatcher and returned, and every session that was on the map when the shutdown began to
  walk through it is off the map and has closed its connection.
\<close>

theorem shutdown_complete:
  assumes "sv_reach seq w" and "stop_at w j (Sh_returned sd ks)"
  shows "\<exists>i. sd = Some i \<and> run_at w i Run_returned \<and> i \<in> sw_ln_closed w \<and> i \<in> sw_disp_stopped w \<and>
    (\<forall>k \<in> ks. sess_gone w k \<and> k \<notin> sv_sessions (sw_server w))"
proof -
  have inv: "sv_inv w" by (rule sv_inv_reach [OF assms(1)])
  then obtain i where i: "i \<in> sw_done_closed w" "sd = Some i" and ks: "\<forall>k \<in> ks. sess_gone w k"
    using stop_ok_at [OF _ assms(2)] by auto
  have run: "run_at w i Run_returned" using inv i by (auto simp: sv_inv_def runs_inv_def run_signalled_def)
  then have "i \<in> sw_ln_closed w \<and> i \<in> sw_disp_stopped w"
    using inv by (auto simp: sv_inv_def runs_inv_def run_closed_def run_drained_def run_at_def)
  moreover have "k \<notin> sv_sessions (sw_server w)" if "k \<in> ks" for k
    using inv ks that by (auto simp: sv_inv_def sess_ok_def sess_gone_def sess_at_unique)
  ultimately show ?thesis using i run ks by blast
qed

section \<open>The session map\<close>

text \<open>\<^verbatim>\<open>ActiveSessions\<close> counts the entries of the map, here of a map that nobody changes while it counts.\<close>

definition ActiveSessions :: "server \<Rightarrow> nat" where
  "ActiveSessions sv = card (sv_sessions sv)"

text \<open>
  C14: The keys on the map of sessions are exactly those of the sessions that have been stored and have
  not yet taken themselves off: a session is on the map from just before its loops are started until
  it ends, whatever the other sessions and calls do, and \<^verbatim>\<open>ActiveSessions\<close> is the number of these
  sessions. A session stands for its key: allocators give every session an ID of its own.
\<close>

theorem active_sessions_exact:
  assumes "sv_reach seq w"
  shows "sv_sessions (sw_server w) = {k. sess_at w k Se_stored \<or> sess_at w k Se_running} \<and>
    finite (sv_sessions (sw_server w)) \<and>
    ActiveSessions (sw_server w) = card {k. sess_at w k Se_stored \<or> sess_at w k Se_running}"
proof -
  have keys: "sv_sessions (sw_server w) = {k. sess_at w k Se_stored \<or> sess_at w k Se_running}"
    using sv_inv_reach [OF assms] by (auto simp: sv_inv_def sess_ok_def)
  also have "\<dots> \<subseteq> {..<length (sw_sess w)}" by (auto simp: sess_at_length)
  finally have "finite (sv_sessions (sw_server w))" by (rule finite_subset) simp
  with keys show ?thesis by (simp add: ActiveSessions_def)
qed

section \<open>A running server is found\<close>

definition stop_pending :: "sv_world \<Rightarrow> nat \<Rightarrow> bool" where
  "stop_pending w i \<longleftrightarrow> (\<exists>p \<in> set (sw_stops w). stop_run p = Some i \<and> (\<forall>sd ks. p \<noteq> Sh_returned sd ks))"

definition start_known :: "sv_world \<Rightarrow> nat \<Rightarrow> bool" where
  "start_known w i \<longleftrightarrow> sv_started (sw_server w) \<and> sv_listener (sw_server w) = Some i \<and> sv_serveDone (sw_server w) = Some i"

definition run_serving :: "run_pc \<Rightarrow> bool" where
  "run_serving r \<longleftrightarrow> \<not> run_over r \<and> r \<noteq> Run_cleaned"

definition active_runs :: "sv_world \<Rightarrow> nat set" where
  "active_runs w = {i. \<exists>r. run_at w i r \<and> \<not> run_over r}"

definition seq_inv :: "sv_world \<Rightarrow> bool" where
  "seq_inv w \<longleftrightarrow>
     (\<forall>i \<in> active_runs w. \<forall>i' \<in> active_runs w. i = i') \<and>
     (\<forall>i r. run_at w i r \<longrightarrow> run_serving r \<longrightarrow> start_known w i \<or> stop_pending w i)"

lemma stop_pending_frame:
  "sw_stops w' = sw_stops w \<Longrightarrow> stop_pending w' i = stop_pending w i"
  by (simp add: stop_pending_def)

lemma start_known_frame:
  "sw_server w' = sw_server w \<Longrightarrow> start_known w' i = start_known w i"
  by (simp add: start_known_def)

lemma run_at_set_run: "run_at (set_run i r w) i' r' = (if i' = i then i < length (sw_runs w) \<and> r' = r else run_at w i' r')"
  by (auto simp: run_at_def)

lemma run_at_add_run: "run_at (add_run r w) i' r' = (if i' = length (sw_runs w) then r' = r else run_at w i' r')"
  by (auto simp: run_at_def nth_append)

lemma run_at_fresh [simp]: "\<not> run_at w (length (sw_runs w)) r"
  by (simp add: run_at_def)

lemma seq_inv_set_run:
  assumes "seq_inv w" and "run_at w i r0" and "\<not> run_over r0" and "run_serving r \<Longrightarrow> run_serving r0"
    and "sw_runs w' = sw_runs w" and "sw_stops w' = sw_stops w"
    and "run_serving r \<Longrightarrow> start_known w i \<Longrightarrow> start_known w' i"
  shows "seq_inv (set_run i r w')"
proof -
  have at: "run_at w' = run_at w" using assms(5) by (simp add: fun_eq_iff run_at_def)
  have act: "i \<in> active_runs w" using assms(2,3) by (auto simp: active_runs_def)
  have sub: "active_runs (set_run i r w') \<subseteq> active_runs w"
    using act by (auto simp: active_runs_def run_at_set_run at)
  have "start_known (set_run i r w') i' \<or> stop_pending (set_run i r w') i'"
    if "run_at (set_run i r w') i' r'" "run_serving r'" for i' r'
  proof (cases "i' = i")
    case True
    then have "run_serving r" using that by (simp add: run_at_set_run)
    then show ?thesis
      using assms(1,2,4,6,7) True by (auto simp: seq_inv_def stop_pending_def start_known_def)
  next
    case False
    then have "i' \<in> active_runs w"
      using that by (auto simp: active_runs_def run_at_set_run at run_serving_def)
    then show ?thesis using assms(1) act False by (auto simp: seq_inv_def)
  qed
  then show ?thesis using sub assms(1) unfolding seq_inv_def by blast
qed

lemma seq_inv_refuse:
  assumes "seq_inv w" and "run_over r"
  shows "seq_inv (add_run r w)"
proof -
  have "active_runs (add_run r w) = active_runs w"
    using assms(2) by (auto simp: active_runs_def run_at_add_run)
  then show ?thesis
    using assms by (auto simp: seq_inv_def run_at_add_run start_known_def stop_pending_def run_serving_def)
qed

lemma seq_inv_start:
  assumes "\<And>i r. run_at w i r \<Longrightarrow> run_over r"
  shows "seq_inv (add_run Run_accept (on_server (\<lambda>_. Start_fields (length (sw_runs w)) sv) w))"
proof -
  have "active_runs (add_run Run_accept (on_server (\<lambda>_. Start_fields (length (sw_runs w)) sv) w)) \<subseteq> {length (sw_runs w)}"
    using assms by (auto simp: active_runs_def run_at_add_run split: if_splits)
  then show ?thesis
    using assms by (auto simp: seq_inv_def run_at_add_run run_serving_def start_known_def split: if_splits)
qed

lemma seq_inv_run: "run_step True w w' \<Longrightarrow> seq_inv w \<Longrightarrow> seq_inv w'"
proof (induction rule: run_step.induct)
  case (start listens r sv)
  from Start_beginD [OF start.hyps(1)]
  consider "sv = sw_server w" "run_over r" | "r = Run_accept" "sv = Start_fields (length (sw_runs w)) (sw_server w)"
    by (auto simp: run_over_def)
  then show ?case
  proof cases
    case 1
    then show ?thesis using seq_inv_refuse [OF start.prems 1(2)] by (simp add: on_server_def)
  next
    case 2
    then have "run_over r'" if "run_at w i r'" for i r'
      using that start.hyps(2) by (auto simp: list_all_length run_at_def)
    with 2 show ?thesis using seq_inv_start by simp
  qed
qed (rule seq_inv_set_run, assumption, assumption; simp add: run_over_def run_serving_def start_known_def)+

lemma stop_pending_mono:
  assumes "stop_pending w i" and "stop_at w j p0" and "sw_stops w' = (sw_stops w)[j := p]"
    and "stop_run p = stop_run p0" and "\<And>sd ks. p = Sh_returned sd ks \<Longrightarrow> sd \<noteq> Some i"
  shows "stop_pending w' i"
proof -
  obtain j' where j': "j' < length (sw_stops w)" "stop_run (sw_stops w ! j') = Some i"
      "\<forall>sd ks. sw_stops w ! j' \<noteq> Sh_returned sd ks"
    using assms(1) by (auto simp: stop_pending_def in_set_conv_nth)
  have j: "j < length (sw_stops w)" "sw_stops w ! j = p0" using assms(2) by (auto simp: stop_at_def)
  show ?thesis
  proof (cases "j' = j")
    case True
    then have "p \<noteq> Sh_returned sd ks" for sd ks using assms(4,5) j j' by force
    moreover have "p \<in> set (sw_stops w')" using j assms(3) by (simp add: set_update_memI)
    ultimately show ?thesis using True j j' assms(4) by (auto simp: stop_pending_def)
  next
    case False
    then have "sw_stops w' ! j' = sw_stops w ! j'" "j' < length (sw_stops w')" using j' assms(3) by simp_all
    then show ?thesis using j' nth_mem unfolding stop_pending_def by metis
  qed
qed

lemma seq_inv_stop:
  assumes "stop_step w w'" and "sv_inv w" and "seq_inv w"
  shows "seq_inv w'"
proof -
  have at: "run_at w' = run_at w" using assms(1) by (cases rule: stop_step.cases) (auto simp: fun_eq_iff run_at_def)
  have "start_known w' i \<or> stop_pending w' i" if serving: "run_at w i r" "run_serving r" for i r
  proof -
    have before: "start_known w i \<or> stop_pending w i" using that assms(3) by (auto simp: seq_inv_def)
    have not_done: "i \<notin> sw_done_closed w"
      using assms(2) serving
      by (auto simp: sv_inv_def runs_inv_def run_signalled_def run_at_def run_serving_def run_over_def)
    from assms(1) show ?thesis
    proof (cases rule: stop_step.cases)
      case (shut_begin p sv)
      then show ?thesis
        using before shutdown_beginD [OF shut_begin(2)] by (auto simp: start_known_def stop_pending_def)
    next
      case (shut_join j sd ks)
      then have "sd \<noteq> Some i" using not_done by auto
      then show ?thesis
        using shut_join before stop_pending_mono [of w i j "Sh_join sd ks" w' "Sh_returned sd ks"]
        by (auto simp: start_known_def)
    qed (rule disjE [OF before], simp add: start_known_def, rule disjI2, erule stop_pending_mono, assumption,
        simp only: world_stops, simp, simp | use before in \<open>simp add: start_known_def stop_pending_def\<close>)+
  qed
  then show ?thesis using assms(3) by (simp add: seq_inv_def active_runs_def at)
qed

lemma seq_inv_sess:
  assumes "sess_step w w'" and "seq_inv w"
  shows "seq_inv w'"
proof -
  have "run_at w' = run_at w" "start_known w' = start_known w" "stop_pending w' = stop_pending w"
    using assms(1) by (auto simp: fun_eq_iff run_at_def start_known_def stop_pending_def elim!: sess_step.cases)
  then show ?thesis using assms(2) by (simp add: seq_inv_def active_runs_def)
qed

lemma seq_inv_reach: "sv_reach True w \<Longrightarrow> seq_inv w"
proof (induction rule: sv_reach.induct)
  case sv_start
  then show ?case by (simp add: seq_inv_def sv_init_def active_runs_def run_at_def)
next
  case (sv_stop w w')
  then show ?case using seq_inv_stop sv_inv_reach by blast
qed (blast intro: seq_inv_run seq_inv_sess)+

text \<open>
  C11: As long as \<^verbatim>\<open>Start\<close> is called only after all earlier calls have returned, a server that accepts
  connections is never out of reach: the next \<^verbatim>\<open>Stop\<close> or \<^verbatim>\<open>Close\<close> takes its listener, unless a shutdown
  for it is under way already.
\<close>

theorem stop_finds_server:
  assumes "sv_reach True w" and "run_at w i r" and "r \<notin> {Run_refused, Run_failed, Run_cleaned, Run_returned}"
  shows "(\<exists>sv. shutdown_begin (sw_server w) = Some (Sh_flag (Some i) (Some i), sv)) \<or> stop_pending w i"
  using seq_inv_reach [OF assms(1)] assms(2,3)
  by (fastforce simp: seq_inv_def run_serving_def run_over_def start_known_def shutdown_begin_def)

section \<open>Shutdown comes to an end\<close>

text \<open>The steps of calls that have been made: no new \<^verbatim>\<open>Start\<close>, no new \<^verbatim>\<open>Stop\<close>.\<close>

definition quiet_step :: "sv_world \<Rightarrow> sv_world \<Rightarrow> bool" where
  "quiet_step w w' \<longleftrightarrow> run_step False w w' \<and> length (sw_runs w') = length (sw_runs w) \<or>
     stop_step w w' \<and> length (sw_stops w') = length (sw_stops w) \<or> sess_step w w'"

definition listeners_closed :: "sv_world \<Rightarrow> bool" where
  "listeners_closed w \<longleftrightarrow> active_runs w \<subseteq> sw_ln_closed w"

fun run_rank :: "run_pc \<Rightarrow> nat" where
  "run_rank Run_conn = 21"
| "run_rank Run_alloc = 20"
| "run_rank (Run_store k) = 10"
| "run_rank (Run_launch k) = 9"
| "run_rank Run_accept = 5"
| "run_rank Run_served = 4"
| "run_rank Run_stopped = 3"
| "run_rank Run_cleaned = 2"
| "run_rank r = 0"

fun sess_rank :: "sess_state \<Rightarrow> nat" where
  "sess_rank Se_new = 3"
| "sess_rank Se_stored = 3"
| "sess_rank Se_running = 2"
| "sess_rank Se_removed = 1"
| "sess_rank Se_done = 0"

text \<open>\<open>n\<close> sessions is the most a walk through the map can meet.\<close>

fun stop_rank :: "nat \<Rightarrow> stop_pc \<Rightarrow> nat" where
  "stop_rank n (Sh_flag ln sd) = 2 * n + 5"
| "stop_rank n (Sh_close ln sd) = 2 * n + 4"
| "stop_rank n (Sh_range sd ks vis) = 2 * (n - card vis) + 2"
| "stop_rank n (Sh_wait sd ks vis k) = 2 * (n - card vis) + 3"
| "stop_rank n (Sh_join sd ks) = 1"
| "stop_rank n p = 0"

fun run_allocs :: "run_pc \<Rightarrow> nat" where
  "run_allocs Run_conn = 1"
| "run_allocs Run_alloc = 1"
| "run_allocs r = 0"

definition sess_limit :: "sv_world \<Rightarrow> nat" where
  "sess_limit w = length (sw_sess w) + sum_list (map run_allocs (sw_runs w))"

definition sv_measure :: "sv_world \<Rightarrow> nat" where
  "sv_measure w = sum_list (map run_rank (sw_runs w)) + sum_list (map (sess_rank \<circ> fst) (sw_sess w)) +
     sum_list (map (stop_rank (sess_limit w)) (sw_stops w))"

lemma stop_rank_mono: "m \<le> n \<Longrightarrow> stop_rank m p \<le> stop_rank n p"
  by (cases p) (auto simp: diff_le_mono)

lemma stop_ranks_mono: "m \<le> n \<Longrightarrow> sum_list (map (stop_rank m) ps) \<le> sum_list (map (stop_rank n) ps)"
  by (rule sum_list_mono) (rule stop_rank_mono)

lemma run_ranks:
  assumes "run_at w i r0"
  shows "sum_list (map f ((sw_runs w)[i := r])) + f r0 = sum_list (map f (sw_runs w)) + (f r :: nat)"
  using assms sum_list_update_add [of i "sw_runs w" f r] by (simp add: run_at_def)

lemma sess_ranks:
  assumes "sess_at w k st0"
  shows "sum_list (map (sess_rank \<circ> fst) (sw_sess (set_sess k st w))) + sess_rank st0 =
    sum_list (map (sess_rank \<circ> fst) (sw_sess w)) + sess_rank st"
  using assms sum_list_update_add [of k "sw_sess w" "sess_rank \<circ> fst" "(st, snd (sw_sess w ! k))"]
  by (simp add: sess_at_def set_sess_def)

lemma stop_ranks:
  assumes "stop_at w j p0"
  shows "sum_list (map f ((sw_stops w)[j := p])) + f p0 = sum_list (map f (sw_stops w)) + (f p :: nat)"
  using assms sum_list_update_add [of j "sw_stops w" f p] by (simp add: stop_at_def)

lemma measure_run:
  assumes "run_at w i r0" and "sw_runs w' = sw_runs w" and "sw_stops w' = sw_stops w"
    and "length (sw_sess w') + run_allocs r \<le> length (sw_sess w) + run_allocs r0"
    and "sum_list (map (sess_rank \<circ> fst) (sw_sess w')) + run_rank r < sum_list (map (sess_rank \<circ> fst) (sw_sess w)) + run_rank r0"
  shows "sv_measure (set_run i r w') < sv_measure w"
proof -
  have "sess_limit (set_run i r w') \<le> sess_limit w"
    using run_ranks [OF assms(1), of run_allocs r] assms(2,4) by (simp add: sess_limit_def)
  from stop_ranks_mono [OF this, of "sw_stops w"] show ?thesis
    using run_ranks [OF assms(1), of run_rank r] assms(2,3,5) by (simp add: sv_measure_def)
qed

lemma measure_run_step:
  assumes "run_step seq w w'" and "length (sw_runs w') = length (sw_runs w)" and "listeners_closed w"
    and "\<forall>k. sess_ok w k"
  shows "sv_measure w' < sv_measure w"
  using assms(1)
proof (cases rule: run_step.cases)
  case (accept_conn i)
  then have "i \<in> active_runs w" by (auto simp: active_runs_def run_over_def)
  then show ?thesis using assms(3) accept_conn by (auto simp: listeners_closed_def)
next
  case (store i k)
  then have "sess_at w k Se_new" using sess_ok_pending(1) assms(4) by blast
  then show ?thesis
    unfolding store(1) by (intro measure_run [OF store(2)]) (use sess_ranks [of w k Se_new Se_stored] in \<open>simp_all add: sess_at_length\<close>)
next
  case (launch i k)
  then have "sess_at w k Se_stored" using sess_ok_pending(2) assms(4) by blast
  then show ?thesis
    unfolding launch(1) by (intro measure_run [OF launch(2)]) (use sess_ranks [of w k Se_stored Se_running] in \<open>simp_all add: sess_at_length\<close>)
qed (use assms(2) in \<open>simp_all add: measure_run add_sess_def\<close>)

lemma measure_stop:
  assumes "stop_at w j p0" and "sw_runs w' = sw_runs w" and "sw_stops w' = sw_stops w" and "sw_sess w' = sw_sess w"
    and "stop_rank (sess_limit w) p < stop_rank (sess_limit w) p0"
  shows "sv_measure (set_stop j p w') < sv_measure w"
proof -
  have "sess_limit (set_stop j p w') = sess_limit w" using assms(2,4) by (simp add: sess_limit_def)
  then show ?thesis
    using stop_ranks [OF assms(1), of "stop_rank (sess_limit w)" p] assms(2-5) by (simp add: sv_measure_def)
qed

lemma measure_stop_step:
  assumes "stop_step w w'" and "length (sw_stops w') = length (sw_stops w)" and "sv_inv w"
  shows "sv_measure w' < sv_measure w"
  using assms(1)
proof (cases rule: stop_step.cases)
  case (shut_visit j sd ks vis k)
  have "k < length (sw_sess w)"
    using shut_visit(3) assms(3) by (auto simp: sv_inv_def sess_ok_def dest: sess_at_length)
  moreover have "vis \<subseteq> {..<length (sw_sess w)}"
    using stop_ok_at [OF assms(3) shut_visit(2)] by (auto dest: sess_at_length)
  ultimately have sub: "insert k vis \<subseteq> {..<length (sw_sess w)}" by simp
  then have fin: "finite vis" using finite_subset by auto
  have "card (insert k vis) \<le> length (sw_sess w)" using card_mono [OF _ sub] by simp
  then have "card vis < sess_limit w" "card (insert k vis) = Suc (card vis)"
    using fin shut_visit(4) by (simp_all add: sess_limit_def)
  then show ?thesis unfolding shut_visit(1) by (intro measure_stop [OF shut_visit(2)]) simp_all
qed (use assms(2) in \<open>simp_all add: measure_stop\<close>)

lemma measure_sess_step:
  assumes "sess_step w w'"
  shows "sv_measure w' < sv_measure w"
proof -
  have "sess_limit w' = sess_limit w" "sw_runs w' = sw_runs w" "sw_stops w' = sw_stops w"
    using assms by (auto simp: sess_limit_def elim!: sess_step.cases)
  moreover have "sum_list (map (sess_rank \<circ> fst) (sw_sess w')) < sum_list (map (sess_rank \<circ> fst) (sw_sess w))"
    using assms
  proof (cases rule: sess_step.cases)
    case (remove k)
    then show ?thesis using sess_ranks [OF remove(2), of Se_removed] by simp
  next
    case (finished k)
    then show ?thesis using sess_ranks [OF finished(2), of Se_done] by simp
  qed
  ultimately show ?thesis by (simp add: sv_measure_def)
qed

definition quiet_inv :: "sv_world \<Rightarrow> bool" where
  "quiet_inv w \<longleftrightarrow> sv_inv w \<and> listeners_closed w"

lemma active_runs_quiet: "quiet_step w w' \<Longrightarrow> active_runs w' \<subseteq> active_runs w"
  unfolding quiet_step_def
proof (elim disjE conjE)
  assume "run_step False w w'" "length (sw_runs w') = length (sw_runs w)"
  then show ?thesis
    by (cases rule: run_step.cases) (auto simp: active_runs_def run_at_set_run run_over_def split: if_splits)
next
  assume "stop_step w w'"
  then show ?thesis by (cases rule: stop_step.cases) (auto simp: active_runs_def run_at_def)
next
  assume "sess_step w w'"
  then show ?thesis by (cases rule: sess_step.cases) (auto simp: active_runs_def)
qed

lemma quiet_step_inv:
  assumes "quiet_step w w'" and "quiet_inv w"
  shows "quiet_inv w' \<and> sv_measure w' < sv_measure w"
proof -
  have inv: "sv_inv w'"
    using assms sv_inv_run sv_inv_stop sv_inv_sess by (auto simp: quiet_step_def quiet_inv_def)
  have "sw_ln_closed w \<subseteq> sw_ln_closed w'"
    using assms sv_grows_run sv_grows_stop sv_grows_sess by (fastforce simp: quiet_step_def quiet_inv_def sv_inv_def sv_grows_def)
  then have "listeners_closed w'"
    using active_runs_quiet [OF assms(1)] assms(2) by (auto simp: quiet_inv_def listeners_closed_def)
  with inv show ?thesis
    using assms measure_run_step measure_stop_step measure_sess_step
    by (auto simp: quiet_step_def quiet_inv_def sv_inv_def)
qed

lemma quiet_run_bound:
  "(quiet_step ^^ n) w w' \<Longrightarrow> quiet_inv w \<Longrightarrow> quiet_inv w' \<and> n + sv_measure w' \<le> sv_measure w"
proof (induction n arbitrary: w')
  case (Suc n)
  then obtain u where "(quiet_step ^^ n) w u" "quiet_step u w'" by auto
  then show ?case using Suc.IH [of u] quiet_step_inv [of u w'] Suc.prems(2) by force
qed simp

text \<open>Only when everything is over can nothing move.\<close>

definition all_over :: "sv_world \<Rightarrow> bool" where
  "all_over w \<longleftrightarrow> list_all run_over (sw_runs w) \<and> (\<forall>k < length (sw_sess w). sess_at w k Se_done) \<and>
     (\<forall>p \<in> set (sw_stops w). p = Sh_idle \<or> (\<exists>sd ks. p = Sh_returned sd ks))"

lemma quiet_run: "run_step False w w' \<Longrightarrow> length (sw_runs w') = length (sw_runs w) \<Longrightarrow> quiet_step w w'"
  and quiet_stop: "stop_step w w' \<Longrightarrow> length (sw_stops w') = length (sw_stops w) \<Longrightarrow> quiet_step w w'"
  and quiet_sess: "sess_step w w' \<Longrightarrow> quiet_step w w'"
  by (simp_all add: quiet_step_def)

lemma run_progress:
  assumes "listeners_closed w" and "run_at w i r" and "\<not> run_over r"
  shows "\<exists>w'. quiet_step w w'"
proof -
  have closed: "i \<in> sw_ln_closed w" using assms by (auto simp: listeners_closed_def active_runs_def)
  have moved: "\<exists>w'. quiet_step w w'" if "run_step False w (set_run i r' w')" "sw_runs w' = sw_runs w" for r' w'
    using quiet_run [OF that(1)] that(2) by auto
  show ?thesis
    using assms(2,3) closed
    by (cases r; cases "sv_done (sw_server w)")
      (auto simp: run_over_def intro: moved [OF run_step.conn_done] moved [OF run_step.conn_serve]
        moved [OF run_step.accept_ends] moved [OF run_step.alloc_nil] moved [OF run_step.store]
        moved [OF run_step.launch] moved [OF run_step.stop_dispatcher] moved [OF run_step.cleanup]
        moved [OF run_step.finish])
qed

lemma sess_progress:
  assumes "quiet_inv w" and "sess_at w k st" and "st \<noteq> Se_done"
  shows "\<exists>w'. quiet_step w w'"
proof -
  have ok: "sess_ok w k" and closed: "listeners_closed w" using assms(1) by (auto simp: quiet_inv_def sv_inv_def)
  show ?thesis
  proof (cases st)
    case Se_new
    then obtain i where "run_at w i (Run_store k)" using ok assms(2) by (auto simp: sess_ok_def at_pc_def)
    then show ?thesis by (rule run_progress [OF closed]) (simp add: run_over_def)
  next
    case Se_stored
    then obtain i where "run_at w i (Run_launch k)"
      using ok assms(2) by (auto simp: sess_ok_def at_pc_def sess_at_unique)
    then show ?thesis by (rule run_progress [OF closed]) (simp add: run_over_def)
  qed (use assms quiet_sess sess_step.intros in blast)+
qed

lemma stop_progress:
  assumes "quiet_inv w" and "stop_at w j p" and "p \<noteq> Sh_idle" and "\<And>sd ks. p \<noteq> Sh_returned sd ks"
  shows "\<exists>w'. quiet_step w w'"
proof -
  have inv: "sv_inv w" "listeners_closed w" using assms(1) by (simp_all add: quiet_inv_def)
  have ok: "stop_ok w p" by (rule stop_ok_at [OF inv(1) assms(2)])
  have moved: "\<exists>w'. quiet_step w w'" if "stop_step w (set_stop j p' w')" "sw_stops w' = sw_stops w" for p' w'
    using quiet_stop [OF that(1)] that(2) by auto
  show ?thesis
  proof (cases p)
    case (Sh_range sd ks vis)
    show ?thesis
    proof (cases "sv_sessions (sw_server w) \<subseteq> vis")
      case True
      then show ?thesis
        using moved [OF stop_step.shut_ranged [OF assms(2) [unfolded Sh_range]]] by auto
    next
      case False
      then show ?thesis
        using moved [OF stop_step.shut_visit [OF assms(2) [unfolded Sh_range]]] by auto
    qed
  next
    case (Sh_wait sd ks vis k)
    then obtain st where "sess_at w k st" using ok by (auto simp: sess_known_def sess_gone_def)
    then show ?thesis
      using sess_progress [OF assms(1)] moved [OF stop_step.shut_waited [OF assms(2) [unfolded Sh_wait]]]
      by (cases "st = Se_done") auto
  next
    case (Sh_join sd ks)
    then obtain i where i: "sd = Some i" "run_real w i" using ok by auto
    have "i \<in> sw_done_closed w \<longleftrightarrow> run_at w i Run_returned"
      using inv by (auto simp: sv_inv_def runs_inv_def run_signalled_def)
    then show ?thesis
      using i run_progress [OF inv(2), of i "sw_runs w ! i"]
        moved [OF stop_step.shut_join [OF assms(2) [unfolded Sh_join]]]
      by (cases "run_over (sw_runs w ! i)") (auto simp: run_real_def run_over_def run_at_def)
  qed (use assms(2-4) in
      \<open>auto intro: moved [OF stop_step.shut_flag] moved [OF stop_step.shut_close]\<close>)
qed

lemma stuck_all_over:
  assumes "quiet_inv w" and "\<not> (\<exists>w'. quiet_step w w')"
  shows "all_over w"
proof -
  have "run_over (sw_runs w ! i)" if "i < length (sw_runs w)" for i
    using that run_progress [of w i "sw_runs w ! i"] assms by (auto simp: quiet_inv_def run_at_def)
  moreover have "sess_at w k Se_done" if "k < length (sw_sess w)" for k
    using that sess_progress [OF assms(1), of k "fst (sw_sess w ! k)"] assms(2) by (auto simp: sess_at_def)
  moreover have "p = Sh_idle \<or> (\<exists>sd ks. p = Sh_returned sd ks)" if "p \<in> set (sw_stops w)" for p
    using that stop_progress [OF assms(1), of _ p] assms(2) by (auto simp: in_set_conv_nth stop_at_def)
  ultimately show ?thesis by (simp add: all_over_def list_all_length)
qed

text \<open>
  C9: Once every \<^verbatim>\<open>Start\<close> that has not returned has had its listener closed and nobody calls \<^verbatim>\<open>Start\<close> or
  \<^verbatim>\<open>Stop\<close> again, the server takes a bounded number of further steps, whatever their order, and when it
  can go no further every \<^verbatim>\<open>Start\<close> and every shutdown has returned and every session is finished.
\<close>

theorem shutdown_terminates:
  assumes "sv_reach seq w" and "active_runs w \<subseteq> sw_ln_closed w"
    and "(quiet_step ^^ n) w w'"
  shows "n \<le> sv_measure w \<and> ((\<exists>w''. quiet_step w' w'') \<or> all_over w')"
proof -
  have "quiet_inv w" using assms(1,2) sv_inv_reach by (simp add: quiet_inv_def listeners_closed_def)
  with quiet_run_bound [OF assms(3)] show ?thesis using stuck_all_over by auto
qed

section \<open>One server in detail\<close>

text \<open>
  A connection has been accepted and its session allocated; the session is being served; then a shutdown has closed the listener and walks through the map.\<close>

definition sample_accepting :: sv_world where
  "sample_accepting =
     \<lparr>sw_server = \<lparr>sv_listener = Some 0, sv_dispatcher = Some 0, sv_serveDone = Some 0, sv_started = True,
        sv_done = False, sv_sessions = {}\<rparr>,
      sw_runs = [Run_store 0], sw_stops = [], sw_sess = [(Se_new, Some 0)], sw_ln_closed = {},
      sw_disp_stopped = {}, sw_done_closed = {}\<rparr>"

definition sample_serving :: sv_world where
  "sample_serving =
     \<lparr>sw_server = \<lparr>sv_listener = Some 0, sv_dispatcher = Some 0, sv_serveDone = Some 0, sv_started = True,
        sv_done = False, sv_sessions = {0}\<rparr>,
      sw_runs = [Run_accept], sw_stops = [], sw_sess = [(Se_running, Some 0)], sw_ln_closed = {},
      sw_disp_stopped = {}, sw_done_closed = {}\<rparr>"

definition sample_closing :: sv_world where
  "sample_closing =
     \<lparr>sw_server = \<lparr>sv_listener = None, sv_dispatcher = Some 0, sv_serveDone = Some 0, sv_started = False,
        sv_done = True, sv_sessions = {0}\<rparr>,
      sw_runs = [Run_accept], sw_stops = [Sh_range (Some 0) {0} {}], sw_sess = [(Se_running, Some 0)],
      sw_ln_closed = {0}, sw_disp_stopped = {}, sw_done_closed = {}\<rparr>"

definition sample_draining :: sv_world where
  "sample_draining =
     \<lparr>sw_server = (sw_server sample_closing)\<lparr>sv_sessions := {}\<rparr>, sw_runs = [Run_stopped],
      sw_stops = [Sh_join (Some 0) {0}], sw_sess = [(Se_done, Some 0)], sw_ln_closed = {0},
      sw_disp_stopped = {0}, sw_done_closed = {}\<rparr>"

definition sample_over :: sv_world where
  "sample_over =
     \<lparr>sw_server = \<lparr>sv_listener = None, sv_dispatcher = None, sv_serveDone = None, sv_started = False,
        sv_done = True, sv_sessions = {}\<rparr>,
      sw_runs = [Run_returned], sw_stops = [Sh_returned (Some 0) {0}], sw_sess = [(Se_done, Some 0)],
      sw_ln_closed = {0}, sw_disp_stopped = {0}, sw_done_closed = {0}\<rparr>"

lemmas at_defs = run_at_def stop_at_def sess_at_def

lemma sample_accepting_reach: "sv_reach seq sample_accepting"
proof -
  have "sv_reach seq (add_run Run_accept (on_server (Start_fields 0) sv_init))"
    using sv_run [OF sv_start run_step.start [of True]]
    by (simp add: Start_begin_def on_server_def sv_init_def)
  note 1 = sv_run [OF this run_step.accept_conn [of _ 0]]
  have "sv_reach seq (set_run 0 Run_conn (add_run Run_accept (on_server (Start_fields 0) sv_init)))"
    by (rule 1) (simp_all add: sv_init_def at_defs)
  note 2 = sv_run [OF this run_step.conn_serve [of _ 0]]
  have "sv_reach seq (set_run 0 Run_alloc (set_run 0 Run_conn (add_run Run_accept (on_server (Start_fields 0) sv_init))))"
    by (rule 2) (simp_all add: sv_init_def at_defs Start_fields_def)
  note 3 = sv_run [OF this run_step.alloc [of _ 0]]
  show ?thesis
    using 3 by (simp add: sv_init_def at_defs world_updates Start_fields_def sample_accepting_def)
qed

lemma sample_serving_reach: "sv_reach seq sample_serving"
proof -
  have 5: "sv_reach seq (set_run 0 (Run_launch 0) (set_sess 0 Se_stored
      (on_server (\<lambda>sv. sv\<lparr>sv_sessions := insert 0 (sv_sessions sv)\<rparr>) sample_accepting)))" (is "sv_reach seq ?w5")
    using sv_run [OF sample_accepting_reach run_step.store [of _ 0 0]]
    by (simp add: at_defs sample_accepting_def)
  have "sv_reach seq (set_run 0 Run_accept (set_sess 0 Se_running ?w5))"
    using sv_run [OF 5 run_step.launch [of _ 0 0]] by (simp add: at_defs sample_accepting_def)
  then show ?thesis by (simp add: sample_serving_def sample_accepting_def world_updates)
qed

lemma sample_closing_reach: "sv_reach seq sample_closing"
proof -
  let ?sv = "(sw_server sample_serving)\<lparr>sv_listener := None, sv_started := False\<rparr>"
  let ?w1 = "add_stop (Sh_flag (Some 0) (Some 0)) (on_server (\<lambda>_. ?sv) sample_serving)"
  let ?w2 = "set_stop 0 (Sh_close (Some 0) (Some 0)) (on_server (\<lambda>sv. sv\<lparr>sv_done := True\<rparr>) ?w1)"
  have 1: "sv_reach seq ?w1"
    by (rule sv_stop [OF sample_serving_reach stop_step.shut_begin])
      (simp add: shutdown_begin_def sample_serving_def)
  have 2: "sv_reach seq ?w2"
    by (rule sv_stop [OF 1 stop_step.shut_flag]) (simp add: at_defs sample_serving_def)
  have "sv_reach seq (set_stop 0 (Sh_range (Some 0) (sv_sessions (sw_server ?w2)) {}) (close_listener (Some 0) ?w2))"
    by (rule sv_stop [OF 2 stop_step.shut_close]) (simp add: at_defs sample_serving_def)
  then show ?thesis by (simp add: sample_closing_def sample_serving_def world_updates)
qed

lemma sample_draining_reach: "sv_reach seq sample_draining"
proof -
  let ?w1 = "set_sess 0 Se_removed (on_server (\<lambda>sv. sv\<lparr>sv_sessions := sv_sessions sv - {0}\<rparr>)
    (set_stop 0 (Sh_wait (Some 0) {0} {0} 0) sample_closing))"
  let ?w2 = "set_stop 0 (Sh_join (Some 0) {0}) (set_stop 0 (Sh_range (Some 0) {0} {0}) (set_sess 0 Se_done ?w1))"
  have 0: "sv_reach seq (set_stop 0 (Sh_wait (Some 0) {0} {0} 0) sample_closing)"
    using sv_stop [OF sample_closing_reach stop_step.shut_visit [of _ 0 "Some 0" "{0}" "{}" 0]]
    by (simp add: at_defs sample_closing_def)
  have 1: "sv_reach seq ?w1"
    by (rule sv_sess [OF 0 sess_step.remove]) (simp add: at_defs sample_closing_def)
  have "sv_reach seq (set_sess 0 Se_done ?w1)"
    by (rule sv_sess [OF 1 sess_step.finished]) (simp add: at_defs sample_closing_def world_updates)
  then have "sv_reach seq (set_stop 0 (Sh_range (Some 0) {0} {0}) (set_sess 0 Se_done ?w1))"
    by (rule sv_stop [OF _ stop_step.shut_waited [of _ 0 "Some 0" "{0}" "{0}" 0]])
      (simp_all add: at_defs sample_closing_def world_updates)
  then have 2: "sv_reach seq ?w2"
    by (rule sv_stop [OF _ stop_step.shut_ranged]) (simp_all add: at_defs sample_closing_def world_updates)
  then have "sv_reach seq (set_run 0 Run_served (close_listener (Some 0) ?w2))"
    by (rule sv_run [OF _ run_step.accept_ends]) (simp_all add: at_defs sample_closing_def)
  note 3 = sv_run [OF this run_step.stop_dispatcher [of _ 0]]
  have "sv_reach seq (set_run 0 Run_stopped (dispatcher_Stop 0 (set_run 0 Run_served (close_listener (Some 0) ?w2))))"
    by (rule 3) (simp_all add: at_defs sample_closing_def)
  then show ?thesis by (simp add: sample_draining_def sample_closing_def world_updates)
qed

lemma sample_over_reach: "sv_reach seq sample_over"
proof -
  have "sv_reach seq (set_run 0 Run_cleaned (on_server Start_cleanup sample_draining))"
    by (rule sv_run [OF sample_draining_reach run_step.cleanup]) (simp add: at_defs sample_draining_def)
  note 4 = sv_run [OF this run_step.finish [of _ 0]]
  have "sv_reach seq (set_run 0 Run_returned (close_serveDone 0 (set_run 0 Run_cleaned (on_server Start_cleanup sample_draining))))"
    by (rule 4) (simp add: at_defs sample_draining_def)
  note 5 = sv_stop [OF this stop_step.shut_join [of _ 0 "Some 0" "{0}"]]
  then show ?thesis by (simp add: at_defs sample_draining_def sample_closing_def sample_over_def world_updates Start_cleanup_def)
qed

lemma shutdown_complete_witness:
  "run_at sample_over 0 Run_returned \<and> sess_gone sample_over 0"
  using shutdown_complete [OF sample_over_reach, of 0 "Some 0" "{0}"] by (simp add: stop_at_def sample_over_def)

lemma active_sessions_exact_witness:
  "{k. sess_at sample_serving k Se_stored \<or> sess_at sample_serving k Se_running} = {0} \<and>
    ActiveSessions (sw_server sample_serving) = 1"
proof -
  have "sv_sessions (sw_server sample_serving) = {0}" by (simp add: sample_serving_def)
  then show ?thesis
    using active_sessions_exact [OF sample_serving_reach] by (simp add: ActiveSessions_def del: Collect_disj_eq)
qed

lemma stop_finds_server_witness:
  "(\<exists>sv. shutdown_begin (sw_server sample_serving) = Some (Sh_flag (Some 0) (Some 0), sv)) \<or>
    stop_pending sample_serving 0"
  using stop_finds_server [OF sample_serving_reach, of 0 Run_accept] by (simp add: at_defs sample_serving_def)

lemma shutdown_terminates_witness:
  "\<exists>w'. (quiet_step ^^ 1) sample_closing w' \<and> 1 \<le> sv_measure sample_closing"
proof -
  have "quiet_step sample_closing (set_run 0 Run_served (close_listener (Some 0) sample_closing))"
    by (rule quiet_run [OF run_step.accept_ends]) (simp_all add: at_defs sample_closing_def)
  then have step: "(quiet_step ^^ 1) sample_closing (set_run 0 Run_served (close_listener (Some 0) sample_closing))"
    by auto
  have "active_runs sample_closing \<subseteq> sw_ln_closed sample_closing"
    by (auto simp: active_runs_def at_defs sample_closing_def)
  with shutdown_terminates [OF sample_closing_reach _ step] step show ?thesis by blast
qed

section \<open>What can go wrong\<close>

text \<open>
  C38: \<^verbatim>\<open>Start\<close> may be called again while an earlier call is still cleaning up, because \<^verbatim>\<open>shutdown\<close>
  clears \<^verbatim>\<open>started\<close> first. The cleanup then wipes out the fields of the new server: it accepts
  connections, but it counts as not started and no shutdown finds it.
\<close>

theorem server_restart_race:
  "\<exists>w. sv_reach False w \<and> run_at w 1 Run_accept \<and> 1 \<notin> sw_ln_closed w \<and>
    shutdown_begin (sw_server w) = None \<and> \<not> stop_pending w 1"
proof -
  let ?w1 = "add_run Run_accept (on_server (Start_fields 1) sample_draining)"
  let ?w2 = "set_run 0 Run_cleaned (on_server Start_cleanup ?w1)"
  have 1: "sv_reach False ?w1"
    using sv_run [OF sample_draining_reach run_step.start [of True _ _ _ False]]
    by (simp add: Start_begin_def on_server_def sample_draining_def sample_closing_def)
  have "sv_reach False ?w2"
    by (rule sv_run [OF 1 run_step.cleanup]) (simp add: at_defs sample_draining_def)
  then have "sv_reach False (set_run 0 Run_returned (close_serveDone 0 ?w2))"
    by (rule sv_run [OF _ run_step.finish]) (simp add: at_defs sample_draining_def)
  then have "sv_reach False (set_stop 0 (Sh_returned (Some 0) {0}) (set_run 0 Run_returned (close_serveDone 0 ?w2)))"
    by (rule sv_stop [OF _ stop_step.shut_join]) (simp_all add: at_defs sample_draining_def)
  then show ?thesis
    by (intro exI conjI, assumption)
      (simp_all add: at_defs shutdown_begin_def stop_pending_def sample_draining_def)
qed

text \<open>
  C39: \<^verbatim>\<open>Stop\<close> can return while a session is still running on a dispatcher that has been stopped: a
  session that is stored after the walk through the map is not waited for.
\<close>

theorem late_session_survives_stop:
  "\<exists>w. sv_reach True w \<and> stop_at w 0 (Sh_returned (Some 0) {}) \<and> sess_at w 0 Se_running \<and>
    snd (sw_sess w ! 0) = Some 0 \<and> 0 \<in> sw_disp_stopped w"
proof -
  let ?sv = "(sw_server sample_accepting)\<lparr>sv_listener := None, sv_started := False\<rparr>"
  let ?w1 = "add_stop (Sh_flag (Some 0) (Some 0)) (on_server (\<lambda>_. ?sv) sample_accepting)"
  let ?w2 = "set_stop 0 (Sh_close (Some 0) (Some 0)) (on_server (\<lambda>sv. sv\<lparr>sv_done := True\<rparr>) ?w1)"
  let ?w3 = "set_stop 0 (Sh_join (Some 0) {}) (set_stop 0 (Sh_range (Some 0) {} {}) (close_listener (Some 0) ?w2))"
  let ?w4 = "set_run 0 (Run_launch 0) (set_sess 0 Se_stored
    (on_server (\<lambda>sv. sv\<lparr>sv_sessions := insert 0 (sv_sessions sv)\<rparr>) ?w3))"
  let ?w5 = "set_run 0 Run_accept (set_sess 0 Se_running ?w4)"
  let ?w6 = "set_run 0 Run_served (close_listener (Some 0) ?w5)"
  let ?w7 = "set_run 0 Run_stopped (dispatcher_Stop 0 ?w6)"
  let ?w8 = "set_run 0 Run_cleaned (on_server Start_cleanup ?w7)"
  let ?w9 = "set_run 0 Run_returned (close_serveDone 0 ?w8)"
  note eval = at_defs shutdown_begin_def sample_accepting_def world_updates
  have 1: "sv_reach True ?w1"
    by (rule sv_stop [OF sample_accepting_reach stop_step.shut_begin]) (simp add: eval)
  have 2: "sv_reach True ?w2" by (rule sv_stop [OF 1 stop_step.shut_flag]) (simp add: eval)
  have "sv_reach True (set_stop 0 (Sh_range (Some 0) {} {}) (close_listener (Some 0) ?w2))"
    using sv_stop [OF 2 stop_step.shut_close [of _ 0 "Some 0" "Some 0"]] by (simp add: eval)
  then have 3: "sv_reach True ?w3" by (rule sv_stop [OF _ stop_step.shut_ranged]) (simp_all add: eval)
  have 4: "sv_reach True ?w4" by (rule sv_run [OF 3 run_step.store]) (simp add: eval)
  have 5: "sv_reach True ?w5" by (rule sv_run [OF 4 run_step.launch]) (simp add: eval)
  have 6: "sv_reach True ?w6" by (rule sv_run [OF 5 run_step.accept_ends]) (simp_all add: eval)
  have 7: "sv_reach True ?w7" by (rule sv_run [OF 6 run_step.stop_dispatcher]) (simp add: eval)
  have 8: "sv_reach True ?w8" by (rule sv_run [OF 7 run_step.cleanup]) (simp add: eval)
  have 9: "sv_reach True ?w9" by (rule sv_run [OF 8 run_step.finish]) (simp add: eval)
  have "sv_reach True (set_stop 0 (Sh_returned (Some 0) {}) ?w9)"
    by (rule sv_stop [OF 9 stop_step.shut_join]) (simp_all add: eval)
  then show ?thesis by (intro exI conjI, assumption) (simp_all add: eval)
qed

end
