(* ===== verification/Spec2Isabelle.thy ===== *)
theory Spec2Isabelle
  imports Resp_Parser Dispatcher_Liveness Served_Statistics Server_Adapter Session_Lifecycle
    Pub_Sub_Runs Server_Shutdown
begin

text \<open>
  A model of \<^verbatim>\<open>respkit\<close>, a Go library for servers that speak the Redis protocol (RESP), and what makes
  it correct.

  \<^bold>\<open>The program.\<close> A server (\<^verbatim>\<open>server.go\<close>) listens, wraps every accepted connection
  (\<^verbatim>\<open>internal/conn/conn.go\<close>) and gives it a session (\<^verbatim>\<open>internal/session/session.go\<close>). The read loop of the
  session reads one RESP value after the other (\<^verbatim>\<open>internal/protocol/parser.go\<close>), makes a request of it and
  enqueues it with the dispatcher (\<^verbatim>\<open>internal/dispatcher/dispatcher.go\<close>), whose workers look the command up
  (\<^verbatim>\<open>internal/command\<close>) and send the answer back over a channel; the write loop serialises the answers
  (\<^verbatim>\<open>internal/protocol/writer.go\<close>) and flushes them. Beside this path stand an older parser and writer
  (\<^verbatim>\<open>internal/resp\<close>) and a publish/subscribe registry (\<^verbatim>\<open>pubsub.go\<close>).

  \<^bold>\<open>The theories.\<close>
  \<^item> \<open>Go_Prelude\<close>: bytes, 64-bit integers, panics, sub-slices, \<^verbatim>\<open>strconv\<close>; \<open>Go_Channel\<close>: buffered channels, with
    the contract \<open>bounded_fifo\<close>.
  \<^item> \<open>Resp_Value\<close>: \<^verbatim>\<open>types.go\<close> of \<^verbatim>\<open>internal/protocol\<close>. A record with five fields is a datatype with one
    constructor; equality, command names and arguments of a request.
  \<^item> \<open>Inline_Args\<close>, \<open>Protocol_Parser\<close>: the parser as functions from a buffer and a position to a value and
    a position, or a panic; \<open>Protocol_Writer\<close>: serialisation, against the RESP grammar \<open>encode\<close> (contract
    \<open>appender\<close>); \<open>Wire_Roundtrip\<close>: both together (contracts \<open>int_reader\<close>, \<open>wire_codec\<close>);
    \<open>Protocol_Reader\<close>: the incremental \<^verbatim>\<open>Reader\<close> over a source that delivers chunks.
  \<^item> \<open>Resp_Parser\<close>, \<open>Resp_Writer\<close>: \<^verbatim>\<open>internal/resp\<close>, related to the parser and the writer above.
  \<^item> \<open>Command_Layer\<close>: commands, factories, the registry (contract \<open>keyed_table\<close>), the built-in commands.
  \<^item> \<open>Dispatcher\<close>: one definition per atomic action of scheduler, workers and callers, and the relation
    \<open>d_run\<close> of all interleavings; \<open>Dispatcher_Safety\<close>: the invariant \<open>d_inv\<close>; \<open>Dispatcher_Liveness\<close>: the
    measure \<open>d_measure\<close> and the properties.
  \<^item> \<open>Session\<close>: one step relation per goroutine over the shared state; \<open>Session_Safety\<close>: invariants
    (contract \<open>session_invariant\<close>); \<open>Session_Runs\<close>: concrete runs; \<open>Session_Liveness\<close>: the measure and the
    properties.
  \<^item> \<open>Pub_Sub\<close>: the registry of \<^verbatim>\<open>pubsub.go\<close> and what it writes to connections; \<open>Pub_Sub_Table\<close>: operations
    one after the other, refining a set of subscriptions (contract \<open>subscription_table\<close>);
    \<open>Pub_Sub_Runs\<close>: overlapping operations.
  \<^item> \<open>Net_Conn\<close>: \<^verbatim>\<open>Conn\<close> of \<^verbatim>\<open>internal/conn\<close>; \<open>Server\<close>: configuration, set-up of a session and the
    path of a request; \<open>Server_Session\<close>: the session a server starts for a connection;
    \<open>Server_Adapter\<close>: listeners, and the connection a session allocator sees;
    \<open>Server_Runs\<close>: calls of \<^verbatim>\<open>Start\<close>, \<^verbatim>\<open>Stop\<close> and \<^verbatim>\<open>Close\<close> and the sessions as
    interleaved steps with the invariant \<open>sv_inv\<close>; \<open>Server_Shutdown\<close>: what a shutdown guarantees;
    \<open>Session_Lifecycle\<close>: the sessions of \<open>Session\<close> refine those of \<open>Server_Runs\<close>.
  \<^item> \<open>Served_Connection\<close>: the goroutines of a session, the dispatcher and the connection as one system
    (\<open>served_step\<close>), whose runs are runs of the session; \<open>Dispatcher_Answers\<close> and \<open>Session_Sequence\<close>: what
    dispatcher and session contribute; \<open>Served_Invariants\<close>: the invariants of the whole (contract \<open>served_invariant\<close>); \<open>Served_Replies\<close>:
    what a client sees of it; \<open>Served_Statistics\<close>: the counters of the session as invariants of the whole.
  \<^item> This theory: what the statistics of a session say about its connection.

  \<^bold>\<open>How code becomes definitions.\<close> Names are those of the source. Bytes are \<open>char\<close>, \<^verbatim>\<open>int\<close> and \<^verbatim>\<open>int64\<close> are
  \<open>64 word\<close> wherever a number comes from the input or is counted without a bound, slices of the input are
  \<open>slice\<close> values with their position, \<^verbatim>\<open>nil\<close> is \<open>None\<close> where the code tells it from empty, a run-time panic is
  a value of \<open>go_panic\<close> in a sum type. Mutexes held for a whole method make it one step; everything else
  that goroutines share is read and written in steps of its own. Scopes, connections, listeners and
  channels are named by numbers.

  \<^bold>\<open>Bounds and fuel.\<close> No definition uses fuel: parser and writer recurse on the buffer or the value with a
  termination proof, the loops of goroutines are step relations. Lemmas about positions ask that buffers
  are shorter than \<open>2 ^ 63 - 2\<close> bytes and that one value takes less than \<open>2 ^ 48\<close> bytes of memory for its
  elements (\<open>wire_ok\<close>), which every machine the code runs on respects. Termination after a stop signal
  is proved with explicit measures (\<open>d_measure\<close>, \<open>s_measure\<close>, \<open>sv_measure\<close>).

  \<^bold>\<open>Parameters.\<close> \<^verbatim>\<open>strings.ToLower\<close> outside ASCII (\<open>uni\<close>), the printing of floats and map keys, \<^verbatim>\<open>==\<close>
  of map keys (Go maps have no two equal keys; a NaN is not equal to itself), what an \<^verbatim>\<open>Error\<close> method
  returns or panics with, \<^verbatim>\<open>path.Match\<close>, the order of iteration over maps, memory scopes (\<open>scope_get\<close>, which returns as many bytes as it is asked for), the
  network (what reads deliver, what writes and closes return; a write takes a first part of the bytes, and
  all of them unless it returns an error: \<open>io_writer\<close>), user-supplied connections of \<^verbatim>\<open>PubSub\<close>.

  \<^bold>\<open>Not modelled.\<close> Logging, the scopes' memory, functions that only return a field of a connection, the
  transaction fields of a session and the types of \<^verbatim>\<open>respkit.go\<close> that nothing uses, \<^verbatim>\<open>example/\<close> and the
  tests. Values given to \<^verbatim>\<open>AppendAny\<close> are finite (one that holds itself overflows the stack), session IDs of
  an allocator are distinct. \<^verbatim>\<open>net.Listen\<close>, \<^verbatim>\<open>tls.NewListener\<close> and the methods of \<^verbatim>\<open>net.Conn\<close> are parameters.
\<close>



end
